(* ===== verification/Prelude.thy ===== *)
theory Prelude
  imports Main "HOL-Library.Word" "HOL-Library.Multiset" "HOL-Library.Monad_Syntax"
begin

text \<open>
  Shared vocabulary of the development: the machine types of the C++ sources, the
  collections of simplification rules that the component theories fill, and the generic
  facts on lists, options and words they share.

  Conventions used by every theory:
  \<^item> unsigned integers whose wrap-around or bit pattern matters are words; \<open>size_t\<close> counters
    and indices that only grow by packet sizes are \<open>nat\<close>;
  \<^item> memory is a total function from addresses to bytes, so that a pointer is an address and
    a \<open>(base, len)\<close> chunk denotes the bytes it points to at the moment of the read;
  \<^item> \<open>'a option\<close> is the result of code whose C++ meaning may be undefined (an index outside
    an array, a null pointer, a division by zero) or which may not return: \<open>None\<close> is that
    case, and a theorem that concludes \<open>Some\<close> rules it out. \<open>EXIT_FAILURE\<close> and the other
    error returns of the code are ordinary values.
\<close>

unbundle bit_operations_syntax

type_synonym byte = "8 word"
type_synonym u16 = "16 word"
type_synonym u32 = "32 word"
type_synonym u64 = "64 word"
type_synonym addr = nat
type_synonym memory = "addr \<Rightarrow> byte"

named_theorems reader_simps "facts that evaluate the byte and bit readers"
named_theorems reads_step "one more reading operation keeps a forward reading"
named_theorems reader_inv "well-formedness of the chain is kept by the readers"

section \<open>Fallible array accesses\<close>

text \<open>
  \<open>a[i]\<close> and \<open>a[i] = v\<close> on a C array of \<open>length xs\<close> elements: outside it the access is
  undefined.
\<close>

definition arr_get :: "'a list \<Rightarrow> nat \<Rightarrow> 'a option" where
  "arr_get xs i = (if i < length xs then Some (xs ! i) else None)"

definition arr_set :: "'a list \<Rightarrow> nat \<Rightarrow> 'a \<Rightarrow> 'a list option" where
  "arr_set xs i v = (if i < length xs then Some (xs[i := v]) else None)"

lemma arr_get_Some [simp]: "arr_get xs i = Some v \<longleftrightarrow> i < length xs \<and> v = xs ! i"
  by (auto simp: arr_get_def)

lemma arr_set_Some [simp]: "arr_set xs i v = Some ys \<longleftrightarrow> i < length xs \<and> ys = xs[i := v]"
  by (auto simp: arr_set_def)

lemma arr_get_in: "i < length xs \<Longrightarrow> arr_get xs i = Some (xs ! i)"
  by simp

lemma arr_set_in: "i < length xs \<Longrightarrow> arr_set xs i v = Some (xs[i := v])"
  by simp

lemma arr_get_None [simp]: "arr_get xs i = None \<longleftrightarrow> length xs \<le> i"
  by (auto simp: arr_get_def)

lemma arr_set_None [simp]: "arr_set xs i v = None \<longleftrightarrow> length xs \<le> i"
  by (auto simp: arr_set_def)

section \<open>Bytes in memory\<close>

definition mem_read :: "memory \<Rightarrow> addr \<Rightarrow> nat \<Rightarrow> byte list" where
  "mem_read m a n = map (\<lambda>i. m (a + i)) [0..<n]"

lemma length_mem_read [simp]: "length (mem_read m a n) = n"
  by (simp add: mem_read_def)

lemma nth_mem_read [simp]: "i < n \<Longrightarrow> mem_read m a n ! i = m (a + i)"
  by (simp add: mem_read_def)

lemma mem_read_0 [simp]: "mem_read m a 0 = []"
  by (simp add: mem_read_def)

lemma mem_read_append: "mem_read m a (n + k) = mem_read m a n @ mem_read m (a + n) k"
  by (rule nth_equalityI) (auto simp: nth_append)

lemma take_mem_read [simp]: "take k (mem_read m a n) = mem_read m a (min k n)"
  by (rule nth_equalityI) auto

lemma drop_mem_read [simp]: "drop k (mem_read m a n) = mem_read m (a + k) (n - k)"
  by (rule nth_equalityI) (auto simp: add.assoc)

lemma mem_read_cong:
  assumes "\<And>i. i < n \<Longrightarrow> m (a + i) = m' (a + i)"
  shows "mem_read m a n = mem_read m' a n"
  by (rule nth_equalityI) (auto simp: assms)

section \<open>Lists\<close>

lemma sum_list_take_Suc:
  fixes xs :: "nat list"
  shows "i < length xs \<Longrightarrow> sum_list (take (Suc i) xs) = sum_list (take i xs) + xs ! i"
  by (simp add: take_Suc_conv_app_nth)

lemma sum_list_take_le:
  fixes xs :: "nat list"
  shows "sum_list (take i xs) \<le> sum_list xs"
  by (metis append_take_drop_id le_add1 sum_list.append)

lemma upt_split: "i \<le> j \<Longrightarrow> j \<le> k \<Longrightarrow> [i..<k] = [i..<j] @ [j..<k]"
  using upt_add_eq_append [of i j "k - j"] by simp

lemma nth_concat_chunk:
  "i < length xss \<Longrightarrow> j < length (xss ! i) \<Longrightarrow>
     concat xss ! (sum_list (map length (take i xss)) + j) = xss ! i ! j"
proof (induction xss arbitrary: i)
  case Nil
  then show ?case by simp
next
  case (Cons xs xss)
  then show ?case
    by (cases i) (auto simp: nth_append add.assoc)
qed

lemma drop_concat_chunk:
  "i < length xss \<Longrightarrow> j \<le> length (xss ! i) \<Longrightarrow>
     drop (sum_list (map length (take i xss)) + j) (concat xss)
       = drop j (xss ! i) @ concat (drop (Suc i) xss)"
proof (induction xss arbitrary: i)
  case Nil
  then show ?case by simp
next
  case (Cons xs xss)
  then show ?case
    by (cases i) (auto simp: add.assoc)
qed

section \<open>Machines and their observers\<close>

text \<open>
  A component that handles one input at a time and emits events, run over a sequence of inputs,
  and an observer that reads the events and may reject one.
\<close>

primrec run :: "('i \<Rightarrow> 's \<Rightarrow> ('s \<times> 'e list) option) \<Rightarrow> 'i list \<Rightarrow> 's \<Rightarrow> ('s \<times> 'e list) option" where
  "run step [] s = Some (s, [])"
| "run step (i # is) s =
     do { (s, ev) \<leftarrow> step i s; (s, ev') \<leftarrow> run step is s; Some (s, ev @ ev') }"

primrec observe :: "('m \<Rightarrow> 'e \<Rightarrow> 'm option) \<Rightarrow> 'e list \<Rightarrow> 'm \<Rightarrow> 'm option" where
  "observe mon [] k = Some k"
| "observe mon (e # es) k = do { k \<leftarrow> mon k e; observe mon es k }"

lemma run_append:
  "run step (is @ js) s = do { (s, ev) \<leftarrow> run step is s; (s, ev') \<leftarrow> run step js s; Some (s, ev @ ev') }"
  by (induction "is" arbitrary: s) (auto simp: case_prod_unfold split: bind_splits)

lemma observe_append [simp]:
  "observe mon (es @ es') k = do { k \<leftarrow> observe mon es k; observe mon es' k }"
  by (induction es arbitrary: k) (auto split: bind_splits)

text \<open>
  A machine whose events every observer state allowed by the invariant accepts, as long as its
  inputs are acceptable.
\<close>

locale observed_machine =
  fixes step :: "'i \<Rightarrow> 's \<Rightarrow> ('s \<times> 'e list) option"
    and acc :: "'i \<Rightarrow> bool"
    and mon :: "'m \<Rightarrow> 'e \<Rightarrow> 'm option"
    and inv :: "'m \<Rightarrow> 's \<Rightarrow> bool"
  assumes step_observed:
    "inv k s \<Longrightarrow> acc i \<Longrightarrow> step i s = Some (s', ev) \<Longrightarrow> \<exists>k'. observe mon ev k = Some k' \<and> inv k' s'"
begin

lemma run_observed:
  "inv k s \<Longrightarrow> list_all acc is \<Longrightarrow> run step is s = Some (s', ev) \<Longrightarrow>
     \<exists>k'. observe mon ev k = Some k' \<and> inv k' s'"
proof (induction "is" arbitrary: k s s' ev)
  case Nil
  then show ?case by simp
next
  case (Cons i "is")
  from Cons.prems(3) obtain s1 ev1 ev2 where
    1: "step i s = Some (s1, ev1)" and 2: "run step is s1 = Some (s', ev2)" and ev: "ev = ev1 @ ev2"
    by (auto split: bind_splits)
  from step_observed [OF Cons.prems(1) _ 1] Cons.prems(2) obtain k1 where
    k1: "observe mon ev1 k = Some k1" "inv k1 s1" by auto
  from Cons.IH [OF k1(2) _ 2] Cons.prems(2) obtain k2 where
    "observe mon ev2 k1 = Some k2" "inv k2 s'" by auto
  with k1 ev show ?case by simp
qed

end

text \<open>
  A machine that takes something in with every input and gives it back in its events: what it
  holds plus what it takes in is what it holds afterwards plus what it gives back.
\<close>

locale ledger_machine =
  fixes step :: "'i \<Rightarrow> 's \<Rightarrow> ('s \<times> 'e list) option"
    and inv :: "'s \<Rightarrow> bool"
    and stock :: "'s \<Rightarrow> 'a multiset"
    and taken :: "'i \<Rightarrow> 'a multiset"
    and given :: "'e list \<Rightarrow> 'a multiset"
  assumes step_ledger:
    "inv s \<Longrightarrow> step i s = Some (s', ev) \<Longrightarrow> inv s' \<and> stock s + taken i = stock s' + given ev"
    and given_append: "given (ev @ ev') = given ev + given ev'"
    and given_Nil: "given [] = {#}"
begin

lemma run_ledger:
  "inv s \<Longrightarrow> run step is s = Some (s', ev) \<Longrightarrow>
     inv s' \<and> stock s + sum_list (map taken is) = stock s' + given ev"
proof (induction "is" arbitrary: s s' ev)
  case Nil
  then show ?case by (simp add: given_Nil)
next
  case (Cons i "is")
  from Cons.prems(2) obtain s1 ev1 ev2 where
    1: "step i s = Some (s1, ev1)" and 2: "run step is s1 = Some (s', ev2)" and ev: "ev = ev1 @ ev2"
    by (auto split: bind_splits)
  from step_ledger [OF Cons.prems(1) 1] have s1: "inv s1" "stock s + taken i = stock s1 + given ev1"
    by auto
  from Cons.IH [OF s1(1) 2] have s': "inv s'" "stock s1 + sum_list (map taken is) = stock s' + given ev2"
    by auto
  have "stock s + sum_list (map taken (i # is)) = (stock s + taken i) + sum_list (map taken is)"
    by (simp add: add.assoc)
  also have "\<dots> = given ev1 + (stock s1 + sum_list (map taken is))"
    by (simp add: s1(2) ac_simps)
  also have "\<dots> = stock s' + given ev"
    by (simp add: s'(2) ev given_append ac_simps)
  finally show ?case using s'(1) by simp
qed

end

text \<open>
  A machine that carries more state than another and behaves alike: erasing the extra state from a
  step gives a step of the other machine, with the same events.
\<close>

locale erased_machine =
  fixes step :: "'i \<Rightarrow> 's \<Rightarrow> ('s \<times> 'e list) option"
    and full :: "'i \<Rightarrow> 't \<Rightarrow> ('t \<times> 'e list) option"
    and erase :: "'t \<Rightarrow> 's"
    and inv :: "'t \<Rightarrow> bool"
  assumes step_erased: "inv t \<Longrightarrow> step i (erase t) = map_option (map_prod erase id) (full i t)"
    and step_inv: "inv t \<Longrightarrow> full i t = Some (t', ev) \<Longrightarrow> inv t'"
begin

lemma run_erased: "inv t \<Longrightarrow> run step is (erase t) = map_option (map_prod erase id) (run full is t)"
proof (induction "is" arbitrary: t)
  case (Cons i "is")
  show ?case
  proof (cases "full i t")
    case None
    with Cons.prems step_erased show ?thesis by simp
  next
    case (Some r)
    obtain t' ev where r: "r = (t', ev)" by (cases r)
    from Cons.IH [of t'] Cons.prems step_inv Some r have "run step is (erase t') = map_option (map_prod erase id) (run full is t')" by blast
    with Cons.prems step_erased [of t i] Some r show ?thesis by (cases "run full is t'") auto
  qed
qed simp

end

end
