(* ===== verification/Rtp_Receiver.thy ===== *)
theory Rtp_Receiver
  imports Prelude
begin

text \<open>
  \<open>class Receiver\<close> of \<open>src/rtp_receiver.hpp\<close> and \<open>src/rtp_receiver.cpp\<close>: the slab ring, RTP
  header parsing, reordering within the jitter window, hand-over of slabs to the worker through
  the single-producer single-consumer job queue, and the worker's side of it.

  The ring and the job array are functions from indices; the slab bytes are the memory the
  frame handler reads, slot \<open>i\<close> at \<open>i * kSlotBytes\<close>. \<open>Receiver_Control\<close>
  adds sockets, threads and CPU pinning; \<open>Spsc_Queue\<close> treats the interleaving of the two threads on
  the queue.
\<close>

section \<open>Constants and state\<close>

definition kRingSize :: nat where "kRingSize = 16384"
definition kSlotBytes :: nat where "kSlotBytes = 9216"
definition kJobQueueSize :: nat where "kJobQueueSize = kRingSize"
definition kRtpVersion :: byte where "kRtpVersion = 2"

record slot =
  filled :: bool
  slot_seq :: u16
  slot_hdr_len :: u16
  slot_len :: nat
  in_worker :: bool

record job =
  job_slab :: nat
  job_len :: nat
  job_seq :: u16
  job_hdr_len :: u16

record receiver =
  jitter_depth :: nat
  ring :: "nat \<Rightarrow> slot"
  slab :: memory
  started :: bool
  next_seq :: u16
  pending :: nat
  net_lost_packets :: nat
  slot_busy_drops :: nat
  queue_full_drops :: nat
  job_queue :: "nat \<Rightarrow> job"
  job_head :: nat
  job_tail :: nat

text \<open>\<open>rtp::Frame\<close>, as the hook receives it.\<close>

record rtp_frame =
  f_seq :: u16
  f_timestamp :: u32
  f_ssrc :: u32
  f_marker :: bool
  f_payload_type :: byte
  f_payload :: addr
  f_payload_len :: nat
  f_slab_idx :: nat

definition slot_empty :: slot where
  "slot_empty = \<lparr>filled = False, slot_seq = 0, slot_hdr_len = 0, slot_len = 0, in_worker = False\<rparr>"

definition job_empty :: job where
  "job_empty = \<lparr>job_slab = 0, job_len = 0, job_seq = 0, job_hdr_len = 0\<rparr>"

text \<open>The state after \<open>start\<close>, for a given jitter depth.\<close>

definition receiver_start :: "nat \<Rightarrow> receiver" where
  "receiver_start jd = \<lparr>jitter_depth = jd, ring = (\<lambda>_. slot_empty), slab = (\<lambda>_. 0), started = False,
     next_seq = 0, pending = 0, net_lost_packets = 0, slot_busy_drops = 0, queue_full_drops = 0,
     job_queue = (\<lambda>_. job_empty), job_head = 0, job_tail = 0\<rparr>"

definition upd_slot :: "nat \<Rightarrow> (slot \<Rightarrow> slot) \<Rightarrow> receiver \<Rightarrow> receiver" where
  "upd_slot i f rx = rx\<lparr>ring := (ring rx)(i := f (ring rx i))\<rparr>"

section \<open>The job queue\<close>

definition enqueue_job :: "job \<Rightarrow> receiver \<Rightarrow> bool \<times> receiver" where
  "enqueue_job j rx =
     (let next_tail = (job_tail rx + 1) mod kJobQueueSize
      in if next_tail = job_head rx then (False, rx)
         else (True, rx\<lparr>job_queue := (job_queue rx)(job_tail rx := j), job_tail := next_tail\<rparr>))"

definition dequeue_job :: "receiver \<Rightarrow> (job \<times> receiver) option" where
  "dequeue_job rx =
     (if job_head rx = job_tail rx then None
      else Some (job_queue rx (job_head rx), rx\<lparr>job_head := (job_head rx + 1) mod kJobQueueSize\<rparr>))"

definition dispatch :: "nat \<Rightarrow> nat \<Rightarrow> u16 \<Rightarrow> u16 \<Rightarrow> receiver \<Rightarrow> receiver" where
  "dispatch i len seq hdr_len rx =
     (let rx = upd_slot i (\<lambda>s. s\<lparr>in_worker := True\<rparr>) rx;
          (ok, rx) = enqueue_job \<lparr>job_slab = i, job_len = len, job_seq = seq, job_hdr_len = hdr_len\<rparr> rx
      in if ok then rx
         else (upd_slot i (\<lambda>s. s\<lparr>in_worker := False\<rparr>) rx)
                \<lparr>queue_full_drops := queue_full_drops rx + 1\<rparr>)"

section \<open>Reordering\<close>

definition ring_index :: "u16 \<Rightarrow> nat" where
  "ring_index seq = unat seq mod kRingSize"

definition seq_diff :: "u16 \<Rightarrow> u16 \<Rightarrow> int" where
  "seq_diff seq nxt = sint (seq - nxt)"

text \<open>Dispatch of the slot at the head of the window, which is then free again.\<close>

definition dispatch_head :: "receiver \<Rightarrow> receiver" where
  "dispatch_head rx =
     (let i = ring_index (next_seq rx); s = ring rx i;
          rx = dispatch i (slot_len s) (slot_seq s) (slot_hdr_len s) rx;
          rx = upd_slot i (\<lambda>s. s\<lparr>filled := False, slot_len := 0\<rparr>) rx
      in rx\<lparr>pending := pending rx - 1\<rparr>)"

definition head_filled :: "receiver \<Rightarrow> bool" where
  "head_filled rx \<longleftrightarrow> filled (ring rx (ring_index (next_seq rx)))
     \<and> slot_seq (ring rx (ring_index (next_seq rx))) = next_seq rx"

definition advance_head :: "receiver \<Rightarrow> receiver" where
  "advance_head rx =
     (let rx = (if head_filled rx then dispatch_head rx
                else rx\<lparr>net_lost_packets := net_lost_packets rx + 1\<rparr>)
      in rx\<lparr>next_seq := next_seq rx + 1\<rparr>)"

text \<open>
  The force-advance loop. It compares against the depth as an \<open>int16_t\<close>; it is partial because
  a depth that converts to the smallest \<open>int16_t\<close> never lets it end.
\<close>

definition depth16 :: "receiver \<Rightarrow> int" where
  "depth16 rx = sint (word_of_nat (jitter_depth rx) :: u16)"

partial_function (option) force_advance :: "u16 \<Rightarrow> receiver \<Rightarrow> receiver option" where
  "force_advance seq rx =
     (if depth16 rx \<le> seq_diff seq (next_seq rx) then force_advance seq (advance_head rx) else Some rx)"

declare force_advance.simps [code]

function release_in_order :: "receiver \<Rightarrow> receiver" where
  "release_in_order rx =
     (if 0 < pending rx \<and> head_filled rx
      then release_in_order ((dispatch_head rx)\<lparr>next_seq := next_seq rx + 1\<rparr>)
      else rx)"
  by pat_completeness auto
termination
  by (relation "measure pending")
    (auto simp: dispatch_head_def dispatch_def enqueue_job_def upd_slot_def Let_def split: if_splits)

declare release_in_order.simps [simp del]

section \<open>Datagrams\<close>

definition rd_u16 :: "byte list \<Rightarrow> nat \<Rightarrow> u16" where
  "rd_u16 d i = push_bit 8 (ucast (d ! i)) OR ucast (d ! (i + 1))"

text \<open>
  RTP header validation: the header length, the effective length without padding and the
  sequence number, or \<open>None\<close> where \<open>handle_dgram\<close> drops the datagram.
\<close>

definition parse_rtp :: "byte list \<Rightarrow> (nat \<times> nat \<times> u16) option" where
  "parse_rtp d =
     (let b0 = d ! 0; len = length d
      in if drop_bit 6 b0 \<noteq> kRtpVersion then None
         else let cc = unat (b0 AND 0x0F);
                  pad = (drop_bit 5 b0 AND 1 \<noteq> 0);
                  ext = (drop_bit 4 b0 AND 1 \<noteq> 0);
                  hdr0 = 12 + 4 * cc
              in if len < hdr0 then None
                 else if ext \<and> len < hdr0 + 4 then None
                 else let hdr = (if ext then hdr0 + 4 + 4 * unat (rd_u16 d (hdr0 + 2)) else hdr0)
                      in if len < hdr then None
                         else let pad_len = (if pad then unat (d ! (len - 1)) else 0)
                              in if len - hdr < pad_len then None
                                 else if kSlotBytes < len - pad_len then None
                                 else Some (hdr, len - pad_len, rd_u16 d 2))"

text \<open>Storing a packet in its slot, or the drop that the slot's state asks for.\<close>

definition store_packet :: "byte list \<Rightarrow> nat \<Rightarrow> nat \<Rightarrow> u16 \<Rightarrow> receiver \<Rightarrow> receiver" where
  "store_packet d hdr elen seq rx =
     (let i = ring_index seq; s = ring rx i
      in if filled s
         then if slot_seq s = seq then rx
              else rx\<lparr>net_lost_packets := net_lost_packets rx + 1\<rparr>
         else if in_worker s then rx\<lparr>slot_busy_drops := slot_busy_drops rx + 1\<rparr>
         else let rx = rx\<lparr>slab := (\<lambda>a. if i * kSlotBytes \<le> a \<and> a < i * kSlotBytes + elen
                                      then d ! (a - i * kSlotBytes) else slab rx a)\<rparr>;
                  rx = upd_slot i (\<lambda>s. s\<lparr>slot_seq := seq, slot_hdr_len := word_of_nat hdr,
                                      slot_len := elen, filled := True\<rparr>) rx
              in release_in_order (rx\<lparr>pending := pending rx + 1\<rparr>))"

definition handle_dgram :: "byte list \<Rightarrow> receiver \<Rightarrow> receiver option" where
  "handle_dgram d rx =
     (case parse_rtp d of None \<Rightarrow> Some rx
      | Some (hdr, elen, seq) \<Rightarrow>
          let rx = (if \<not> started rx then rx\<lparr>started := True, next_seq := seq\<rparr> else rx)
          in if seq_diff seq (next_seq rx) < 0 then Some rx
             else do { rx \<leftarrow> force_advance seq rx; Some (store_packet d hdr elen seq rx) })"

text \<open>\<open>recv_loop\<close> drops datagrams shorter than an RTP header.\<close>

definition recv_dgram :: "byte list \<Rightarrow> receiver \<Rightarrow> receiver option" where
  "recv_dgram d rx = (if length d < 12 then Some rx else handle_dgram d rx)"

text \<open>The results of \<open>recv\<close>, in the order they come: bytes, an interrupted call, another failure.\<close>

datatype recv_result = Dgram "byte list" | Recv_EINTR | Recv_Failed

fun recv_loop :: "recv_result list \<Rightarrow> receiver \<Rightarrow> receiver option" where
  "recv_loop [] rx = Some rx"
| "recv_loop (Recv_EINTR # rs) rx = recv_loop rs rx"
| "recv_loop (Recv_Failed # rs) rx = Some rx"
| "recv_loop (Dgram d # rs) rx = do { rx \<leftarrow> recv_dgram d rx; recv_loop rs rx }"

definition total_drops :: "receiver \<Rightarrow> nat" where
  "total_drops rx = net_lost_packets rx + slot_busy_drops rx + queue_full_drops rx"

section \<open>The worker's side\<close>

definition release_slab :: "nat \<Rightarrow> receiver \<Rightarrow> receiver" where
  "release_slab i rx = (if i < kRingSize then upd_slot i (\<lambda>s. s\<lparr>in_worker := False\<rparr>) rx else rx)"

definition rd_u32 :: "memory \<Rightarrow> addr \<Rightarrow> u32" where
  "rd_u32 m a = push_bit 24 (ucast (m a)) OR push_bit 16 (ucast (m (a + 1)))
     OR push_bit 8 (ucast (m (a + 2))) OR ucast (m (a + 3))"

text \<open>\<open>process_job\<close>: the frame for the hook, or the slab given back. The hook is set by \<open>start\<close> before the worker runs, so its test is left out.\<close>

definition process_job :: "job \<Rightarrow> receiver \<Rightarrow> rtp_frame option \<times> receiver" where
  "process_job j rx =
     (let data = job_slab j * kSlotBytes; b1 = slab rx (data + 1)
      in if unat (job_hdr_len j) \<le> job_len j
         then (Some \<lparr>f_seq = job_seq j, f_timestamp = rd_u32 (slab rx) (data + 4),
                 f_ssrc = rd_u32 (slab rx) (data + 8), f_marker = (drop_bit 7 b1 AND 1 \<noteq> 0),
                 f_payload_type = b1 AND 0x7F, f_payload = data + unat (job_hdr_len j),
                 f_payload_len = job_len j - unat (job_hdr_len j), f_slab_idx = job_slab j\<rparr>, rx)
         else (None, upd_slot (job_slab j) (\<lambda>s. s\<lparr>in_worker := False\<rparr>) rx))"

end
