(* ===== verification/Job_Queue.thy ===== *)
theory Job_Queue
  imports Rtp_Receiver
begin

text \<open>
  The job queue between the receive thread and the worker (\<open>enqueue_job\<close>, \<open>dequeue_job\<close> of
  \<open>src/rtp_receiver.cpp\<close>): a ring of \<open>kJobQueueSize\<close> entries that behaves as a first-in
  first-out list of at most \<open>kJobQueueSize - 1\<close> jobs.
\<close>

section \<open>Bounded queues\<close>

datatype 'a queue_op = Enq 'a | Deq
datatype 'a queue_res = Accepted bool | Taken "'a option"

text \<open>The specification: a list of at most \<open>cap\<close> elements.\<close>

fun list_queue :: "nat \<Rightarrow> 'a queue_op list \<Rightarrow> 'a list \<Rightarrow> 'a queue_res list \<times> 'a list" where
  "list_queue cap [] xs = ([], xs)"
| "list_queue cap (Enq x # ops) xs =
     (let (rs, ys) = list_queue cap ops (if length xs < cap then xs @ [x] else xs)
      in (Accepted (length xs < cap) # rs, ys))"
| "list_queue cap (Deq # ops) xs =
     (let (rs, ys) = list_queue cap ops (tl xs)
      in (Taken (case xs of [] \<Rightarrow> None | x # _ \<Rightarrow> Some x) # rs, ys))"

text \<open>A sequence of operations on an implementation.\<close>

fun operate :: "('a \<Rightarrow> 'q \<Rightarrow> bool \<times> 'q) \<Rightarrow> ('q \<Rightarrow> ('a \<times> 'q) option) \<Rightarrow>
    'a queue_op list \<Rightarrow> 'q \<Rightarrow> 'a queue_res list \<times> 'q" where
  "operate enq deq [] q = ([], q)"
| "operate enq deq (Enq x # ops) q =
     (let (ok, q) = enq x q; (rs, q) = operate enq deq ops q in (Accepted ok # rs, q))"
| "operate enq deq (Deq # ops) q =
     (case deq q of None \<Rightarrow> (let (rs, q) = operate enq deq ops q in (Taken None # rs, q))
      | Some (x, q) \<Rightarrow> (let (rs, q) = operate enq deq ops q in (Taken (Some x) # rs, q)))"

locale bounded_queue =
  fixes enq :: "'a \<Rightarrow> 'q \<Rightarrow> bool \<times> 'q"
    and deq :: "'q \<Rightarrow> ('a \<times> 'q) option"
    and elems :: "'q \<Rightarrow> 'a list"
    and inv :: "'q \<Rightarrow> bool"
    and cap :: nat
  assumes enq_room: "inv q \<Longrightarrow> length (elems q) < cap \<Longrightarrow>
      fst (enq x q) \<and> elems (snd (enq x q)) = elems q @ [x] \<and> inv (snd (enq x q))"
    and enq_full: "inv q \<Longrightarrow> cap \<le> length (elems q) \<Longrightarrow> enq x q = (False, q)"
    and deq_empty: "inv q \<Longrightarrow> elems q = [] \<Longrightarrow> deq q = None"
    and deq_some: "inv q \<Longrightarrow> elems q \<noteq> [] \<Longrightarrow>
      \<exists>q'. deq q = Some (hd (elems q), q') \<and> elems q' = tl (elems q) \<and> inv q'"
begin

lemma operate_refines:
  "inv q \<Longrightarrow> fst (operate enq deq ops q) = fst (list_queue cap ops (elems q))
     \<and> elems (snd (operate enq deq ops q)) = snd (list_queue cap ops (elems q))
     \<and> inv (snd (operate enq deq ops q))"
proof (induction ops arbitrary: q)
  case Nil
  then show ?case by simp
next
  case (Cons op ops)
  show ?case
  proof (cases op)
    case (Enq x)
    show ?thesis
    proof (cases "length (elems q) < cap")
      case True
      with enq_room [OF Cons.prems True, of x] Cons.IH [of "snd (enq x q)"] Enq show ?thesis
        by (simp add: case_prod_beta Let_def)
    next
      case False
      with enq_full [OF Cons.prems, of x] Cons.IH [OF Cons.prems] Enq show ?thesis
        by (simp add: case_prod_beta Let_def)
    qed
  next
    case Deq
    show ?thesis
    proof (cases "elems q = []")
      case True
      with deq_empty [OF Cons.prems True] Cons.IH [OF Cons.prems] Deq show ?thesis
        by (simp add: case_prod_beta Let_def)
    next
      case False
      with deq_some [OF Cons.prems False] obtain q' where
        "deq q = Some (hd (elems q), q')" "elems q' = tl (elems q)" "inv q'" by blast
      with Cons.IH [of q'] False Deq show ?thesis
        by (cases "elems q") (simp_all add: case_prod_beta Let_def)
    qed
  qed
qed

end

section \<open>The ring\<close>

definition queue_inv :: "receiver \<Rightarrow> bool" where
  "queue_inv rx \<longleftrightarrow> job_head rx < kJobQueueSize \<and> job_tail rx < kJobQueueSize"

definition jobs :: "receiver \<Rightarrow> job list" where
  "jobs rx = map (\<lambda>k. job_queue rx ((job_head rx + k) mod kJobQueueSize))
     [0..<(job_tail rx + kJobQueueSize - job_head rx) mod kJobQueueSize]"

lemma kJobQueueSize_pos [simp]: "0 < kJobQueueSize" "1 < kJobQueueSize"
  by (simp_all add: kJobQueueSize_def kRingSize_def)

lemma length_jobs: "length (jobs rx) = (job_tail rx + kJobQueueSize - job_head rx) mod kJobQueueSize"
  by (simp add: jobs_def)

text \<open>Distances on the ring.\<close>

lemma ring_dist_Suc:
  fixes h t n :: nat
  assumes "h < n" "t < n" "(t + 1) mod n \<noteq> h"
  shows "((t + 1) mod n + n - h) mod n = Suc ((t + n - h) mod n)"
    and "(h + (t + n - h) mod n) mod n = t"
  using assms by (auto simp: mod_if)

lemma ring_dist_full:
  fixes h t n :: nat
  assumes "h < n" "t < n"
  shows "(t + 1) mod n = h \<longleftrightarrow> (t + n - h) mod n = n - 1"
  using assms by (auto simp: mod_if)

lemma ring_dist_pop:
  fixes h t n :: nat
  assumes "h < n" "t < n" "h \<noteq> t"
  shows "(t + n - h) mod n = Suc ((t + n - (h + 1) mod n) mod n)"
  using assms by (auto simp: mod_if)

lemma ring_dist_0:
  fixes h t n :: nat
  assumes "h < n" "t < n"
  shows "(t + n - h) mod n = 0 \<longleftrightarrow> h = t"
  using assms by (auto simp: mod_if)

lemma ring_inj:
  fixes h n :: nat
  assumes "h < n" "j < n" "k < n" "(h + j) mod n = (h + k) mod n"
  shows "j = k"
  using assms by (auto simp: mod_if split: if_splits)

lemma enqueue_job_full:
  "queue_inv rx \<Longrightarrow> kJobQueueSize - 1 \<le> length (jobs rx) \<Longrightarrow> enqueue_job j rx = (False, rx)"
proof -
  assume q: "queue_inv rx" and full: "kJobQueueSize - 1 \<le> length (jobs rx)"
  then have "length (jobs rx) = kJobQueueSize - 1"
    by (simp add: length_jobs) (metis Suc_pred kJobQueueSize_pos(1) less_Suc_eq_le le_antisym mod_less_divisor)
  then show ?thesis
    using q ring_dist_full [of "job_head rx" kJobQueueSize "job_tail rx"]
    by (simp add: enqueue_job_def queue_inv_def length_jobs Let_def)
qed

lemma enqueue_job_room:
  assumes q: "queue_inv rx" and room: "length (jobs rx) < kJobQueueSize - 1"
  shows "fst (enqueue_job j rx)" and "jobs (snd (enqueue_job j rx)) = jobs rx @ [j]"
    and "queue_inv (snd (enqueue_job j rx))"
proof -
  let ?h = "job_head rx" and ?t = "job_tail rx" and ?n = kJobQueueSize
  have ht: "?h < ?n" "?t < ?n" using q by (auto simp: queue_inv_def)
  have ne: "(?t + 1) mod ?n \<noteq> ?h"
    using ring_dist_full [OF ht] room by (auto simp: length_jobs)
  have eq: "enqueue_job j rx = (True, rx\<lparr>job_queue := (job_queue rx)(?t := j), job_tail := (?t + 1) mod ?n\<rparr>)"
    using ne by (simp add: enqueue_job_def Let_def)
  show "fst (enqueue_job j rx)" by (simp add: eq)
  show "queue_inv (snd (enqueue_job j rx))" using ht by (simp add: eq queue_inv_def)
  let ?d = "(?t + ?n - ?h) mod ?n"
  have keep: "(?h + k) mod ?n \<noteq> ?t" if "k < ?d" for k
    using ring_inj [OF ht(1), of k ?d] ring_dist_Suc(2) [OF ht ne] that mod_less_divisor [OF kJobQueueSize_pos(1)]
    by (metis less_trans nat_neq_iff)
  show "jobs (snd (enqueue_job j rx)) = jobs rx @ [j]"
    using ring_dist_Suc [OF ht ne] keep by (simp add: eq jobs_def)
qed

lemma dequeue_job_jobs:
  assumes q: "queue_inv rx"
  shows "jobs rx = [] \<Longrightarrow> dequeue_job rx = None"
    and "jobs rx \<noteq> [] \<Longrightarrow> dequeue_job rx = Some (hd (jobs rx), rx\<lparr>job_head := (job_head rx + 1) mod kJobQueueSize\<rparr>)
      \<and> jobs (rx\<lparr>job_head := (job_head rx + 1) mod kJobQueueSize\<rparr>) = tl (jobs rx)
      \<and> queue_inv (rx\<lparr>job_head := (job_head rx + 1) mod kJobQueueSize\<rparr>)"
proof -
  let ?h = "job_head rx" and ?t = "job_tail rx" and ?n = kJobQueueSize
  have ht: "?h < ?n" "?t < ?n" using q by (auto simp: queue_inv_def)
  have emp: "jobs rx = [] \<longleftrightarrow> ?h = ?t"
    using ring_dist_0 [OF ht] length_jobs [of rx] by auto
  show "jobs rx = [] \<Longrightarrow> dequeue_job rx = None" using emp by (simp add: dequeue_job_def)
  assume "jobs rx \<noteq> []"
  with emp have ne: "?h \<noteq> ?t" by simp
  have d: "(?t + ?n - ?h) mod ?n = Suc ((?t + ?n - (?h + 1) mod ?n) mod ?n)"
    by (rule ring_dist_pop [OF ht ne])
  have j: "jobs rx = job_queue rx ?h # jobs (rx\<lparr>job_head := (?h + 1) mod ?n\<rparr>)"
    unfolding jobs_def d upt_conv_Cons [OF zero_less_Suc] map_Suc_upt [symmetric]
    using ht mod_add_left_eq [of "Suc ?h" ?n] by (simp add: o_def del: upt_Suc)
  show "dequeue_job rx = Some (hd (jobs rx), rx\<lparr>job_head := (?h + 1) mod ?n\<rparr>)
      \<and> jobs (rx\<lparr>job_head := (?h + 1) mod ?n\<rparr>) = tl (jobs rx)
      \<and> queue_inv (rx\<lparr>job_head := (?h + 1) mod ?n\<rparr>)"
    using ne ht by (subst (1 2) j) (simp add: dequeue_job_def queue_inv_def)
qed

interpretation job_fifo: bounded_queue enqueue_job dequeue_job jobs queue_inv "kJobQueueSize - 1"
  using enqueue_job_room enqueue_job_full dequeue_job_jobs by unfold_locales auto

text \<open>
  C11: The job queue is a first-in first-out queue of at most \<open>kJobQueueSize - 1\<close> jobs: any
  sequence of enqueues and dequeues, from any state of the two indices, answers exactly as the
  bounded list does, and leaves the ring holding the same jobs in the same order.
\<close>

theorem job_queue_is_fifo:
  assumes "queue_inv rx"
  shows "fst (operate enqueue_job dequeue_job ops rx) = fst (list_queue (kJobQueueSize - 1) ops (jobs rx))
    \<and> jobs (snd (operate enqueue_job dequeue_job ops rx)) = snd (list_queue (kJobQueueSize - 1) ops (jobs rx))"
  using job_fifo.operate_refines [OF assms] by blast

definition demo_job :: "nat \<Rightarrow> job" where
  "demo_job i = \<lparr>job_slab = i, job_len = 20, job_seq = 0, job_hdr_len = 12\<rparr>"

theorem job_queue_is_fifo_witness:
  "fst (operate enqueue_job dequeue_job [Enq (demo_job 1), Enq (demo_job 2), Deq, Deq, Deq]
      ((receiver_start 64)\<lparr>job_head := 16383, job_tail := 16383\<rparr>))
     = [Accepted True, Accepted True, Taken (Some (demo_job 1)), Taken (Some (demo_job 2)), Taken None]"
proof -
  let ?rx = "(receiver_start 64)\<lparr>job_head := 16383, job_tail := 16383\<rparr>"
  have "queue_inv ?rx" "jobs ?rx = []"
    by (simp_all add: queue_inv_def jobs_def receiver_start_def kJobQueueSize_def kRingSize_def)
  with job_queue_is_fifo [of ?rx "[Enq (demo_job 1), Enq (demo_job 2), Deq, Deq, Deq]"] show ?thesis
    by (simp add: kJobQueueSize_def kRingSize_def)
qed

end
