(* ===== verification/Rtp_Order.thy ===== *)
theory Rtp_Order
  imports Job_Queue
begin

text \<open>
  Reordering in \<open>Receiver::handle_dgram\<close>: the invariant of the slab ring, that packets leave it in
  sequence order, each sequence number once, and that slabs in the worker's hands are left alone.
\<close>

section \<open>Sequence numbers\<close>

lemma sint_u16: "sint (w :: u16) = (if unat w < 32768 then int (unat w) else int (unat w) - 65536)"
proof -
  have wrap: "(u + 32768) mod 65536 - 32768 = (if u < 32768 then u else u - (65536 :: int))"
    if u: "0 \<le> u" "u < 65536" for u
  proof (cases "u < 32768")
    case False
    have e: "u + 32768 = (u - 32768) + 65536" by simp
    have "(u + 32768) mod 65536 = (u - 32768) mod 65536" unfolding e by (rule mod_add_self2)
    also have "\<dots> = u - 32768" using u False by (intro mod_pos_pos_trivial) auto
    finally show ?thesis using False by simp
  qed (use u in \<open>simp add: mod_pos_pos_trivial\<close>)
  have bounds: "0 \<le> uint w" "uint w < 65536" using uint_lt2p [of w] by simp_all
  have "sint w = take_bit 16 (uint w + 32768) - 32768"
    unfolding sint_uint signed_take_bit_eq_take_bit_shift by (simp only: len_num1 len_bit0) simp
  then have "sint w = (uint w + 32768) mod 65536 - 32768"
    unfolding take_bit_eq_mod by simp
  then have eq: "sint w = (if uint w < 32768 then uint w else uint w - 65536)"
    unfolding wrap [OF bounds] .
  have i: "int (unat w) = uint w" by simp
  have "unat w < 32768 \<longleftrightarrow> int (unat w) < int 32768" by (simp only: of_nat_less_iff)
  then have "unat w < 32768 \<longleftrightarrow> uint w < 32768" unfolding i by simp
  then show ?thesis unfolding eq i by simp
qed

lemma seq_diff_nonneg: "0 \<le> seq_diff s n \<longleftrightarrow> unat (s - n) < 32768"
  using uint_lt2p [of "s - n"] unfolding seq_diff_def sint_u16 by auto

lemma seq_diff_eq: "unat (s - n) < 32768 \<Longrightarrow> seq_diff s n = int (unat (s - n))"
  unfolding seq_diff_def sint_u16 by simp

lemma depth16_eq: "jitter_depth rx < 32768 \<Longrightarrow> depth16 rx = int (jitter_depth rx)"
  unfolding depth16_def sint_u16 by (simp add: unat_of_nat)

lemma depth_test:
  assumes "jitter_depth rx < 32768" "unat (s - n) < 32768"
  shows "depth16 rx \<le> seq_diff s n \<longleftrightarrow> jitter_depth rx \<le> unat (s - n)"
  unfolding depth16_eq [OF assms(1)] seq_diff_eq [OF assms(2)] by (simp only: of_nat_le_iff)

lemma seq_advance: "s \<noteq> n \<Longrightarrow> unat (s - (n + 1)) = unat (s - n) - 1" for s n :: u16
proof -
  assume "s \<noteq> n"
  then have "s - n \<noteq> 0" by simp
  from unat_minus_one [OF this] show ?thesis by (simp add: diff_diff_eq)
qed

lemma ring_index_add: "ring_index (n + word_of_nat k) = (unat n + k) mod kRingSize"
proof -
  have "unat (n + word_of_nat k) = (unat n + k) mod 65536"
    by (simp add: unat_word_ariths unat_of_nat mod_add_right_eq)
  then show ?thesis by (simp add: ring_index_def kRingSize_def mod_mod_cancel)
qed

lemma ring_index_less [simp]: "ring_index s < kRingSize"
  by (simp add: ring_index_def kRingSize_def)

text \<open>Within a window of \<open>kRingSize\<close> sequence numbers, a slot belongs to one number.\<close>

lemma ring_index_inj:
  assumes "unat (s - n) < kRingSize" "unat (t - n) < kRingSize" "ring_index s = ring_index t"
  shows "s = t"
proof -
  have st: "s = n + word_of_nat (unat (s - n))" "t = n + word_of_nat (unat (t - n))" by simp_all
  have "(unat n + unat (s - n)) mod kRingSize = (unat n + unat (t - n)) mod kRingSize"
    using assms(3) ring_index_add [of n "unat (s - n)"] ring_index_add [of n "unat (t - n)"] by simp
  then have "(unat n mod kRingSize + unat (s - n)) mod kRingSize = (unat n mod kRingSize + unat (t - n)) mod kRingSize"
    by (simp add: mod_add_left_eq)
  moreover have "unat n mod kRingSize < kRingSize" by (simp add: kRingSize_def)
  ultimately have "unat (s - n) = unat (t - n)"
    using ring_inj assms(1,2) by blast
  then show ?thesis using st by metis
qed

section \<open>The invariant\<close>

text \<open>
  A filled slot holds a packet of the window, in its place, in the receive thread's hands; jobs
  in the queue own distinct slabs, which are marked busy.
\<close>

definition slot_ok :: "receiver \<Rightarrow> nat \<Rightarrow> bool" where
  "slot_ok rx i \<longleftrightarrow> i < kRingSize \<and> ring_index (slot_seq (ring rx i)) = i \<and> \<not> in_worker (ring rx i)
     \<and> unat (slot_seq (ring rx i) - next_seq rx) < jitter_depth rx
     \<and> unat (slot_hdr_len (ring rx i)) \<le> slot_len (ring rx i) \<and> slot_len (ring rx i) \<le> kSlotBytes"

definition job_ok :: "receiver \<Rightarrow> job \<Rightarrow> bool" where
  "job_ok rx j \<longleftrightarrow> job_slab j < kRingSize \<and> in_worker (ring rx (job_slab j))
     \<and> unat (job_hdr_len j) \<le> job_len j \<and> job_len j \<le> kSlotBytes"

definition rx_inv :: "receiver \<Rightarrow> bool" where
  "rx_inv rx \<longleftrightarrow> queue_inv rx \<and> 0 < jitter_depth rx \<and> jitter_depth rx \<le> kRingSize
     \<and> (\<forall>i. filled (ring rx i) \<longrightarrow> slot_ok rx i)
     \<and> pending rx = card {i. filled (ring rx i)}
     \<and> (\<not> started rx \<longrightarrow> {i. filled (ring rx i)} = {})
     \<and> (\<forall>j \<in> set (jobs rx). job_ok rx j) \<and> distinct (map job_slab (jobs rx))"

lemma jobs_upd [simp]:
  "jobs (rx\<lparr>ring := r\<rparr>) = jobs rx" "jobs (rx\<lparr>pending := k\<rparr>) = jobs rx"
  "jobs (rx\<lparr>next_seq := n\<rparr>) = jobs rx" "jobs (rx\<lparr>net_lost_packets := k\<rparr>) = jobs rx"
  "jobs (rx\<lparr>queue_full_drops := k\<rparr>) = jobs rx" "jobs (rx\<lparr>slab := m\<rparr>) = jobs rx"
  "jobs (rx\<lparr>started := b\<rparr>) = jobs rx" "jobs (rx\<lparr>slot_busy_drops := k\<rparr>) = jobs rx"
  by (simp_all add: jobs_def)

lemma queue_inv_upd [simp]:
  "queue_inv (rx\<lparr>ring := r\<rparr>) = queue_inv rx" "queue_inv (rx\<lparr>pending := k\<rparr>) = queue_inv rx"
  "queue_inv (rx\<lparr>next_seq := n\<rparr>) = queue_inv rx" "queue_inv (rx\<lparr>net_lost_packets := k\<rparr>) = queue_inv rx"
  "queue_inv (rx\<lparr>queue_full_drops := k\<rparr>) = queue_inv rx" "queue_inv (rx\<lparr>slab := m\<rparr>) = queue_inv rx"
  "queue_inv (rx\<lparr>started := b\<rparr>) = queue_inv rx" "queue_inv (rx\<lparr>slot_busy_drops := k\<rparr>) = queue_inv rx"
  by (simp_all add: queue_inv_def)

lemma rx_inv_finite: "rx_inv rx \<Longrightarrow> finite {i. filled (ring rx i)}"
  by (rule finite_subset [of _ "{..<kRingSize}"]) (auto simp: rx_inv_def slot_ok_def)

section \<open>Dispatching the head\<close>

definition queue_room :: "receiver \<Rightarrow> bool" where
  "queue_room rx \<longleftrightarrow> length (jobs rx) < kJobQueueSize - 1"

definition head_job :: "receiver \<Rightarrow> job" where
  "head_job rx = (let s = ring rx (ring_index (next_seq rx)) in
     \<lparr>job_slab = ring_index (next_seq rx), job_len = slot_len s, job_seq = slot_seq s, job_hdr_len = slot_hdr_len s\<rparr>)"

lemma enqueue_job_frame [simp]:
  "ring (snd (enqueue_job j rx)) = ring rx" "next_seq (snd (enqueue_job j rx)) = next_seq rx"
  "pending (snd (enqueue_job j rx)) = pending rx" "slab (snd (enqueue_job j rx)) = slab rx"
  "started (snd (enqueue_job j rx)) = started rx" "jitter_depth (snd (enqueue_job j rx)) = jitter_depth rx"
  "net_lost_packets (snd (enqueue_job j rx)) = net_lost_packets rx"
  "queue_full_drops (snd (enqueue_job j rx)) = queue_full_drops rx"
  by (simp_all add: enqueue_job_def Let_def)

lemma enqueue_job_fst: "queue_inv rx \<Longrightarrow> fst (enqueue_job j rx) \<longleftrightarrow> queue_room rx"
  using enqueue_job_room [of rx j] enqueue_job_full [of rx j] by (cases "queue_room rx") (auto simp: queue_room_def)

lemma enqueue_job_jobs:
  "queue_inv rx \<Longrightarrow> jobs (snd (enqueue_job j rx)) = jobs rx @ (if queue_room rx then [j] else [])
     \<and> queue_inv (snd (enqueue_job j rx))"
  using enqueue_job_room [of rx j] enqueue_job_full [of rx j] by (cases "queue_room rx") (auto simp: queue_room_def)

lemma dispatch_eq:
  assumes q: "queue_inv rx"
  shows "dispatch i len seq hdr rx =
    (snd (enqueue_job \<lparr>job_slab = i, job_len = len, job_seq = seq, job_hdr_len = hdr\<rparr>
      (upd_slot i (\<lambda>s. s\<lparr>in_worker := queue_room rx\<rparr>) rx)))
    \<lparr>queue_full_drops := queue_full_drops rx + (if queue_room rx then 0 else 1)\<rparr>"
proof -
  let ?j = "\<lparr>job_slab = i, job_len = len, job_seq = seq, job_hdr_len = hdr\<rparr>"
  let ?u = "\<lambda>b. upd_slot i (\<lambda>s. s\<lparr>in_worker := b\<rparr>) rx"
  have q1: "queue_inv (?u b)" "queue_room (?u b) = queue_room rx" for b
    using q by (simp_all add: upd_slot_def queue_room_def)
  show ?thesis
  proof (cases "queue_room rx")
    case True
    obtain ok rx2 where e: "enqueue_job ?j (?u True) = (ok, rx2)" by fastforce
    with True q1 enqueue_job_fst [of "?u True" ?j] have ok by simp
    with e True enqueue_job_frame(8) [of ?j "?u True"] show ?thesis
      by (simp add: dispatch_def upd_slot_def)
  next
    case False
    then have "enqueue_job ?j (?u b) = (False, ?u b)" for b
      using enqueue_job_full [OF q1(1), of b ?j] by (simp add: queue_room_def upd_slot_def)
    with False show ?thesis by (simp add: dispatch_def upd_slot_def)
  qed
qed

lemma dispatch_head_state:
  assumes q: "queue_inv rx"
  shows "ring (dispatch_head rx) = (ring rx)(ring_index (next_seq rx) :=
        (ring rx (ring_index (next_seq rx)))\<lparr>in_worker := queue_room rx, filled := False, slot_len := 0\<rparr>)"
    and "jobs (dispatch_head rx) = jobs rx @ (if queue_room rx then [head_job rx] else [])"
    and "queue_inv (dispatch_head rx)" and "pending (dispatch_head rx) = pending rx - 1"
    and "next_seq (dispatch_head rx) = next_seq rx" and "slab (dispatch_head rx) = slab rx"
    and "started (dispatch_head rx) = started rx" and "jitter_depth (dispatch_head rx) = jitter_depth rx"
    and "net_lost_packets (dispatch_head rx) = net_lost_packets rx"
    and "queue_full_drops (dispatch_head rx) = queue_full_drops rx + (if queue_room rx then 0 else 1)"
proof -
  let ?u = "upd_slot (ring_index (next_seq rx)) (\<lambda>s. s\<lparr>in_worker := queue_room rx\<rparr>) rx"
  have q1: "queue_inv ?u" "queue_room ?u = queue_room rx" "jobs ?u = jobs rx"
    using q by (simp_all add: upd_slot_def queue_room_def)
  note s = dispatch_head_def Let_def dispatch_eq [OF q]
  show "ring (dispatch_head rx) = (ring rx)(ring_index (next_seq rx) :=
      (ring rx (ring_index (next_seq rx)))\<lparr>in_worker := queue_room rx, filled := False, slot_len := 0\<rparr>)"
    "pending (dispatch_head rx) = pending rx - 1"
    "next_seq (dispatch_head rx) = next_seq rx" "slab (dispatch_head rx) = slab rx"
    "started (dispatch_head rx) = started rx" "jitter_depth (dispatch_head rx) = jitter_depth rx"
    "net_lost_packets (dispatch_head rx) = net_lost_packets rx"
    "queue_full_drops (dispatch_head rx) = queue_full_drops rx + (if queue_room rx then 0 else 1)"
    unfolding s by (simp_all add: upd_slot_def)
  show "jobs (dispatch_head rx) = jobs rx @ (if queue_room rx then [head_job rx] else [])"
    "queue_inv (dispatch_head rx)"
    using enqueue_job_jobs [OF q1(1), of "head_job rx"] q1
    unfolding s head_job_def by (simp_all add: upd_slot_def)
qed

section \<open>Moving the head\<close>

text \<open>
  \<open>advanced rx n rx'\<close>: the head has moved over \<open>n\<close> sequence numbers. The new jobs carry some of
  these numbers, in order, each at most once; every number passed over is a job, a counted
  network loss or a counted queue-full drop.
\<close>

definition advanced :: "receiver \<Rightarrow> nat \<Rightarrow> receiver \<Rightarrow> bool" where
  "advanced rx n rx' \<longleftrightarrow> next_seq rx' = next_seq rx + word_of_nat n
     \<and> (\<exists>ks js. jobs rx' = jobs rx @ js \<and> sorted_wrt (<) ks \<and> (\<forall>k \<in> set ks. k < n)
          \<and> map job_seq js = map (\<lambda>k. next_seq rx + word_of_nat k) ks
          \<and> n + net_lost_packets rx + queue_full_drops rx
              = length js + net_lost_packets rx' + queue_full_drops rx')"

lemma advanced_refl [simp]: "advanced rx 0 rx"
  by (auto simp: advanced_def intro!: exI [of _ "[]"])

lemma advanced_trans:
  assumes "advanced rx n rx1" and "advanced rx1 k rx2"
  shows "advanced rx (n + k) rx2"
proof -
  from assms obtain ks js ks' js' where
    1: "next_seq rx1 = next_seq rx + word_of_nat n" "jobs rx1 = jobs rx @ js" "sorted_wrt (<) ks" "\<forall>k \<in> set ks. k < n"
      "map job_seq js = map (\<lambda>k. next_seq rx + word_of_nat k) ks"
      "n + net_lost_packets rx + queue_full_drops rx = length js + net_lost_packets rx1 + queue_full_drops rx1"
    and 2: "next_seq rx2 = next_seq rx1 + word_of_nat k" "jobs rx2 = jobs rx1 @ js'" "sorted_wrt (<) ks'" "\<forall>i \<in> set ks'. i < k"
      "map job_seq js' = map (\<lambda>k. next_seq rx1 + word_of_nat k) ks'"
      "k + net_lost_packets rx1 + queue_full_drops rx1 = length js' + net_lost_packets rx2 + queue_full_drops rx2"
    unfolding advanced_def by blast
  let ?ks = "ks @ map ((+) n) ks'"
  have "sorted_wrt (<) ?ks" "\<forall>i \<in> set ?ks. i < n + k"
    using 1(3,4) 2(3,4) by (auto simp: sorted_wrt_append sorted_wrt_map)
  moreover have "map job_seq (js @ js') = map (\<lambda>k. next_seq rx + word_of_nat k) ?ks"
    using 1(1,5) 2(5) by (simp add: o_def add.assoc)
  moreover have "jobs rx2 = jobs rx @ (js @ js')" using 1(2) 2(2) by simp
  moreover have "n + k + net_lost_packets rx + queue_full_drops rx
      = length (js @ js') + net_lost_packets rx2 + queue_full_drops rx2"
    using 1(6) 2(6) by simp
  moreover have "next_seq rx2 = next_seq rx + word_of_nat (n + k)" using 1(1) 2(1) by (simp add: add.assoc)
  ultimately show ?thesis unfolding advanced_def by blast
qed

lemma filled_not_next:
  assumes "rx_inv rx" "\<not> head_filled rx" "filled (ring rx i)"
  shows "slot_seq (ring rx i) \<noteq> next_seq rx"
  using assms by (auto simp: rx_inv_def slot_ok_def head_filled_def)

lemma skip_head_inv:
  assumes inv: "rx_inv rx" and nf: "\<not> head_filled rx"
  shows "rx_inv (rx\<lparr>net_lost_packets := net_lost_packets rx + 1, next_seq := next_seq rx + 1\<rparr>)"
    and "advanced rx 1 (rx\<lparr>net_lost_packets := net_lost_packets rx + 1, next_seq := next_seq rx + 1\<rparr>)"
proof -
  show "rx_inv (rx\<lparr>net_lost_packets := net_lost_packets rx + 1, next_seq := next_seq rx + 1\<rparr>)"
    using inv seq_advance [OF filled_not_next [OF inv nf]]
    by (fastforce simp: rx_inv_def slot_ok_def job_ok_def)
  show "advanced rx 1 (rx\<lparr>net_lost_packets := net_lost_packets rx + 1, next_seq := next_seq rx + 1\<rparr>)"
    by (simp add: advanced_def)
qed

lemma dispatch_head_inv:
  assumes inv: "rx_inv rx" and hf: "head_filled rx"
  shows "rx_inv ((dispatch_head rx)\<lparr>next_seq := next_seq rx + 1\<rparr>)"
    and "advanced rx 1 ((dispatch_head rx)\<lparr>next_seq := next_seq rx + 1\<rparr>)"
proof -
  let ?i = "ring_index (next_seq rx)" and ?rx = "(dispatch_head rx)\<lparr>next_seq := next_seq rx + 1\<rparr>"
  have q: "queue_inv rx" using inv by (simp add: rx_inv_def)
  note st = dispatch_head_state [OF q]
  have fi: "filled (ring rx ?i)" and seq: "slot_seq (ring rx ?i) = next_seq rx"
    using hf by (auto simp: head_filled_def)
  then have ok: "slot_ok rx ?i" using inv by (simp add: rx_inv_def)
  have fl: "{i. filled (ring ?rx i)} = {i. filled (ring rx i)} - {?i}"
    by (auto simp: st)
  have slots: "slot_ok ?rx i" if "filled (ring ?rx i)" for i
  proof -
    from that have i: "i \<noteq> ?i" "filled (ring rx i)" by (auto simp: st split: if_splits)
    then have oi: "slot_ok rx i" using inv by (simp add: rx_inv_def)
    then have "slot_seq (ring rx i) \<noteq> next_seq rx" using i(1) by (auto simp: slot_ok_def)
    from seq_advance [OF this] oi i(1) show ?thesis by (auto simp: slot_ok_def st)
  qed
  have fresh: "?i \<notin> job_slab ` set (jobs rx)"
    using inv ok by (auto simp: rx_inv_def job_ok_def slot_ok_def)
  have old: "job_ok ?rx j" if j: "j \<in> set (jobs rx)" for j
  proof -
    have "job_slab j \<noteq> ?i" using j fresh by force
    with inv j show ?thesis by (auto simp: rx_inv_def job_ok_def st)
  qed
  have new: "job_ok ?rx (head_job rx)" if "queue_room rx"
    using ok that by (auto simp: job_ok_def slot_ok_def head_job_def st Let_def)
  have "pending ?rx = card {i. filled (ring ?rx i)}"
    unfolding fl using inv fi rx_inv_finite [OF inv] by (simp add: st rx_inv_def)
  moreover have "distinct (map job_slab (jobs ?rx))"
    using inv fresh by (auto simp: rx_inv_def st head_job_def Let_def)
  ultimately show "rx_inv ?rx"
    using inv slots old new fl fi unfolding rx_inv_def [of ?rx] by (auto simp: st rx_inv_def split: if_splits)
  show "advanced rx 1 ?rx"
    unfolding advanced_def using seq
    by (cases "queue_room rx") (auto simp: st head_job_def Let_def intro: exI [of _ "[0]"] exI [of _ "[]"])
qed

text \<open>\<open>head_moves n\<close>: \<open>n\<close> moves of the head, each over a missing packet or with a dispatch.\<close>

inductive head_moves :: "nat \<Rightarrow> receiver \<Rightarrow> receiver \<Rightarrow> bool" where
  stay: "head_moves 0 rx rx"
| skip: "\<not> head_filled rx \<Longrightarrow>
    head_moves n (rx\<lparr>net_lost_packets := net_lost_packets rx + 1, next_seq := next_seq rx + 1\<rparr>) rx' \<Longrightarrow>
    head_moves (Suc n) rx rx'"
| send: "head_filled rx \<Longrightarrow> head_moves n ((dispatch_head rx)\<lparr>next_seq := next_seq rx + 1\<rparr>) rx' \<Longrightarrow>
    head_moves (Suc n) rx rx'"

lemma head_moves_inv:
  "head_moves n rx rx' \<Longrightarrow> rx_inv rx \<Longrightarrow> rx_inv rx' \<and> advanced rx n rx'
     \<and> jitter_depth rx' = jitter_depth rx \<and> started rx' = started rx"
proof (induction rule: head_moves.induct)
  case (stay rx)
  then show ?case by simp
next
  case (skip rx n rx')
  note sh = skip_head_inv [OF skip.prems skip.hyps(1)]
  from skip.IH [OF sh(1)] advanced_trans [OF sh(2)] show ?case by fastforce
next
  case (send rx n rx')
  note dh = dispatch_head_inv [OF send.prems send.hyps(1)]
  have "queue_inv rx" using send.prems by (simp add: rx_inv_def)
  note st = dispatch_head_state [OF this]
  from send.IH [OF dh(1)] advanced_trans [OF dh(2)] show ?case by (fastforce simp: st)
qed

lemma advance_head_moves:
  assumes "rx_inv rx" and "head_moves n (advance_head rx) rx'"
  shows "head_moves (Suc n) rx rx'"
proof -
  have "queue_inv rx" using assms(1) by (simp add: rx_inv_def)
  note st = dispatch_head_state [OF this]
  show ?thesis
    using assms(2) by (cases "head_filled rx") (auto simp: advance_head_def st Let_def intro: skip send)
qed

lemma advance_head_inv:
  assumes "rx_inv rx"
  shows "rx_inv (advance_head rx)" and "next_seq (advance_head rx) = next_seq rx + 1"
    and "jitter_depth (advance_head rx) = jitter_depth rx"
proof -
  have m: "head_moves (Suc 0) rx (advance_head rx)" using assms stay by (rule advance_head_moves)
  from head_moves_inv [OF m assms] show "rx_inv (advance_head rx)" "jitter_depth (advance_head rx) = jitter_depth rx"
    "next_seq (advance_head rx) = next_seq rx + 1"
    by (auto simp: advanced_def)
qed

text \<open>
  The force-advance loop returns: it passes over just as many numbers as bring the packet into
  the window.
\<close>

lemma force_advance_moves:
  assumes "rx_inv rx" and "unat (seq - next_seq rx) < 32768"
  shows "\<exists>rx'. force_advance seq rx = Some rx'
    \<and> head_moves (unat (seq - next_seq rx) + 1 - jitter_depth rx) rx rx'
    \<and> unat (seq - next_seq rx') < jitter_depth rx"
  using assms
proof (induction "unat (seq - next_seq rx)" arbitrary: rx rule: less_induct)
  case less
  have d: "0 < jitter_depth rx" "jitter_depth rx < 32768"
    using less.prems(1) by (auto simp: rx_inv_def kRingSize_def)
  show ?case
  proof (cases "jitter_depth rx \<le> unat (seq - next_seq rx)")
    case False
    then have "force_advance seq rx = Some rx"
      using depth_test [OF d(2) less.prems(2)] by (simp add: force_advance.simps [of seq rx])
    with False show ?thesis by (simp add: stay)
  next
    case True
    let ?rx = "advance_head rx"
    note ah = advance_head_inv [OF less.prems(1)]
    have step: "force_advance seq rx = force_advance seq ?rx"
      using True depth_test [OF d(2) less.prems(2)] by (simp add: force_advance.simps [of seq rx])
    have "seq \<noteq> next_seq rx" using True d by auto
    from seq_advance [OF this] have un: "unat (seq - next_seq ?rx) = unat (seq - next_seq rx) - 1"
      by (simp add: ah)
    with True d less.prems(2) have "unat (seq - next_seq ?rx) < unat (seq - next_seq rx)"
      "unat (seq - next_seq ?rx) < 32768" by auto
    from less.hyps [OF this(1) ah(1) this(2)] obtain rx' where
      rx': "force_advance seq ?rx = Some rx'" "unat (seq - next_seq rx') < jitter_depth ?rx"
        "head_moves (unat (seq - next_seq ?rx) + 1 - jitter_depth ?rx) ?rx rx'" by blast
    have "Suc (unat (seq - next_seq ?rx) + 1 - jitter_depth ?rx) = unat (seq - next_seq rx) + 1 - jitter_depth rx"
      using un True d by (simp add: ah)
    with advance_head_moves [OF less.prems(1) rx'(3)] rx' step ah show ?thesis by auto
  qed
qed

lemma release_in_order_moves:
  "rx_inv rx \<Longrightarrow> \<not> head_filled (release_in_order rx)
     \<and> (\<exists>n \<le> pending rx. head_moves n rx (release_in_order rx))"
proof (induction rx rule: release_in_order.induct)
  case (1 rx)
  show ?case
  proof (cases "0 < pending rx \<and> head_filled rx")
    case True
    let ?rx = "(dispatch_head rx)\<lparr>next_seq := next_seq rx + 1\<rparr>"
    have q: "queue_inv rx" using "1.prems" by (simp add: rx_inv_def)
    have r: "release_in_order rx = release_in_order ?rx" using True by (simp add: release_in_order.simps [of rx])
    from "1.IH" [OF True] dispatch_head_inv(1) [OF "1.prems"] True obtain n where
      n: "\<not> head_filled (release_in_order ?rx)" "n \<le> pending ?rx" "head_moves n ?rx (release_in_order ?rx)" by blast
    have "head_moves (Suc n) rx (release_in_order ?rx)" using True n(3) by (blast intro: send)
    moreover have "Suc n \<le> pending rx" using n(2) True by (auto simp: dispatch_head_state [OF q])
    ultimately show ?thesis unfolding r using n by blast
  next
    case False
    have "\<not> head_filled rx"
    proof
      assume h: "head_filled rx"
      then have "{i. filled (ring rx i)} \<noteq> {}" by (auto simp: head_filled_def)
      then have "0 < pending rx"
        using "1.prems" rx_inv_finite [OF "1.prems"] by (simp add: rx_inv_def card_gt_0_iff)
      with h False show False by simp
    qed
    with False show ?thesis by (auto simp: release_in_order.simps [of rx] intro: stay)
  qed
qed

section \<open>RTP headers\<close>

lemma parse_rtp_bounds:
  assumes "parse_rtp d = Some (hdr, elen, seq)"
  shows "12 \<le> hdr" and "hdr \<le> elen" and "elen \<le> length d" and "elen \<le> kSlotBytes"
  using assms by (auto simp: parse_rtp_def Let_def split: if_splits)

section \<open>Datagrams\<close>

text \<open>The slot of a packet of the window is free or holds that very packet.\<close>

lemma slot_of_window:
  assumes inv: "rx_inv rx" and w: "unat (seq - next_seq rx) < jitter_depth rx"
    and f: "filled (ring rx (ring_index seq))"
  shows "slot_seq (ring rx (ring_index seq)) = seq"
proof -
  let ?t = "slot_seq (ring rx (ring_index seq))"
  have "slot_ok rx (ring_index seq)" using inv f by (simp add: rx_inv_def)
  then have "unat (?t - next_seq rx) < kRingSize" "ring_index ?t = ring_index seq" and "jitter_depth rx \<le> kRingSize"
    using inv by (auto simp: slot_ok_def rx_inv_def)
  with w show ?thesis using ring_index_inj [of ?t "next_seq rx" seq] by simp
qed

definition stored :: "byte list \<Rightarrow> nat \<Rightarrow> nat \<Rightarrow> u16 \<Rightarrow> receiver \<Rightarrow> receiver" where
  "stored d hdr elen seq rx =
     (let i = ring_index seq
      in (upd_slot i (\<lambda>s. s\<lparr>slot_seq := seq, slot_hdr_len := word_of_nat hdr, slot_len := elen, filled := True\<rparr>)
            (rx\<lparr>slab := (\<lambda>a. if i * kSlotBytes \<le> a \<and> a < i * kSlotBytes + elen
                            then d ! (a - i * kSlotBytes) else slab rx a)\<rparr>))
           \<lparr>pending := pending rx + 1\<rparr>)"

lemma store_packet_cases:
  assumes inv: "rx_inv rx" and w: "unat (seq - next_seq rx) < jitter_depth rx"
  shows "store_packet d hdr elen seq rx =
    (if filled (ring rx (ring_index seq)) then rx
     else if in_worker (ring rx (ring_index seq)) then rx\<lparr>slot_busy_drops := slot_busy_drops rx + 1\<rparr>
     else release_in_order (stored d hdr elen seq rx))"
  using slot_of_window [OF inv w] by (simp add: store_packet_def stored_def upd_slot_def Let_def)

lemma stored_inv:
  assumes inv: "rx_inv rx" and w: "unat (seq - next_seq rx) < jitter_depth rx"
    and free: "\<not> filled (ring rx (ring_index seq))" "\<not> in_worker (ring rx (ring_index seq))"
    and hdr: "hdr \<le> elen" "elen \<le> kSlotBytes" and st: "started rx"
  shows "rx_inv (stored d hdr elen seq rx)" and "advanced rx 0 (stored d hdr elen seq rx)"
proof -
  let ?rx = "stored d hdr elen seq rx"
  note s = stored_def upd_slot_def Let_def
  have fl: "{i. filled (ring ?rx i)} = insert (ring_index seq) {i. filled (ring rx i)}"
    by (auto simp: s)
  have h: "unat (word_of_nat hdr :: u16) = hdr"
    using hdr by (simp add: unat_of_nat kSlotBytes_def)
  have "pending ?rx = card {i. filled (ring ?rx i)}"
    unfolding fl using inv free rx_inv_finite [OF inv] by (simp add: rx_inv_def s)
  moreover have "slot_ok ?rx i" if "filled (ring ?rx i)" for i
  proof (cases "i = ring_index seq")
    case True
    with w free hdr h show ?thesis by (simp add: slot_ok_def s)
  next
    case False
    with that inv show ?thesis by (simp add: slot_ok_def rx_inv_def s)
  qed
  moreover have "job_ok ?rx j" if "j \<in> set (jobs rx)" for j
    using inv that by (auto simp: rx_inv_def job_ok_def s)
  ultimately show "rx_inv ?rx"
    using inv st unfolding rx_inv_def [of ?rx] by (auto simp: rx_inv_def s)
  show "advanced rx 0 ?rx"
    unfolding advanced_def by (auto simp: s intro!: exI [of _ "[]"])
qed

text \<open>
  What one datagram does, as a sequence of simple steps: the first packet sets the head; the head
  moves until the packet is in the window; the packet is stored, or dropped as a duplicate or
  because its slab is busy; the head moves over the packets that are now in order.
\<close>

definition first_packet :: "u16 \<Rightarrow> receiver \<Rightarrow> receiver" where
  "first_packet seq rx = (if started rx then rx else rx\<lparr>started := True, next_seq := seq\<rparr>)"

lemma first_packet_inv: "rx_inv rx \<Longrightarrow> rx_inv (first_packet seq rx) \<and> started (first_packet seq rx)"
  by (auto simp: first_packet_def rx_inv_def job_ok_def)

lemma handle_dgram_first:
  "parse_rtp d = Some (hdr, elen, seq) \<Longrightarrow> handle_dgram d rx =
     (if seq_diff seq (next_seq (first_packet seq rx)) < 0 then Some (first_packet seq rx)
      else do { rx \<leftarrow> force_advance seq (first_packet seq rx); Some (store_packet d hdr elen seq rx) })"
  by (cases "started rx") (simp_all add: handle_dgram_def first_packet_def Let_def)

lemma handle_dgram_steps:
  assumes inv: "rx_inv rx" and p: "parse_rtp d = Some (hdr, elen, seq)"
    and early: "0 \<le> seq_diff seq (next_seq (first_packet seq rx))"
  obtains rx1 rx2 rx3 n k where "rx1 = first_packet seq rx"
    "head_moves n rx1 rx2" "n < 32768" "unat (seq - next_seq rx2) < jitter_depth rx2"
    "rx_inv rx1" "rx_inv rx2" "rx_inv rx3" "started rx2"
    "(filled (ring rx2 (ring_index seq)) \<and> rx3 = rx2
      \<or> \<not> filled (ring rx2 (ring_index seq)) \<and> in_worker (ring rx2 (ring_index seq))
          \<and> rx3 = rx2\<lparr>slot_busy_drops := slot_busy_drops rx2 + 1\<rparr>
      \<or> \<not> filled (ring rx2 (ring_index seq)) \<and> \<not> in_worker (ring rx2 (ring_index seq))
          \<and> rx3 = stored d hdr elen seq rx2)"
    "head_moves k rx3 (the (handle_dgram d rx))" "k \<le> kRingSize" "handle_dgram d rx \<noteq> None"
proof -
  define rx1 where "rx1 = first_packet seq rx"
  have inv1: "rx_inv rx1" "started rx1" using first_packet_inv [OF inv] by (auto simp: rx1_def)
  have lt: "unat (seq - next_seq rx1) < 32768" using early by (simp add: rx1_def seq_diff_nonneg)
  from force_advance_moves [OF inv1(1) lt] obtain rx2 where
    fa: "force_advance seq rx1 = Some rx2" "unat (seq - next_seq rx2) < jitter_depth rx1"
      "head_moves (unat (seq - next_seq rx1) + 1 - jitter_depth rx1) rx1 rx2" by blast
  note hm = head_moves_inv [OF fa(3) inv1(1)]
  have inv2: "rx_inv rx2" "started rx2" and w: "unat (seq - next_seq rx2) < jitter_depth rx2"
    using hm inv1 fa(2) by auto
  have n: "unat (seq - next_seq rx1) + 1 - jitter_depth rx1 < 32768"
    using lt inv1(1) by (auto simp: rx_inv_def)
  have hd: "handle_dgram d rx = Some (store_packet d hdr elen seq rx2)"
    using early fa(1) by (simp add: handle_dgram_first [OF p] rx1_def)
  note b = parse_rtp_bounds [OF p]
  show thesis
  proof (cases "filled (ring rx2 (ring_index seq)) \<or> in_worker (ring rx2 (ring_index seq))")
    case True
    let ?rx3 = "store_packet d hdr elen seq rx2"
    have "rx_inv ?rx3"
      using inv2(1) True by (auto simp: store_packet_cases [OF inv2(1) w] rx_inv_def slot_ok_def job_ok_def)
    then show thesis
    proof (rule that [OF rx1_def fa(3) n w inv1(1) inv2(1) _ inv2(2)])
      show "head_moves 0 ?rx3 (the (handle_dgram d rx))" by (simp add: hd stay)
    qed (use True hd in \<open>auto simp: store_packet_cases [OF inv2(1) w]\<close>)
  next
    case False
    then have free: "\<not> filled (ring rx2 (ring_index seq))" "\<not> in_worker (ring rx2 (ring_index seq))" by auto
    let ?rx3 = "stored d hdr elen seq rx2"
    note si = stored_inv [OF inv2(1) w free b(2,4) inv2(2), of d]
    from release_in_order_moves [OF si(1)] obtain k where
      k: "k \<le> pending ?rx3" "head_moves k ?rx3 (release_in_order ?rx3)" by blast
    have "pending ?rx3 \<le> kRingSize"
      using si(1) card_mono [of "{..<kRingSize}" "{i. filled (ring ?rx3 i)}"]
      by (auto simp: rx_inv_def slot_ok_def)
    with k(1) have kk: "k \<le> kRingSize" by simp
    show thesis
    proof (rule that [OF rx1_def fa(3) n w inv1(1) inv2(1) si(1) inv2(2) _ _ kk])
      show "head_moves k ?rx3 (the (handle_dgram d rx))"
        using k(2) free by (simp add: hd store_packet_cases [OF inv2(1) w])
    qed (use free hd in auto)
  qed
qed

lemma handle_dgram_late:
  assumes "parse_rtp d = Some (hdr, elen, seq)" and "seq_diff seq (next_seq (first_packet seq rx)) < 0"
  shows "handle_dgram d rx = Some rx"
proof (cases "started rx")
  case True
  with assms show ?thesis by (simp add: handle_dgram_first first_packet_def)
next
  case False
  with assms(2) show ?thesis by (simp add: first_packet_def seq_diff_def)
qed

lemma handle_dgram_inv:
  assumes inv: "rx_inv rx"
  shows "\<exists>rx'. handle_dgram d rx = Some rx' \<and> rx_inv rx'"
proof (cases "parse_rtp d")
  case None
  with inv show ?thesis by (simp add: handle_dgram_def)
next
  case (Some r)
  obtain hdr elen seq where p: "parse_rtp d = Some (hdr, elen, seq)" using Some by (cases r) auto
  show ?thesis
  proof (cases "seq_diff seq (next_seq (first_packet seq rx)) < 0")
    case True
    with handle_dgram_late [OF p] inv show ?thesis by simp
  next
    case False
    then have "0 \<le> seq_diff seq (next_seq (first_packet seq rx))" by simp
    from handle_dgram_steps [OF inv p this] head_moves_inv show ?thesis by (metis option.collapse)
  qed
qed

text \<open>A property of the state that the simple steps keep, a datagram keeps.\<close>

lemma handle_dgram_preserves:
  assumes inv: "rx_inv rx" and h: "handle_dgram d rx = Some rx'" and P: "P rx"
    and first: "\<And>seq. P rx \<Longrightarrow> P (first_packet seq rx)"
    and moves: "\<And>n a b. head_moves n a b \<Longrightarrow> rx_inv a \<Longrightarrow> P a \<Longrightarrow> P b"
    and busy: "\<And>a. P a \<Longrightarrow> P (a\<lparr>slot_busy_drops := slot_busy_drops a + 1\<rparr>)"
    and store: "\<And>a hdr elen seq. rx_inv a \<Longrightarrow> parse_rtp d = Some (hdr, elen, seq) \<Longrightarrow>
      \<not> filled (ring a (ring_index seq)) \<Longrightarrow> \<not> in_worker (ring a (ring_index seq)) \<Longrightarrow> P a \<Longrightarrow> P (stored d hdr elen seq a)"
  shows "P rx'"
proof (cases "parse_rtp d")
  case None
  with h P show ?thesis by (simp add: handle_dgram_def)
next
  case (Some r)
  obtain hdr elen seq where p: "parse_rtp d = Some (hdr, elen, seq)" using Some by (cases r) auto
  show ?thesis
  proof (cases "seq_diff seq (next_seq (first_packet seq rx)) < 0")
    case True
    then have "handle_dgram d rx = Some (first_packet seq rx)" by (simp add: handle_dgram_first [OF p])
    with h first [OF P, of seq] show ?thesis by simp
  next
    case False
    then have e: "0 \<le> seq_diff seq (next_seq (first_packet seq rx))" by simp
    obtain rx1 rx2 rx3 n k where s: "rx1 = first_packet seq rx" "head_moves n rx1 rx2" "rx_inv rx1" "rx_inv rx3"
      "rx_inv rx2"
      "filled (ring rx2 (ring_index seq)) \<and> rx3 = rx2
        \<or> \<not> filled (ring rx2 (ring_index seq)) \<and> in_worker (ring rx2 (ring_index seq))
            \<and> rx3 = rx2\<lparr>slot_busy_drops := slot_busy_drops rx2 + 1\<rparr>
        \<or> \<not> filled (ring rx2 (ring_index seq)) \<and> \<not> in_worker (ring rx2 (ring_index seq))
            \<and> rx3 = stored d hdr elen seq rx2"
      "head_moves k rx3 (the (handle_dgram d rx))"
      using handle_dgram_steps [OF inv p e] by metis
    have "P rx2" using moves [OF s(2,3)] first P s(1) by simp
    with s(6) busy store [OF s(5) p] have "P rx3" by blast
    from moves [OF s(7,4) this] h show ?thesis by simp
  qed
qed

section \<open>Busy slabs\<close>

text \<open>Slabs in the worker's hands stay there and keep their bytes.\<close>

definition busy_kept :: "receiver \<Rightarrow> receiver \<Rightarrow> bool" where
  "busy_kept rx rx' \<longleftrightarrow> (\<forall>i. in_worker (ring rx i) \<longrightarrow> in_worker (ring rx' i)
     \<and> mem_read (slab rx') (i * kSlotBytes) kSlotBytes = mem_read (slab rx) (i * kSlotBytes) kSlotBytes)"

lemma busy_kept_refl [simp]: "busy_kept rx rx"
  by (simp add: busy_kept_def)

lemma busy_kept_trans: "busy_kept rx rx1 \<Longrightarrow> busy_kept rx1 rx2 \<Longrightarrow> busy_kept rx rx2"
  by (simp add: busy_kept_def)

lemma head_moves_busy: "head_moves n rx rx' \<Longrightarrow> rx_inv rx \<Longrightarrow> busy_kept rx rx' \<and> slab rx' = slab rx"
proof (induction rule: head_moves.induct)
  case (stay rx)
  then show ?case by simp
next
  case (skip rx n rx')
  from skip.IH [OF skip_head_inv(1) [OF skip.prems skip.hyps(1)]] show ?case by (simp add: busy_kept_def)
next
  case (send rx n rx')
  have q: "queue_inv rx" using send.prems by (simp add: rx_inv_def)
  have "\<not> in_worker (ring rx (ring_index (next_seq rx)))"
    using send.prems send.hyps(1) by (auto simp: rx_inv_def slot_ok_def head_filled_def)
  then have "busy_kept rx ((dispatch_head rx)\<lparr>next_seq := next_seq rx + 1\<rparr>)"
    by (auto simp: busy_kept_def dispatch_head_state [OF q])
  with send.IH [OF dispatch_head_inv(1) [OF send.prems send.hyps(1)]] show ?case
    by (auto simp: dispatch_head_state [OF q] intro: busy_kept_trans)
qed

text \<open>Writing one slot leaves the bytes of the others alone.\<close>

lemma slot_bytes_disjoint:
  fixes i j a b n :: nat
  assumes "i \<noteq> j" "a < n" "b < n"
  shows "i * n + a \<noteq> j * n + b"
proof
  assume "i * n + a = j * n + b"
  then have "(i * n + a) div n = (j * n + b) div n" by simp
  with assms show False by simp
qed

lemma stored_bytes:
  assumes "elen \<le> kSlotBytes"
  shows "i \<noteq> ring_index seq \<Longrightarrow>
      mem_read (slab (stored d hdr elen seq rx)) (i * kSlotBytes) kSlotBytes = mem_read (slab rx) (i * kSlotBytes) kSlotBytes"
    and "elen \<le> length d \<Longrightarrow>
      mem_read (slab (stored d hdr elen seq rx)) (ring_index seq * kSlotBytes) elen = take elen d"
proof -
  assume i: "i \<noteq> ring_index seq"
  show "mem_read (slab (stored d hdr elen seq rx)) (i * kSlotBytes) kSlotBytes = mem_read (slab rx) (i * kSlotBytes) kSlotBytes"
  proof (rule mem_read_cong)
    fix a assume a: "a < kSlotBytes"
    have "\<not> (ring_index seq * kSlotBytes \<le> i * kSlotBytes + a \<and> i * kSlotBytes + a < ring_index seq * kSlotBytes + elen)"
    proof
      assume "ring_index seq * kSlotBytes \<le> i * kSlotBytes + a \<and> i * kSlotBytes + a < ring_index seq * kSlotBytes + elen"
      then obtain b where "i * kSlotBytes + a = ring_index seq * kSlotBytes + b" "b < elen"
        by (metis le_Suc_ex nat_add_left_cancel_less)
      with slot_bytes_disjoint [OF i a, of b] assms show False by simp
    qed
    then show "slab (stored d hdr elen seq rx) (i * kSlotBytes + a) = slab rx (i * kSlotBytes + a)"
      by (auto simp: stored_def upd_slot_def Let_def)
  qed
next
  assume "elen \<le> length d"
  then show "mem_read (slab (stored d hdr elen seq rx)) (ring_index seq * kSlotBytes) elen = take elen d"
    by (intro nth_equalityI) (auto simp: stored_def upd_slot_def Let_def)
qed

lemma stored_busy:
  assumes "\<not> in_worker (ring rx (ring_index seq))" "elen \<le> kSlotBytes"
  shows "busy_kept rx (stored d hdr elen seq rx)"
proof -
  have "i \<noteq> ring_index seq" if "in_worker (ring rx i)" for i using that assms by auto
  with stored_bytes(1) [OF assms(2)] show ?thesis
    by (auto simp: busy_kept_def) (auto simp: stored_def upd_slot_def Let_def)
qed

lemma handle_dgram_busy:
  assumes inv: "rx_inv rx" and h: "handle_dgram d rx = Some rx'"
  shows "busy_kept rx rx'"
  using inv h busy_kept_refl
proof (rule handle_dgram_preserves)
  show "head_moves n a b \<Longrightarrow> rx_inv a \<Longrightarrow> busy_kept rx a \<Longrightarrow> busy_kept rx b" for n a b
    using head_moves_busy busy_kept_trans by blast
next
  fix a hdr elen seq
  assume "parse_rtp d = Some (hdr, elen, seq)" "\<not> in_worker (ring a (ring_index seq))" "busy_kept rx a"
  with stored_busy [OF _ parse_rtp_bounds(4)] busy_kept_trans show "busy_kept rx (stored d hdr elen seq a)" by blast
qed (auto simp: busy_kept_def first_packet_def)

section \<open>Genuine packets\<close>

text \<open>
  Slab \<open>i\<close> holds the datagram \<open>d\<close> as it came in. In a genuine state every filled slot and every
  queued job is such a datagram.
\<close>

definition holds_dgram :: "memory \<Rightarrow> nat \<Rightarrow> nat \<Rightarrow> u16 \<Rightarrow> u16 \<Rightarrow> byte list \<Rightarrow> bool" where
  "holds_dgram m i len seq hdr d \<longleftrightarrow> parse_rtp d = Some (unat hdr, len, seq)
     \<and> mem_read m (i * kSlotBytes) len = take len d"

definition genuine :: "byte list set \<Rightarrow> receiver \<Rightarrow> bool" where
  "genuine R rx \<longleftrightarrow>
     (\<forall>i. filled (ring rx i) \<longrightarrow> (\<exists>d \<in> R. holds_dgram (slab rx) i (slot_len (ring rx i)) (slot_seq (ring rx i))
        (slot_hdr_len (ring rx i)) d))
     \<and> (\<forall>j \<in> set (jobs rx). \<exists>d \<in> R. holds_dgram (slab rx) (job_slab j) (job_len j) (job_seq j) (job_hdr_len j) d)"

lemma genuine_cong:
  "genuine R rx \<Longrightarrow> ring rx' = ring rx \<Longrightarrow> slab rx' = slab rx \<Longrightarrow> set (jobs rx') \<subseteq> set (jobs rx) \<Longrightarrow> genuine R rx'"
  unfolding genuine_def by auto

lemma genuine_mono: "genuine R rx \<Longrightarrow> R \<subseteq> S \<Longrightarrow> genuine S rx"
  unfolding genuine_def by blast

lemma head_moves_genuine: "head_moves n rx rx' \<Longrightarrow> rx_inv rx \<Longrightarrow> genuine R rx \<Longrightarrow> genuine R rx'"
proof (induction rule: head_moves.induct)
  case (stay rx)
  then show ?case by simp
next
  case (skip rx n rx')
  from skip.IH [OF skip_head_inv(1) [OF skip.prems(1) skip.hyps(1)]] skip.prems(2) show ?case
    by (simp add: genuine_def)
next
  case (send rx n rx')
  have q: "queue_inv rx" using send.prems by (simp add: rx_inv_def)
  have "genuine R ((dispatch_head rx)\<lparr>next_seq := next_seq rx + 1\<rparr>)"
    using send.prems(2) send.hyps(1)
    by (auto simp: genuine_def dispatch_head_state [OF q] head_job_def head_filled_def Let_def split: if_splits) metis
  with send.IH [OF dispatch_head_inv(1) [OF send.prems(1) send.hyps(1)]] show ?case by simp
qed

lemma holds_dgram_stored:
  assumes "i \<noteq> ring_index seq" "elen \<le> kSlotBytes" "len \<le> kSlotBytes"
  shows "holds_dgram (slab (stored d hdr elen seq rx)) i len s h = holds_dgram (slab rx) i len s h"
proof -
  have "take len (mem_read m a kSlotBytes) = mem_read m a len" for m a
    using assms(3) by (intro nth_equalityI) auto
  then have "mem_read (slab (stored d hdr elen seq rx)) (i * kSlotBytes) len = mem_read (slab rx) (i * kSlotBytes) len"
    using stored_bytes(1) [OF assms(2,1)] by metis
  then show ?thesis by (intro ext) (simp add: holds_dgram_def)
qed

lemma stored_genuine:
  assumes inv: "rx_inv rx" and g: "genuine R rx" and p: "parse_rtp d = Some (hdr, elen, seq)"
    and free: "\<not> filled (ring rx (ring_index seq))" "\<not> in_worker (ring rx (ring_index seq))"
  shows "genuine (insert d R) (stored d hdr elen seq rx)"
proof -
  let ?rx = "stored d hdr elen seq rx" and ?i = "ring_index seq"
  note b = parse_rtp_bounds [OF p]
  note s = stored_def upd_slot_def Let_def
  have h: "unat (word_of_nat hdr :: u16) = hdr"
    using b(2,4) by (simp add: unat_of_nat kSlotBytes_def)
  have "holds_dgram (slab ?rx) ?i elen seq (word_of_nat hdr) d"
    using p h stored_bytes(2) [OF b(4,3)] by (simp add: holds_dgram_def)
  then have here: "\<exists>d \<in> insert d R. holds_dgram (slab ?rx) ?i elen seq (word_of_nat hdr) d" by blast
  have "\<exists>d \<in> insert d R. holds_dgram (slab ?rx) i (slot_len (ring ?rx i)) (slot_seq (ring ?rx i))
      (slot_hdr_len (ring ?rx i)) d" if "filled (ring ?rx i)" for i
  proof (cases "i = ?i")
    case True
    with here show ?thesis by (simp add: s)
  next
    case False
    then have r: "ring ?rx i = ring rx i" by (simp add: s)
    with that inv have "slot_len (ring rx i) \<le> kSlotBytes" by (simp add: rx_inv_def slot_ok_def)
    from holds_dgram_stored [OF False b(4) this] r that g show ?thesis by (simp add: genuine_def)
  qed
  moreover have "\<exists>d \<in> insert d R. holds_dgram (slab ?rx) (job_slab j) (job_len j) (job_seq j) (job_hdr_len j) d"
    if j: "j \<in> set (jobs ?rx)" for j
  proof -
    have j': "j \<in> set (jobs rx)" using j by (simp add: s)
    with inv free have "job_slab j \<noteq> ?i" "job_len j \<le> kSlotBytes" by (auto simp: rx_inv_def job_ok_def)
    from holds_dgram_stored [OF this(1) b(4) this(2)] g j' show ?thesis by (simp add: genuine_def)
  qed
  ultimately show ?thesis by (simp add: genuine_def)
qed

lemma handle_dgram_genuine:
  assumes inv: "rx_inv rx" and g: "genuine R rx" and h: "handle_dgram d rx = Some rx'"
  shows "genuine (insert d R) rx'"
  using inv h
proof (rule handle_dgram_preserves)
  show "genuine (insert d R) rx" using g by (auto intro: genuine_mono)
  show "head_moves n a b \<Longrightarrow> rx_inv a \<Longrightarrow> genuine (insert d R) a \<Longrightarrow> genuine (insert d R) b" for n a b
    by (rule head_moves_genuine)
qed (use stored_genuine [of _ "insert d R" d] in \<open>auto simp: genuine_def first_packet_def\<close>)

section \<open>What the receive thread guarantees\<close>

lemma recv_dgram_cases:
  "recv_dgram d rx = Some rx \<or> recv_dgram d rx = handle_dgram d rx"
  by (simp add: recv_dgram_def)

lemma recv_dgram_inv: "rx_inv rx \<Longrightarrow> \<exists>rx'. recv_dgram d rx = Some rx' \<and> rx_inv rx' \<and> busy_kept rx rx'"
  using recv_dgram_cases [of d rx] handle_dgram_inv [of rx d] handle_dgram_busy [of rx d] by fastforce

lemma jobs_start [simp]: "jobs (receiver_start jd) = []" "queue_inv (receiver_start jd)"
  by (simp_all add: jobs_def queue_inv_def receiver_start_def kJobQueueSize_def kRingSize_def)

lemma receiver_start_inv: "0 < jd \<Longrightarrow> jd \<le> kRingSize \<Longrightarrow> rx_inv (receiver_start jd)"
  using jobs_start [of jd] by (simp add: rx_inv_def) (simp add: receiver_start_def slot_empty_def)

text \<open>A first datagram: version 2, no extension, sequence number 0, a body packet with two bytes.\<close>

definition sample_dgram :: "byte list" where
  "sample_dgram = [0x80, 0xE0, 0, 0, 0, 0, 0, 1, 0, 0, 0, 2,
     0, 0, 0, 0, 0, 0, 0, 0, 0xDE, 0xAD]"

lemma parse_sample_dgram: "parse_rtp sample_dgram = Some (12, 22, 0)"
  by code_simp

lemma handle_dgram_advanced:
  assumes inv: "rx_inv rx" and p: "parse_rtp d = Some (hdr, elen, seq)"
  shows "\<exists>rx' n. handle_dgram d rx = Some rx' \<and> rx_inv rx' \<and> started rx' \<and> n < 65536
    \<and> advanced (first_packet seq rx) n rx'"
proof (cases "seq_diff seq (next_seq (first_packet seq rx)) < 0")
  case True
  then have "handle_dgram d rx = Some (first_packet seq rx)" by (simp add: handle_dgram_first [OF p])
  with first_packet_inv [OF inv] show ?thesis by (auto intro!: exI [of _ 0])
next
  case False
  then have e: "0 \<le> seq_diff seq (next_seq (first_packet seq rx))" by simp
  obtain rx1 rx2 rx3 n k where s: "rx1 = first_packet seq rx" "head_moves n rx1 rx2" "n < 32768"
    "unat (seq - next_seq rx2) < jitter_depth rx2" "rx_inv rx1" "rx_inv rx2" "rx_inv rx3" "started rx2"
    "filled (ring rx2 (ring_index seq)) \<and> rx3 = rx2
      \<or> \<not> filled (ring rx2 (ring_index seq)) \<and> in_worker (ring rx2 (ring_index seq))
          \<and> rx3 = rx2\<lparr>slot_busy_drops := slot_busy_drops rx2 + 1\<rparr>
      \<or> \<not> filled (ring rx2 (ring_index seq)) \<and> \<not> in_worker (ring rx2 (ring_index seq))
          \<and> rx3 = stored d hdr elen seq rx2"
    "head_moves k rx3 (the (handle_dgram d rx))" "k \<le> kRingSize" "handle_dgram d rx \<noteq> None"
    by (rule handle_dgram_steps [OF inv p e])
  have "advanced rx2 0 rx3" and "started rx3"
    using s(8,9) stored_inv(2) [OF s(6,4) _ _ parse_rtp_bounds(2,4) [OF p] s(8)]
    by (auto simp: advanced_def stored_def upd_slot_def Let_def)
  from advanced_trans [OF advanced_trans [OF _ this(1)]] this(2) head_moves_inv [OF s(2,5)] head_moves_inv [OF s(10,7)]
  have "advanced rx1 (n + k) (the (handle_dgram d rx))" "rx_inv (the (handle_dgram d rx))"
    "started (the (handle_dgram d rx))" by auto
  moreover have "n + k < 65536" using s(3,11) by (simp add: kRingSize_def)
  ultimately show ?thesis using s(1,12) by auto
qed

lemma recv_dgram_advanced:
  assumes inv: "rx_inv rx" and r: "recv_dgram d rx = Some rx'"
  shows "\<exists>seq n. (started rx \<and> started rx' \<and> advanced rx n rx' \<or> \<not> started rx \<and> rx' = rx
    \<or> \<not> started rx \<and> started rx' \<and> advanced (first_packet seq rx) n rx')"
proof (cases "length d < 12 \<or> parse_rtp d = None")
  case True
  with r have "rx' = rx" by (auto simp: recv_dgram_def handle_dgram_def split: if_splits)
  then show ?thesis using advanced_refl by blast
next
  case False
  then obtain hdr elen seq where p: "parse_rtp d = Some (hdr, elen, seq)" by auto
  have h: "handle_dgram d rx = Some rx'" using r False by (simp add: recv_dgram_def)
  from handle_dgram_advanced [OF inv p] h obtain n where "advanced (first_packet seq rx) n rx'" "started rx'" by auto
  then show ?thesis by (cases "started rx") (auto simp: first_packet_def)
qed

text \<open>
  C13: packets leave the receive thread in sequence order, whatever \<open>recv\<close> delivers. From a
  state of the invariant with the head set, the head moves over \<open>n\<close> sequence numbers. The jobs appended to the
  queue carry strictly increasing numbers among these, each at most once, and every number
  passed over is accounted for once: as a job, as a network loss or as a queue-full drop.
\<close>

theorem receive_in_order:
  assumes "rx_inv rx" and "started rx"
  shows "\<exists>rx' n. recv_loop rs rx = Some rx' \<and> rx_inv rx' \<and> advanced rx n rx'"
  using assms
proof (induction rs rx rule: recv_loop.induct)
  case (4 d rs rx)
  from recv_dgram_inv [OF "4.prems"(1)] obtain rx1 where 1: "recv_dgram d rx = Some rx1" "rx_inv rx1" by blast
  from recv_dgram_advanced [OF "4.prems"(1) 1(1)] "4.prems"(2) obtain n where n: "advanced rx n rx1" "started rx1" by blast
  from "4.IH" [OF 1(1,2) n(2)] obtain rx2 k where "recv_loop rs rx1 = Some rx2" "rx_inv rx2" "advanced rx1 k rx2" by blast
  with 1(1) advanced_trans [OF n(1)] show ?case by fastforce
qed (auto intro: exI [of _ 0])

theorem receive_in_order_witness:
  "\<exists>rx' n. recv_loop [Dgram sample_dgram, Recv_EINTR, Dgram sample_dgram] (first_packet 65535 (receiver_start 64)) = Some rx'
     \<and> rx_inv rx' \<and> advanced (first_packet 65535 (receiver_start 64)) n rx'"
  using first_packet_inv [OF receiver_start_inv, of 64 65535]
  by (intro receive_in_order) (simp_all add: kRingSize_def)

text \<open>
  C14: the receive loop always returns for jitter depths up to the ring size, whatever \<open>recv\<close>
  delivers. Along the way it keeps the invariant, and a slab that the worker holds stays marked and keeps its bytes.
\<close>

theorem recv_loop_total:
  assumes "rx_inv rx"
  shows "\<exists>rx'. recv_loop rs rx = Some rx' \<and> rx_inv rx' \<and> busy_kept rx rx'"
  using assms
proof (induction rs rx rule: recv_loop.induct)
  case (4 d rs rx)
  from recv_dgram_inv [OF "4.prems"] obtain rx1 where
    1: "recv_dgram d rx = Some rx1" "rx_inv rx1" "busy_kept rx rx1" by blast
  from "4.IH" [OF 1(1,2)] obtain rx2 where "recv_loop rs rx1 = Some rx2" "rx_inv rx2" "busy_kept rx1 rx2" by blast
  with 1 busy_kept_trans show ?case by fastforce
qed simp_all

theorem recv_loop_total_witness:
  "\<exists>rx'. recv_loop [Recv_EINTR, Dgram sample_dgram, Dgram [1, 2], Recv_Failed] (receiver_start kRingSize) = Some rx'
     \<and> rx_inv rx' \<and> busy_kept (receiver_start kRingSize) rx'"
  by (rule recv_loop_total [OF receiver_start_inv]) (simp_all add: kRingSize_def)

text \<open>
  C39: with a jitter depth of 32768, which \<open>set_jitter_depth\<close> accepts, the cast to
  \<open>int16_t\<close> gives the smallest value and the force-advance loop of \<open>handle_dgram\<close> never ends, for every packet that is not late.
\<close>

theorem depth_32768_never_returns:
  assumes "jitter_depth rx = 32768"
  shows "force_advance seq rx = None"
proof (rule ccontr)
  assume "force_advance seq rx \<noteq> None"
  then obtain r where ret: "force_advance seq rx = Some r" by blast
  have "jitter_depth rx \<noteq> 32768"
  proof (rule force_advance.raw_induct [where P = "\<lambda>s x y. jitter_depth x \<noteq> 32768", OF _ ret], rule notI)
    fix f s x y
    assume IH: "\<And>s x y. f s x = Some y \<Longrightarrow> jitter_depth x \<noteq> 32768"
      and body: "(if depth16 x \<le> seq_diff s (next_seq x) then f s (advance_head x) else Some x) = Some y"
      and d: "jitter_depth x = 32768"
    have "depth16 x = - 32768" using d unfolding depth16_def sint_u16 by simp
    moreover have "- 32768 \<le> seq_diff s (next_seq x)"
      using sint_ge [of "s - next_seq x"] by (simp add: seq_diff_def)
    ultimately have "f s (advance_head x) = Some y" using body by simp
    moreover have "jitter_depth (advance_head x) = jitter_depth x"
      by (auto simp: advance_head_def dispatch_head_def dispatch_def enqueue_job_def upd_slot_def Let_def)
    ultimately show False using IH d by metis
  qed
  with assms show False by simp
qed

theorem depth_32768_never_returns_witness:
  "jitter_depth (receiver_start 32768) = 32768 \<and> force_advance 7 (receiver_start 32768) = None"
  using depth_32768_never_returns [of "receiver_start 32768" 7] by (simp add: receiver_start_def)

text \<open>
  A packet that arrives in order is handed over at once. If it carries the next number, its slot is
  free and the queue has room, then \<open>handle_dgram\<close> appends its job first, and the
  slab of the job holds the bytes of the datagram.
\<close>

theorem in_order_packet_dispatched:
  assumes inv: "rx_inv rx" and p: "parse_rtp d = Some (hdr, elen, seq)" and nxt: "seq = next_seq (first_packet seq rx)"
    and free: "\<not> filled (ring rx (ring_index seq))" "\<not> in_worker (ring rx (ring_index seq))" and room: "queue_room rx"
  shows "\<exists>rx' js. handle_dgram d rx = Some rx'
    \<and> jobs rx' = jobs rx @ \<lparr>job_slab = ring_index seq, job_len = elen, job_seq = seq, job_hdr_len = word_of_nat hdr\<rparr> # js
    \<and> mem_read (slab rx') (ring_index seq * kSlotBytes) elen = take elen d"
proof -
  define rx1 where "rx1 = first_packet seq rx"
  have rx1: "rx_inv rx1" "started rx1" "ring rx1 = ring rx" "jobs rx1 = jobs rx" "next_seq rx1 = seq"
    using first_packet_inv [OF inv] nxt by (auto simp: rx1_def first_packet_def)
  let ?st = "stored d hdr elen seq rx1"
  note b = parse_rtp_bounds [OF p]
  have w: "0 < jitter_depth rx1" "jitter_depth rx1 < 32768" using rx1(1) by (auto simp: rx_inv_def kRingSize_def)
  have "force_advance seq rx1 = Some rx1"
    using w depth_test [of rx1 seq seq] by (simp add: rx1(5) force_advance.simps [of seq rx1])
  moreover have "seq_diff seq seq = 0" by (simp add: seq_diff_def)
  ultimately have hd: "handle_dgram d rx = Some (release_in_order ?st)"
    using free w(1) store_packet_cases [OF rx1(1), of seq d hdr elen]
    by (simp add: handle_dgram_first [OF p] rx1_def [symmetric] rx1)
  have st: "rx_inv ?st" using stored_inv(1) [OF rx1(1) _ _ _ b(2,4) rx1(2)] w free by (simp add: rx1)
  have hf: "head_filled ?st" and pd: "0 < pending ?st" and hj: "head_job ?st =
      \<lparr>job_slab = ring_index seq, job_len = elen, job_seq = seq, job_hdr_len = word_of_nat hdr\<rparr>"
    and rm: "queue_room ?st" and js: "jobs ?st = jobs rx"
    using room by (simp_all add: head_filled_def head_job_def stored_def upd_slot_def Let_def rx1 queue_room_def)
  let ?dh = "(dispatch_head ?st)\<lparr>next_seq := next_seq ?st + 1\<rparr>"
  have q: "queue_inv ?st" using st by (simp add: rx_inv_def)
  note dh = dispatch_head_inv(1) [OF st hf]
  have r: "release_in_order ?st = release_in_order ?dh"
    using hf pd by (simp add: release_in_order.simps [of ?st])
  from release_in_order_moves [OF dh] obtain n where m: "head_moves n ?dh (release_in_order ?dh)" by blast
  from head_moves_inv [OF m dh] obtain js' where "jobs (release_in_order ?dh) = jobs ?dh @ js'"
    unfolding advanced_def by blast
  moreover have "slab (release_in_order ?dh) = slab ?st"
    using head_moves_busy [OF m dh] by (simp add: dispatch_head_state [OF q])
  ultimately show ?thesis
    using hd r rm hj js stored_bytes(2) [OF b(4,3)] by (simp add: dispatch_head_state [OF q])
qed

theorem in_order_packet_dispatched_witness:
  "\<exists>rx' js. handle_dgram sample_dgram (receiver_start 64) = Some rx'
     \<and> jobs rx' = jobs (receiver_start 64) @ \<lparr>job_slab = ring_index 0, job_len = 22, job_seq = 0, job_hdr_len = word_of_nat 12\<rparr> # js
     \<and> mem_read (slab rx') (ring_index 0 * kSlotBytes) 22 = take 22 sample_dgram"
  by (rule in_order_packet_dispatched [OF receiver_start_inv parse_sample_dgram])
    (simp_all add: kRingSize_def queue_room_def kJobQueueSize_def, simp_all add: first_packet_def receiver_start_def slot_empty_def)

text \<open>The drop counters only grow.\<close>

lemma dispatch_head_busy: "slot_busy_drops (dispatch_head rx) = slot_busy_drops rx"
  by (auto simp: dispatch_head_def dispatch_def enqueue_job_def upd_slot_def Let_def)

lemma head_moves_drops: "head_moves n rx rx' \<Longrightarrow> rx_inv rx \<Longrightarrow> total_drops rx \<le> total_drops rx'"
proof (induction rule: head_moves.induct)
  case (skip rx n rx')
  from skip.IH [OF skip_head_inv(1) [OF skip.prems skip.hyps(1)]] show ?case by (simp add: total_drops_def)
next
  case (send rx n rx')
  have q: "queue_inv rx" using send.prems by (simp add: rx_inv_def)
  from send.IH [OF dispatch_head_inv(1) [OF send.prems send.hyps(1)]] show ?case
    by (simp add: total_drops_def dispatch_head_state [OF q] dispatch_head_busy)
qed simp

lemma store_packet_drops:
  assumes inv: "rx_inv rx" and w: "unat (seq - next_seq rx) < jitter_depth rx" and p: "parse_rtp d = Some (hdr, elen, seq)"
    and st: "started rx"
  shows "total_drops rx \<le> total_drops (store_packet d hdr elen seq rx)"
proof (cases "filled (ring rx (ring_index seq)) \<or> in_worker (ring rx (ring_index seq))")
  case True
  then show ?thesis unfolding store_packet_cases [OF inv w] by (auto simp: total_drops_def)
next
  case False
  note b = parse_rtp_bounds [OF p]
  have s: "rx_inv (stored d hdr elen seq rx)" using False by (intro stored_inv(1) [OF inv w _ _ b(2,4) st]) auto
  from release_in_order_moves [OF s] head_moves_drops [OF _ s]
  have "total_drops (stored d hdr elen seq rx) \<le> total_drops (release_in_order (stored d hdr elen seq rx))" by blast
  moreover have "total_drops (stored d hdr elen seq rx) = total_drops rx"
    by (simp add: total_drops_def stored_def upd_slot_def Let_def)
  ultimately show ?thesis unfolding store_packet_cases [OF inv w] using False by simp
qed

text \<open>
  A packet dropped on a busy slab is counted twice. It arrives, is dropped and counted in \<open>slot_busy_drops\<close>; when
  the head is then forced past its number it is counted again, as a packet the network never delivered. So
  \<open>total_drops\<close> grows by two for one packet.
\<close>

theorem busy_drop_counted_twice:
  assumes inv: "rx_inv rx" and st: "started rx"
    and p1: "parse_rtp d1 = Some (h1, l1, next_seq rx)"
    and busy: "in_worker (ring rx (ring_index (next_seq rx)))"
    and p2: "parse_rtp d2 = Some (h2, l2, next_seq rx + word_of_nat (jitter_depth rx))"
  shows "\<exists>rx1 rx2. handle_dgram d1 rx = Some rx1 \<and> rx1 = rx\<lparr>slot_busy_drops := slot_busy_drops rx + 1\<rparr>
    \<and> handle_dgram d2 rx1 = Some rx2 \<and> total_drops rx + 2 \<le> total_drops rx2"
proof -
  have d: "0 < jitter_depth rx" "jitter_depth rx < 32768" using inv by (auto simp: rx_inv_def kRingSize_def)
  have nf: "\<not> filled (ring rx (ring_index (next_seq rx)))" using inv busy by (auto simp: rx_inv_def slot_ok_def)
  define rx1 where "rx1 = rx\<lparr>slot_busy_drops := slot_busy_drops rx + 1\<rparr>"
  have inv1: "rx_inv rx1" using inv by (simp add: rx1_def rx_inv_def slot_ok_def job_ok_def)
  have "force_advance (next_seq rx) rx = Some rx"
    using d depth_test [of rx "next_seq rx" "next_seq rx"] by (simp add: force_advance.simps [of "next_seq rx" rx])
  then have 1: "handle_dgram d1 rx = Some rx1"
    using st nf busy by (simp add: handle_dgram_first [OF p1] first_packet_def seq_diff_def store_packet_def rx1_def)
  let ?seq = "next_seq rx + word_of_nat (jitter_depth rx)"
  have un: "unat (?seq - next_seq rx) = jitter_depth rx" using d by (simp add: unat_of_nat)
  have hf: "\<not> head_filled rx1" using nf by (simp add: head_filled_def rx1_def)
  then have ah: "advance_head rx1 = rx1\<lparr>net_lost_packets := net_lost_packets rx1 + 1, next_seq := next_seq rx + 1\<rparr>"
    by (simp add: advance_head_def rx1_def)
  note inv2 = skip_head_inv(1) [OF inv1 hf]
  have "?seq \<noteq> next_seq rx" using un d by auto
  from seq_advance [OF this] have un2: "unat (?seq - (next_seq rx + 1)) = jitter_depth rx - 1" using un by simp
  have "depth16 rx1 \<le> seq_diff ?seq (next_seq rx1)"
    using d un depth_test [of rx1 ?seq "next_seq rx"] by (simp add: rx1_def)
  then have "force_advance ?seq rx1 = force_advance ?seq (advance_head rx1)"
    by (simp add: force_advance.simps [of ?seq rx1])
  also have "\<dots> = Some (advance_head rx1)"
  proof -
    have a: "jitter_depth (advance_head rx1) = jitter_depth rx" "next_seq (advance_head rx1) = next_seq rx + 1"
      unfolding ah by (simp_all add: rx1_def)
    have "\<not> depth16 (advance_head rx1) \<le> seq_diff ?seq (next_seq (advance_head rx1))"
      using d un2 depth_test [of "advance_head rx1" ?seq "next_seq rx + 1"] unfolding a by simp
    then show ?thesis by (simp add: force_advance.simps [of ?seq "advance_head rx1"])
  qed
  finally have fa: "force_advance ?seq rx1 = Some (advance_head rx1)" .
  have "0 \<le> seq_diff ?seq (next_seq rx)" using un d by (simp add: seq_diff_nonneg)
  then have 2: "handle_dgram d2 rx1 = Some (store_packet d2 h2 l2 ?seq (advance_head rx1))"
    using fa st by (simp add: handle_dgram_first [OF p2] first_packet_def rx1_def)
  have "total_drops (advance_head rx1) \<le> total_drops (store_packet d2 h2 l2 ?seq (advance_head rx1))"
    using inv2 d un2 st unfolding ah by (intro store_packet_drops [OF _ _ p2]) (simp_all add: rx1_def)
  moreover have "total_drops (advance_head rx1) = total_drops rx + 2"
    unfolding ah by (simp add: total_drops_def rx1_def)
  ultimately show ?thesis using 1 2 by (auto simp: rx1_def)
qed

text \<open>A head slot still held by the worker, and the two packets.\<close>

definition stuck_rx :: receiver where
  "stuck_rx = (receiver_start 1)\<lparr>started := True,
     ring := (\<lambda>_. slot_empty)(0 := slot_empty\<lparr>in_worker := True\<rparr>)\<rparr>"

theorem busy_drop_counted_twice_witness:
  "\<exists>rx1 rx2. handle_dgram sample_dgram stuck_rx = Some rx1
     \<and> handle_dgram (sample_dgram[3 := 1]) rx1 = Some rx2 \<and> total_drops stuck_rx + 2 \<le> total_drops rx2"
proof -
  have j: "jobs stuck_rx = []" "queue_inv stuck_rx"
    using jobs_start [of 1] by (simp_all add: stuck_rx_def)
  have inv: "rx_inv stuck_rx"
    unfolding rx_inv_def using j by (simp add: stuck_rx_def receiver_start_def slot_empty_def kRingSize_def)
  have n: "next_seq stuck_rx = 0" "jitter_depth stuck_rx = 1" "started stuck_rx" "in_worker (ring stuck_rx (ring_index 0))"
    by (simp_all add: stuck_rx_def receiver_start_def ring_index_def kRingSize_def)
  have "parse_rtp (sample_dgram[3 := 1]) = Some (12, 22, 1)" by code_simp
  with busy_drop_counted_twice [OF inv n(3), of sample_dgram 12 22 "sample_dgram[3 := 1]" 12 22] parse_sample_dgram n
  show ?thesis by auto
qed

end
