(* ===== verification/Codestream.thy ===== *)
theory Codestream
  imports Prelude
begin

text \<open>
  The chain reader \<open>class codestream\<close> of \<open>src/packet_parser/type.hpp\<close>: an ordered list of
  \<open>(base, len)\<close> chunks over receiver memory, a read cursor that crosses chunk boundaries, the
  bit reader of packet headers with its stuffing rule, and \<open>take_contiguous\<close>. The default
  build is modelled (\<open>PARSER_OVERSHOOT_INSTR\<close> off, \<open>NDEBUG\<close> on).

  The reader is shown to refine a flat byte string with an absolute position
  (\<open>cs_bytes\<close>, \<open>cs_pos\<close>), and the bit reader to deliver the unstuffed bit sequence.
\<close>

section \<open>State\<close>

record chunk =
  chunk_base :: addr
  chunk_len :: nat

record codestream =
  cs_chunks :: "chunk list"
  cs_staging :: "byte list list"
  cur_chunk :: nat
  cur_offset :: nat
  consumed_before_cur_chunk :: nat
  cs_tmp :: byte
  cs_last :: byte
  nbits :: nat

text \<open>
  What \<open>take_contiguous\<close> returns: the null pointer, a pointer into a chunk, or a pointer to
  the start of the staging vector with the given index.
\<close>

datatype data_ptr = Null | Direct addr | Staged nat

definition codestream_init :: codestream where
  "codestream_init = \<lparr>cs_chunks = [], cs_staging = [], cur_chunk = 0, cur_offset = 0,
     consumed_before_cur_chunk = 0, cs_tmp = 0, cs_last = 0, nbits = 0\<rparr>"

section \<open>Operations\<close>

definition cur_len :: "codestream \<Rightarrow> nat" where
  "cur_len cs = chunk_len (cs_chunks cs ! cur_chunk cs)"

definition next_chunk :: "codestream \<Rightarrow> codestream" where
  "next_chunk cs = cs\<lparr>consumed_before_cur_chunk := consumed_before_cur_chunk cs + cur_len cs,
     cur_chunk := Suc (cur_chunk cs)\<rparr>"

text \<open>The loop that \<open>advance\<close> and \<open>reset\<close> share: walk over the chunks the offset passes.\<close>

function skip_chunks :: "codestream \<Rightarrow> codestream" where
  "skip_chunks cs =
     (if cur_chunk cs < length (cs_chunks cs) \<and> cur_len cs \<le> cur_offset cs
      then skip_chunks (next_chunk (cs\<lparr>cur_offset := cur_offset cs - cur_len cs\<rparr>))
      else cs)"
  by pat_completeness auto
termination
  by (relation "measure (\<lambda>cs. length (cs_chunks cs) - cur_chunk cs)")
    (auto simp: next_chunk_def)

declare skip_chunks.simps [simp del]

definition advance :: "nat \<Rightarrow> codestream \<Rightarrow> codestream" where
  "advance n cs = skip_chunks (cs\<lparr>cur_offset := cur_offset cs + n\<rparr>)"

definition append_chunk :: "addr \<Rightarrow> nat \<Rightarrow> codestream \<Rightarrow> codestream" where
  "append_chunk base len cs =
     cs\<lparr>cs_chunks := cs_chunks cs @ [\<lparr>chunk_base = base, chunk_len = len\<rparr>]\<rparr>"

definition clear :: "codestream \<Rightarrow> codestream" where
  "clear cs = cs\<lparr>cs_chunks := [], cs_staging := [], cur_chunk := 0, cur_offset := 0,
     consumed_before_cur_chunk := 0, cs_tmp := 0, cs_last := 0, nbits := 0\<rparr>"

definition get_byte :: "memory \<Rightarrow> codestream \<Rightarrow> byte \<times> codestream" where
  "get_byte m cs =
     (if length (cs_chunks cs) \<le> cur_chunk cs then (0, cs)
      else let c = cs_chunks cs ! cur_chunk cs;
               byte = m (chunk_base c + cur_offset cs);
               cs = cs\<lparr>cur_offset := Suc (cur_offset cs)\<rparr>
           in (byte, if cur_offset cs = chunk_len c
                     then (next_chunk cs)\<lparr>cur_offset := 0\<rparr> else cs))"

text \<open>\<open>get_word\<close> and \<open>get_dword\<close> over any source of bytes, and over the chain.\<close>

definition rd_word :: "('s \<Rightarrow> byte \<times> 's) \<Rightarrow> 's \<Rightarrow> u16 \<times> 's" where
  "rd_word get s =
     (let (a, s) = get s; (b, s) = get s in (push_bit 8 (ucast a) OR ucast b, s))"

definition rd_dword :: "('s \<Rightarrow> byte \<times> 's) \<Rightarrow> 's \<Rightarrow> u32 \<times> 's" where
  "rd_dword get s =
     (let (a, s) = rd_word get s; (b, s) = rd_word get s
      in (push_bit 16 (ucast a) OR ucast b, s))"

definition get_word :: "memory \<Rightarrow> codestream \<Rightarrow> u16 \<times> codestream" where
  "get_word m = rd_word (get_byte m)"

definition get_dword :: "memory \<Rightarrow> codestream \<Rightarrow> u32 \<times> codestream" where
  "get_dword m = rd_dword (get_byte m)"

text \<open>Refill of the bit buffer: seven bits follow a byte \<open>0xFF\<close>, eight any other byte.\<close>

definition refill_bits :: "memory \<Rightarrow> codestream \<Rightarrow> codestream" where
  "refill_bits m cs =
     (if nbits cs = 0
      then let cs = cs\<lparr>nbits := (if cs_tmp cs = 0xFF then 7 else 8), cs_last := cs_tmp cs\<rparr>;
               (b, cs) = get_byte m cs
           in cs\<lparr>cs_tmp := b\<rparr>
      else cs)"

definition get_bit :: "memory \<Rightarrow> codestream \<Rightarrow> u32 \<times> codestream" where
  "get_bit m cs =
     (let cs = refill_bits m cs;
          cs = cs\<lparr>nbits := nbits cs - 1\<rparr>
      in (ucast (drop_bit (nbits cs) (cs_tmp cs) AND 1), cs))"

primrec get_bits_loop :: "memory \<Rightarrow> nat \<Rightarrow> u32 \<Rightarrow> codestream \<Rightarrow> u32 \<times> codestream" where
  "get_bits_loop m 0 res cs = (res, cs)"
| "get_bits_loop m (Suc n) res cs =
     (let (b, cs) = get_bit m cs in get_bits_loop m n (push_bit 1 res OR b) cs)"

text \<open>
  The packet header asks for fewer than 32 bits at a time. Beyond that the model drops the upper bits, where the
  source shifts a signed value too far.
\<close>

definition packetheader_get_bits :: "memory \<Rightarrow> nat \<Rightarrow> codestream \<Rightarrow> u32 \<times> codestream" where
  "packetheader_get_bits m n cs = get_bits_loop m n 0 cs"

definition packetheader_flush_bits :: "codestream \<Rightarrow> codestream" where
  "packetheader_flush_bits cs =
     (let cs = (if cs_tmp cs = 0xFF then advance 1 cs else cs) in cs\<lparr>cs_tmp := 0, nbits := 0\<rparr>)"

definition move_forward :: "u32 \<Rightarrow> codestream \<Rightarrow> codestream" where
  "move_forward n cs = advance (unat n) cs"

definition get_address :: "codestream \<Rightarrow> addr option" where
  "get_address cs =
     (if length (cs_chunks cs) \<le> cur_chunk cs then None
      else Some (chunk_base (cs_chunks cs ! cur_chunk cs) + cur_offset cs))"

definition get_pos :: "codestream \<Rightarrow> u32" where
  "get_pos cs = word_of_nat (consumed_before_cur_chunk cs + cur_offset cs)"

definition reset :: "u32 \<Rightarrow> codestream \<Rightarrow> codestream" where
  "reset p cs =
     skip_chunks (cs\<lparr>cs_last := 0, nbits := 0, cs_tmp := 0, cur_chunk := 0,
       cur_offset := unat p, consumed_before_cur_chunk := 0\<rparr>)"

text \<open>
  The copy loop of the slow path. \<open>avail\<close> is a \<open>size_t\<close> difference, so it wraps when the
  offset lies beyond the chunk.
\<close>

definition copy_avail :: "codestream \<Rightarrow> nat" where
  "copy_avail cs = (if cur_offset cs \<le> cur_len cs then cur_len cs - cur_offset cs
                    else 2 ^ 64 + cur_len cs - cur_offset cs)"

lemma chunks_skip_chunks [simp]: "cs_chunks (skip_chunks cs) = cs_chunks cs"
  by (induction cs rule: skip_chunks.induct)
    (subst skip_chunks.simps, auto simp: next_chunk_def)

lemma cur_chunk_skip_chunks_mono: "cur_chunk cs \<le> cur_chunk (skip_chunks cs)"
proof (induction cs rule: skip_chunks.induct)
  case (1 cs)
  then show ?case
    by (subst skip_chunks.simps) (force simp: next_chunk_def)
qed

lemma cur_chunk_skip_chunks_less:
  "cur_chunk cs < length (cs_chunks cs) \<Longrightarrow> cur_len cs \<le> cur_offset cs \<Longrightarrow>
     cur_chunk cs < cur_chunk (skip_chunks cs)"
  using cur_chunk_skip_chunks_mono
    [of "next_chunk (cs\<lparr>cur_offset := cur_offset cs - cur_len cs\<rparr>)"]
  by (subst skip_chunks.simps) (simp add: next_chunk_def)

lemma chunks_advance [simp]: "cs_chunks (advance n cs) = cs_chunks cs"
  by (simp add: advance_def)

lemma cur_chunk_advance_mono: "cur_chunk cs \<le> cur_chunk (advance n cs)"
  using cur_chunk_skip_chunks_mono [of "cs\<lparr>cur_offset := cur_offset cs + n\<rparr>"]
  by (simp add: advance_def)

lemma cur_chunk_advance_less:
  assumes "cur_chunk cs < length (cs_chunks cs)" and "cur_len cs \<le> cur_offset cs + n"
  shows "cur_chunk cs < cur_chunk (advance n cs)"
  using cur_chunk_skip_chunks_less [of "cs\<lparr>cur_offset := cur_offset cs + n\<rparr>"] assms
  by (simp add: advance_def cur_len_def)

function copy_loop :: "memory \<Rightarrow> nat \<Rightarrow> byte list \<Rightarrow> codestream \<Rightarrow> byte list \<times> codestream" where
  "copy_loop m len copied cs =
     (if length copied < len \<and> cur_chunk cs < length (cs_chunks cs)
      then let avail = copy_avail cs;
               to_copy = (if len - length copied < avail then len - length copied else avail);
               src = mem_read m (chunk_base (cs_chunks cs ! cur_chunk cs) + cur_offset cs) to_copy
           in copy_loop m len (copied @ src) (advance to_copy cs)
      else (copied, cs))"
  by pat_completeness auto
termination
proof (relation "measure (\<lambda>(m, len, copied, cs).
    (len - length copied) + (length (cs_chunks cs) - cur_chunk cs))", goal_cases)
  case 1
  then show ?case by simp
next
  case (2 m len copied cs avail to_copy src)
  show ?case
  proof (cases "to_copy = len - length copied")
    case True
    with 2 cur_chunk_advance_mono [of cs to_copy] show ?thesis
      by auto
  next
    case False
    with 2 have tc: "to_copy = copy_avail cs" "copy_avail cs < len - length copied"
      by (auto split: if_splits)
    have "cur_len cs \<le> cur_offset cs + copy_avail cs"
      by (simp add: copy_avail_def)
    with 2 tc have "cur_chunk cs < cur_chunk (advance to_copy cs)"
      by (intro cur_chunk_advance_less) auto
    with 2 tc show ?thesis by auto
  qed
qed

declare copy_loop.simps [simp del]

definition take_contiguous :: "memory \<Rightarrow> nat \<Rightarrow> codestream \<Rightarrow> data_ptr \<times> codestream" where
  "take_contiguous m len cs =
     (if length (cs_chunks cs) \<le> cur_chunk cs then (Null, cs)
      else let p = chunk_base (cs_chunks cs ! cur_chunk cs) + cur_offset cs
           in if len = 0 then (Direct p, cs)
              else if cur_offset cs + len \<le> cur_len cs then (Direct p, advance len cs)
              else let (copied, cs) = copy_loop m len [] cs;
                       staging = copied @ replicate (len - length copied) 0
                   in (Staged (length (cs_staging cs)), cs\<lparr>cs_staging := cs_staging cs @ [staging]\<rparr>))"

text \<open>
  Reading through a body pointer, as \<open>cblk->data[i]\<close> does. Indices into a staging buffer are checked; a pointer into a chunk reads
  the memory, which has a byte at every address.
\<close>

definition data_at :: "memory \<Rightarrow> codestream \<Rightarrow> data_ptr \<Rightarrow> nat \<Rightarrow> byte option" where
  "data_at m cs p i =
     (case p of Null \<Rightarrow> None
      | Direct a \<Rightarrow> Some (m (a + i))
      | Staged k \<Rightarrow> (if k < length (cs_staging cs) then arr_get (cs_staging cs ! k) i else None))"

section \<open>The flat view of the chain\<close>

definition chunk_bytes :: "memory \<Rightarrow> chunk \<Rightarrow> byte list" where
  "chunk_bytes m c = mem_read m (chunk_base c) (chunk_len c)"

definition cs_bytes :: "memory \<Rightarrow> codestream \<Rightarrow> byte list" where
  "cs_bytes m cs = concat (map (chunk_bytes m) (cs_chunks cs))"

definition cs_total :: "codestream \<Rightarrow> nat" where
  "cs_total cs = sum_list (map chunk_len (cs_chunks cs))"

definition cs_pos :: "codestream \<Rightarrow> nat" where
  "cs_pos cs = consumed_before_cur_chunk cs + cur_offset cs"

text \<open>
  \<open>cs_walk\<close> is what holds while \<open>advance\<close> walks; \<open>cs_wf\<close> adds that the cursor points into
  its chunk, unless it has left the chain.
\<close>

definition cs_walk :: "codestream \<Rightarrow> bool" where
  "cs_walk cs \<longleftrightarrow> (\<forall>c \<in> set (cs_chunks cs). 0 < chunk_len c)
     \<and> cur_chunk cs \<le> length (cs_chunks cs)
     \<and> consumed_before_cur_chunk cs = sum_list (map chunk_len (take (cur_chunk cs) (cs_chunks cs)))"

definition cs_wf :: "codestream \<Rightarrow> bool" where
  "cs_wf cs \<longleftrightarrow> cs_walk cs
     \<and> (cur_chunk cs < length (cs_chunks cs) \<longrightarrow> cur_offset cs < cur_len cs)"

lemma length_chunk_bytes [simp]: "length (chunk_bytes m c) = chunk_len c"
  by (simp add: chunk_bytes_def)

lemma length_cs_bytes [simp]: "length (cs_bytes m cs) = cs_total cs"
  by (simp add: cs_bytes_def cs_total_def length_concat o_def)

lemma cs_wf_init [simp]: "cs_wf codestream_init"
  by (simp add: cs_wf_def cs_walk_def codestream_init_def)

lemma cs_wf_clear [simp]: "cs_wf (clear cs)"
  by (simp add: cs_wf_def cs_walk_def clear_def)

lemma cs_walk_next_chunk:
  assumes "cs_walk cs" and "cur_chunk cs < length (cs_chunks cs)"
  shows "cs_walk (next_chunk cs)"
  using assms by (auto simp: cs_walk_def next_chunk_def cur_len_def take_Suc_conv_app_nth)

lemma skip_chunks_spec:
  "cs_walk cs \<Longrightarrow> cs_wf (skip_chunks cs) \<and> cs_pos (skip_chunks cs) = cs_pos cs"
proof (induction cs rule: skip_chunks.induct)
  case (1 cs)
  let ?next = "next_chunk (cs\<lparr>cur_offset := cur_offset cs - cur_len cs\<rparr>)"
  show ?case
  proof (cases "cur_chunk cs < length (cs_chunks cs) \<and> cur_len cs \<le> cur_offset cs")
    case True
    have "cs_walk (cs\<lparr>cur_offset := cur_offset cs - cur_len cs\<rparr>)"
      using "1.prems" by (simp add: cs_walk_def)
    with True have "cs_walk ?next"
      by (intro cs_walk_next_chunk) auto
    moreover have "cs_pos ?next = cs_pos cs"
      using True by (simp add: cs_pos_def next_chunk_def cur_len_def)
    ultimately show ?thesis
      using True "1.IH" by (simp add: skip_chunks.simps [of cs])
  next
    case False
    with "1.prems" show ?thesis
      by (auto simp: skip_chunks.simps [of cs] cs_wf_def)
  qed
qed

lemma skip_chunks_frame [simp]:
  "cs_staging (skip_chunks cs) = cs_staging cs"
  "cs_tmp (skip_chunks cs) = cs_tmp cs"
  "cs_last (skip_chunks cs) = cs_last cs"
  "nbits (skip_chunks cs) = nbits cs"
  by (induction cs rule: skip_chunks.induct;
      subst skip_chunks.simps; simp add: next_chunk_def)+

lemma advance_frame [simp]:
  "cs_staging (advance n cs) = cs_staging cs"
  "cs_tmp (advance n cs) = cs_tmp cs"
  "cs_last (advance n cs) = cs_last cs"
  "nbits (advance n cs) = nbits cs"
  by (simp_all add: advance_def)

lemma cs_wf_advance [reader_inv]: "cs_wf cs \<Longrightarrow> cs_wf (advance n cs)"
  and cs_pos_advance [reader_simps]: "cs_wf cs \<Longrightarrow> cs_pos (advance n cs) = cs_pos cs + n"
  using skip_chunks_spec [of "cs\<lparr>cur_offset := cur_offset cs + n\<rparr>"]
  by (auto simp: advance_def cs_wf_def cs_walk_def cs_pos_def)

lemma cs_bytes_cong: "cs_chunks cs' = cs_chunks cs \<Longrightarrow> cs_bytes m cs' = cs_bytes m cs"
  and cs_total_cong: "cs_chunks cs' = cs_chunks cs \<Longrightarrow> cs_total cs' = cs_total cs"
  by (simp_all add: cs_bytes_def cs_total_def)

lemma cs_bytes_advance [simp]: "cs_bytes m (advance n cs) = cs_bytes m cs"
  by (rule cs_bytes_cong) simp

lemma cs_wf_append_chunk:
  assumes "cs_wf cs" and "0 < n" and "cs_pos cs < cs_total cs + n"
  shows "cs_wf (append_chunk a n cs)"
  using assms
  by (auto simp: cs_wf_def cs_walk_def append_chunk_def cs_pos_def cs_total_def cur_len_def
      nth_append not_less)

lemma cs_bytes_append_chunk [reader_simps]:
  "cs_bytes m (append_chunk a n cs) = cs_bytes m cs @ mem_read m a n"
  by (simp add: cs_bytes_def append_chunk_def chunk_bytes_def)

lemma cs_pos_append_chunk [reader_simps]: "cs_pos (append_chunk a n cs) = cs_pos cs"
  by (simp add: cs_pos_def append_chunk_def)

lemma cs_wf_reset [reader_inv]: "cs_wf cs \<Longrightarrow> cs_wf (reset p cs)"
  and cs_pos_reset [reader_simps]: "cs_wf cs \<Longrightarrow> cs_pos (reset p cs) = unat p"
  using skip_chunks_spec [of "cs\<lparr>cs_last := 0, nbits := 0, cs_tmp := 0, cur_chunk := 0,
       cur_offset := unat p, consumed_before_cur_chunk := 0\<rparr>"]
  by (auto simp: reset_def cs_wf_def cs_walk_def cs_pos_def)

lemma reset_frame [simp]:
  "cs_chunks (reset p cs) = cs_chunks cs"
  "cs_staging (reset p cs) = cs_staging cs"
  "cs_tmp (reset p cs) = 0"
  "nbits (reset p cs) = 0"
  by (simp_all add: reset_def)

lemma cs_wf_pos_less_total:
  assumes "cs_wf cs"
  shows "cs_pos cs < cs_total cs \<longleftrightarrow> cur_chunk cs < length (cs_chunks cs)"
proof (cases "cur_chunk cs < length (cs_chunks cs)")
  case True
  with assms have "cs_pos cs < sum_list (take (Suc (cur_chunk cs)) (map chunk_len (cs_chunks cs)))"
    by (simp add: take_Suc_conv_app_nth take_map cs_wf_def cs_walk_def cs_pos_def cur_len_def)
  also have "\<dots> \<le> cs_total cs"
    unfolding cs_total_def by (rule sum_list_take_le)
  finally show ?thesis using True by simp
next
  case False
  with assms show ?thesis
    by (auto simp: cs_wf_def cs_walk_def cs_pos_def cs_total_def)
qed

lemma cs_bytes_at:
  assumes "cs_wf cs" and "cur_chunk cs < length (cs_chunks cs)"
    and "cur_offset cs + i < cur_len cs"
  shows "cs_bytes m cs ! (cs_pos cs + i) = m (chunk_base (cs_chunks cs ! cur_chunk cs) + cur_offset cs + i)"
proof -
  let ?xss = "map (chunk_bytes m) (cs_chunks cs)"
  have "concat ?xss ! (sum_list (map length (take (cur_chunk cs) ?xss)) + (cur_offset cs + i))
      = ?xss ! cur_chunk cs ! (cur_offset cs + i)"
    using assms by (intro nth_concat_chunk) (auto simp: cur_len_def)
  moreover have "sum_list (map length (take (cur_chunk cs) ?xss)) = consumed_before_cur_chunk cs"
    using assms by (simp add: cs_wf_def cs_walk_def take_map o_def)
  ultimately show ?thesis
    using assms by (simp add: cs_bytes_def cs_pos_def chunk_bytes_def cur_len_def add.assoc)
qed

section \<open>Byte sources\<close>

text \<open>
  The contract of a byte reader as the header and packet parsers rely on it: it delivers the
  bytes of a fixed string in order, and zeros, without moving, once the string is exhausted.
\<close>

definition byte_or_0 :: "byte list \<Rightarrow> nat \<Rightarrow> byte" where
  "byte_or_0 bs i = (if i < length bs then bs ! i else 0)"

definition adv_pos :: "nat \<Rightarrow> nat \<Rightarrow> nat \<Rightarrow> nat" where
  "adv_pos n_total p n = max p (min (p + n) n_total)"

lemma adv_pos_0 [simp]: "adv_pos n_total p 0 = p"
  by (simp add: adv_pos_def)

lemma adv_pos_adv_pos [simp]: "adv_pos n_total (adv_pos n_total p i) j = adv_pos n_total p (i + j)"
  by (auto simp: adv_pos_def)

lemma adv_pos_inside: "p + n \<le> n_total \<Longrightarrow> adv_pos n_total p n = p + n"
  by (simp add: adv_pos_def)

lemma byte_or_0_adv_pos [simp]: "byte_or_0 bs (adv_pos (length bs) p n) = byte_or_0 bs (p + n)"
  by (auto simp: byte_or_0_def adv_pos_def)

definition be16 :: "byte list \<Rightarrow> nat \<Rightarrow> u16" where
  "be16 bs p = push_bit 8 (ucast (byte_or_0 bs p)) OR ucast (byte_or_0 bs (p + 1))"

definition be32 :: "byte list \<Rightarrow> nat \<Rightarrow> u32" where
  "be32 bs p = push_bit 16 (ucast (be16 bs p)) OR ucast (be16 bs (p + 2))"

locale byte_source =
  fixes get :: "'s \<Rightarrow> byte \<times> 's"
    and invar :: "'s \<Rightarrow> bool"
    and data :: "'s \<Rightarrow> byte list"
    and pos :: "'s \<Rightarrow> nat"
  assumes get_val: "invar s \<Longrightarrow> fst (get s) = byte_or_0 (data s) (pos s)"
    and get_pos: "invar s \<Longrightarrow> pos (snd (get s)) = adv_pos (length (data s)) (pos s) 1"
    and get_data: "invar s \<Longrightarrow> data (snd (get s)) = data s"
    and get_invar: "invar s \<Longrightarrow> invar (snd (get s))"
begin

lemma rd_word_val: "invar s \<Longrightarrow> fst (rd_word get s) = be16 (data s) (pos s)"
  by (simp add: rd_word_def be16_def get_val get_pos get_data get_invar case_prod_beta Let_def)

lemma rd_word_pos: "invar s \<Longrightarrow> pos (snd (rd_word get s)) = adv_pos (length (data s)) (pos s) 2"
  by (simp add: rd_word_def get_pos get_data get_invar case_prod_beta Let_def numeral_2_eq_2)

lemma rd_word_data: "invar s \<Longrightarrow> data (snd (rd_word get s)) = data s"
  by (simp add: rd_word_def get_data get_invar case_prod_beta Let_def)

lemma rd_word_invar: "invar s \<Longrightarrow> invar (snd (rd_word get s))"
  by (simp add: rd_word_def get_invar case_prod_beta Let_def)

lemma be16_adv_pos: "be16 (data s) (adv_pos (length (data s)) p n) = be16 (data s) (p + n)"
proof -
  have "adv_pos (length (data s)) p n + 1 \<ge> length (data s) \<Longrightarrow>
      byte_or_0 (data s) (adv_pos (length (data s)) p n + 1) = byte_or_0 (data s) (p + n + 1)"
    by (auto simp: byte_or_0_def adv_pos_def)
  moreover have "adv_pos (length (data s)) p n + 1 < length (data s) \<Longrightarrow>
      adv_pos (length (data s)) p n = p + n"
    by (auto simp: adv_pos_def)
  ultimately show ?thesis
    by (cases "adv_pos (length (data s)) p n + 1 < length (data s)") (auto simp: be16_def)
qed

lemma rd_dword_val: "invar s \<Longrightarrow> fst (rd_dword get s) = be32 (data s) (pos s)"
  by (simp add: rd_dword_def be32_def rd_word_val rd_word_pos rd_word_data rd_word_invar
      be16_adv_pos [of s "pos s" 2] case_prod_beta Let_def)

lemma rd_dword_pos: "invar s \<Longrightarrow> pos (snd (rd_dword get s)) = adv_pos (length (data s)) (pos s) 4"
  by (simp add: rd_dword_def rd_word_pos rd_word_data rd_word_invar case_prod_beta Let_def)

lemma rd_dword_data: "invar s \<Longrightarrow> data (snd (rd_dword get s)) = data s"
  by (simp add: rd_dword_def rd_word_data rd_word_invar case_prod_beta Let_def)

lemma rd_dword_invar: "invar s \<Longrightarrow> invar (snd (rd_dword get s))"
  by (simp add: rd_dword_def rd_word_invar case_prod_beta Let_def)

end

text \<open>The chain reader is a byte source over the concatenation of its chunks.\<close>

lemma get_byte_end:
  "cs_wf cs \<Longrightarrow> cs_total cs \<le> cs_pos cs \<Longrightarrow> get_byte m cs = (0, cs)"
  using cs_wf_pos_less_total [of cs] by (simp add: get_byte_def)

lemma get_byte_inside:
  assumes "cs_wf cs" and "cs_pos cs < cs_total cs"
  shows "fst (get_byte m cs) = cs_bytes m cs ! cs_pos cs"
    and "cs_pos (snd (get_byte m cs)) = Suc (cs_pos cs)"
    and "cs_wf (snd (get_byte m cs))"
proof -
  have cur: "cur_chunk cs < length (cs_chunks cs)" "cur_offset cs < cur_len cs"
    using assms cs_wf_pos_less_total [of cs] by (auto simp: cs_wf_def)
  show "fst (get_byte m cs) = cs_bytes m cs ! cs_pos cs"
    using cs_bytes_at [OF assms(1) cur(1), of 0 m] cur by (simp add: get_byte_def Let_def)
  show "cs_pos (snd (get_byte m cs)) = Suc (cs_pos cs)"
    using cur by (simp add: get_byte_def Let_def cs_pos_def next_chunk_def cur_len_def)
  have "cs_walk (next_chunk cs)"
    using assms(1) cur by (intro cs_walk_next_chunk) (auto simp: cs_wf_def)
  then show "cs_wf (snd (get_byte m cs))"
    using assms(1) cur
    by (auto simp: get_byte_def Let_def cs_wf_def cs_walk_def next_chunk_def cur_len_def)
qed

lemma get_byte_frame [simp]:
  "cs_chunks (snd (get_byte m cs)) = cs_chunks cs"
  "cs_staging (snd (get_byte m cs)) = cs_staging cs"
  "cs_tmp (snd (get_byte m cs)) = cs_tmp cs"
  "cs_last (snd (get_byte m cs)) = cs_last cs"
  "nbits (snd (get_byte m cs)) = nbits cs"
  by (simp_all add: get_byte_def Let_def next_chunk_def)

lemma cs_bytes_get_byte [simp]: "cs_bytes m (snd (get_byte m' cs)) = cs_bytes m cs"
  by (rule cs_bytes_cong) simp

interpretation chain: byte_source "get_byte m" cs_wf "cs_bytes m" cs_pos
proof (unfold_locales, goal_cases)
  case (1 s)
  then show ?case
    by (cases "cs_pos s < cs_total s") (simp_all add: get_byte_inside get_byte_end byte_or_0_def)
next
  case (2 s)
  then show ?case
    by (cases "cs_pos s < cs_total s") (simp_all add: get_byte_inside get_byte_end adv_pos_def)
next
  case (3 s)
  then show ?case by simp
next
  case (4 s)
  then show ?case
    by (cases "cs_pos s < cs_total s") (simp_all add: get_byte_inside get_byte_end)
qed

lemmas get_word_val [reader_simps] = chain.rd_word_val [folded get_word_def]
  and get_word_pos [reader_simps] = chain.rd_word_pos [folded get_word_def]
  and get_word_bytes [reader_simps] = chain.rd_word_data [folded get_word_def]
  and get_word_wf [reader_inv] = chain.rd_word_invar [folded get_word_def]
  and get_dword_val [reader_simps] = chain.rd_dword_val [folded get_dword_def]
  and get_dword_pos [reader_simps] = chain.rd_dword_pos [folded get_dword_def]
  and get_dword_bytes [reader_simps] = chain.rd_dword_data [folded get_dword_def]
  and get_dword_wf [reader_inv] = chain.rd_dword_invar [folded get_dword_def]
  and get_byte_wf [reader_inv] = chain.get_invar

section \<open>The bit reader\<close>

text \<open>
  The bits of a packet header: after a byte \<open>0xFF\<close> the most significant bit of the next byte
  is a stuffed zero and is dropped.
\<close>

definition low_bits :: "nat \<Rightarrow> byte \<Rightarrow> bool list" where
  "low_bits n b = map (bit b) (rev [0..<n])"

primrec unstuff :: "byte \<Rightarrow> byte list \<Rightarrow> bool list" where
  "unstuff prev [] = []"
| "unstuff prev (b # bs) = low_bits (if prev = 0xFF then 7 else 8) b @ unstuff b bs"

definition cs_bits :: "memory \<Rightarrow> codestream \<Rightarrow> bool list" where
  "cs_bits m cs = low_bits (nbits cs) (cs_tmp cs)
     @ unstuff (cs_tmp cs) (drop (cs_pos cs) (cs_bytes m cs))"

lemma low_bits_0 [simp]: "low_bits 0 b = []"
  by (simp add: low_bits_def)

lemma low_bits_Suc [simp]: "low_bits (Suc n) b = bit b n # low_bits n b"
  by (simp add: low_bits_def)

lemma length_low_bits [simp]: "length (low_bits n b) = n"
  by (simp add: low_bits_def)

lemma low_bits_zero: "low_bits n 0 = replicate n False"
  by (induction n) simp_all

lemma ucast_bit_word: "ucast (drop_bit n (b :: byte) AND 1) = (of_bool (bit b n) :: u32)"
  by (simp add: and_one_eq mod_2_eq_odd bit_iff_odd_drop_bit)

lemma refill_bits_frame [simp]:
  "cs_chunks (refill_bits m cs) = cs_chunks cs"
  "cs_staging (refill_bits m cs) = cs_staging cs"
  by (simp_all add: refill_bits_def Let_def case_prod_beta)

lemma get_bit_frame [simp]:
  "cs_chunks (snd (get_bit m cs)) = cs_chunks cs"
  "cs_staging (snd (get_bit m cs)) = cs_staging cs"
  by (simp_all add: get_bit_def Let_def)

lemma cs_wf_upd [simp]:
  "cs_wf (cs\<lparr>nbits := k\<rparr>) = cs_wf cs"
  "cs_wf (cs\<lparr>cs_last := l\<rparr>) = cs_wf cs"
  "cs_wf (cs\<lparr>cs_tmp := t\<rparr>) = cs_wf cs"
  "cs_wf (cs\<lparr>cs_staging := st\<rparr>) = cs_wf cs"
  by (simp_all add: cs_wf_def cs_walk_def cur_len_def)

lemma cs_pos_upd [simp]:
  "cs_pos (cs\<lparr>nbits := k\<rparr>) = cs_pos cs"
  "cs_pos (cs\<lparr>cs_last := l\<rparr>) = cs_pos cs"
  "cs_pos (cs\<lparr>cs_tmp := t\<rparr>) = cs_pos cs"
  "cs_pos (cs\<lparr>cs_staging := st\<rparr>) = cs_pos cs"
  by (simp_all add: cs_pos_def)

lemma cs_bytes_upd [simp]:
  "cs_bytes m (cs\<lparr>nbits := k\<rparr>) = cs_bytes m cs"
  "cs_bytes m (cs\<lparr>cs_last := l\<rparr>) = cs_bytes m cs"
  "cs_bytes m (cs\<lparr>cs_tmp := t\<rparr>) = cs_bytes m cs"
  "cs_bytes m (cs\<lparr>cs_staging := st\<rparr>) = cs_bytes m cs"
  by (simp_all add: cs_bytes_def)

lemma cs_total_upd [simp]:
  "cs_total (cs\<lparr>nbits := k\<rparr>) = cs_total cs"
  "cs_total (cs\<lparr>cs_last := l\<rparr>) = cs_total cs"
  "cs_total (cs\<lparr>cs_tmp := t\<rparr>) = cs_total cs"
  "cs_total (cs\<lparr>cs_staging := st\<rparr>) = cs_total cs"
  by (simp_all add: cs_total_def)

lemma cs_bits_refill_inside:
  assumes "cs_wf cs" and "cs_bits m cs = b # bs"
  shows "cs_wf (refill_bits m cs) \<and> cs_bits m (refill_bits m cs) = b # bs
    \<and> 0 < nbits (refill_bits m cs)"
proof (cases "nbits cs = 0")
  case False
  with assms show ?thesis by (simp add: refill_bits_def)
next
  case True
  with assms have lt: "cs_pos cs < cs_total cs"
    by (cases "cs_pos cs < cs_total cs") (auto simp: cs_bits_def)
  let ?cs = "cs\<lparr>nbits := (if cs_tmp cs = 0xFF then 7 else 8), cs_last := cs_tmp cs\<rparr>"
  have g: "fst (get_byte m ?cs) = cs_bytes m cs ! cs_pos cs"
      "cs_pos (snd (get_byte m ?cs)) = Suc (cs_pos cs)" "cs_wf (snd (get_byte m ?cs))"
    using get_byte_inside [of ?cs m] assms(1) lt by simp_all
  have "drop (cs_pos cs) (cs_bytes m cs)
      = cs_bytes m cs ! cs_pos cs # drop (Suc (cs_pos cs)) (cs_bytes m cs)"
    using lt by (simp add: Cons_nth_drop_Suc)
  with True assms g show ?thesis
    by (simp add: refill_bits_def cs_bits_def Let_def case_prod_beta)
qed

lemma cs_bits_refill_end:
  assumes "cs_wf cs" and "cs_bits m cs = []"
  shows "cs_wf (refill_bits m cs)" and "0 < nbits (refill_bits m cs)"
    and "set (cs_bits m (refill_bits m cs)) \<subseteq> {False}"
    and "cs_pos (refill_bits m cs) = cs_pos cs"
proof -
  have n0: "nbits cs = 0"
    using assms(2) by (cases "nbits cs") (auto simp: cs_bits_def)
  have ge: "cs_total cs \<le> cs_pos cs"
  proof (rule ccontr)
    assume "\<not> cs_total cs \<le> cs_pos cs"
    then have "drop (cs_pos cs) (cs_bytes m cs) \<noteq> []" by simp
    with assms(2) show False
      by (cases "drop (cs_pos cs) (cs_bytes m cs)")
        (auto simp: cs_bits_def numeral_eq_Suc split: if_splits)
  qed
  let ?cs = "cs\<lparr>nbits := (if cs_tmp cs = 0xFF then 7 else 8), cs_last := cs_tmp cs\<rparr>"
  have "get_byte m ?cs = (0, ?cs)"
    using assms(1) ge by (intro get_byte_end) auto
  then have r: "refill_bits m cs = ?cs\<lparr>cs_tmp := 0\<rparr>"
    using n0 by (simp add: refill_bits_def Let_def)
  show "cs_wf (refill_bits m cs)" "0 < nbits (refill_bits m cs)"
    "cs_pos (refill_bits m cs) = cs_pos cs"
    using assms(1) by (simp_all add: r)
  show "set (cs_bits m (refill_bits m cs)) \<subseteq> {False}"
    using ge by (simp add: r cs_bits_def low_bits_zero)
qed

lemma get_bit_of_refill:
  assumes "0 < nbits (refill_bits m cs)" and "cs_bits m (refill_bits m cs) = b # bs"
  shows "fst (get_bit m cs) = of_bool b \<and> cs_bits m (snd (get_bit m cs)) = bs"
proof -
  obtain n where n: "nbits (refill_bits m cs) = Suc n"
    using assms(1) by (cases "nbits (refill_bits m cs)") auto
  with assms(2) show ?thesis
    by (simp add: get_bit_def Let_def cs_bits_def ucast_bit_word)
qed

lemma get_bit_Cons:
  assumes "cs_wf cs" and "cs_bits m cs = b # bs"
  shows "fst (get_bit m cs) = of_bool b" and "cs_bits m (snd (get_bit m cs)) = bs"
    and "cs_wf (snd (get_bit m cs))"
  using cs_bits_refill_inside [OF assms] get_bit_of_refill [of m cs b bs]
  by (auto simp: get_bit_def Let_def)

lemma get_bit_Nil:
  assumes "cs_wf cs" and "cs_bits m cs = []"
  shows "fst (get_bit m cs) = 0" and "set (cs_bits m (snd (get_bit m cs))) \<subseteq> {False}"
    and "cs_wf (snd (get_bit m cs))"
proof -
  note r = cs_bits_refill_end [OF assms]
  obtain b bs where bs: "cs_bits m (refill_bits m cs) = b # bs"
    using r(2) by (cases "nbits (refill_bits m cs)") (auto simp: cs_bits_def)
  with r(3) have "b = False" "set bs \<subseteq> {False}" by auto
  with get_bit_of_refill [OF r(2) bs]
  show "fst (get_bit m cs) = 0" "set (cs_bits m (snd (get_bit m cs))) \<subseteq> {False}"
    by auto
  show "cs_wf (snd (get_bit m cs))"
    using r(1) by (simp add: get_bit_def Let_def)
qed

lemma get_bit_wf [reader_inv]: "cs_wf cs \<Longrightarrow> cs_wf (snd (get_bit m cs))"
  using get_bit_Cons(3) get_bit_Nil(3) by (cases "cs_bits m cs") blast+

lemma get_bit_le_1: "fst (get_bit m cs) = 0 \<or> fst (get_bit m cs) = 1"
  by (simp add: get_bit_def Let_def ucast_bit_word)

text \<open>Values read by \<open>packetheader_get_bits\<close>: most significant bit first.\<close>

definition bits_val :: "nat \<Rightarrow> bool list \<Rightarrow> nat" where
  "bits_val v xs = foldl (\<lambda>v b. 2 * v + of_bool b) v xs"

lemma bits_val_simps [simp]:
  "bits_val v [] = v"
  "bits_val v (b # xs) = bits_val (2 * v + of_bool b) xs"
  by (simp_all add: bits_val_def)

lemma shift_or_bit: "push_bit 1 (r :: u32) OR of_bool b = 2 * r + of_bool b"
proof -
  have "r * 2 AND of_bool b = 0"
    by (cases b) (simp_all add: and_one_eq mod_2_eq_odd)
  then have "r * 2 + of_bool b = r * 2 OR of_bool b"
    by (rule disjunctive_add_eq_or)
  then show ?thesis by (simp add: push_bit_eq_mult mult.commute)
qed

lemma get_bits_loop_append:
  assumes "cs_wf cs" and "cs_bits m cs = xs @ ys" and "res = word_of_nat v"
  shows "fst (get_bits_loop m (length xs) res cs) = word_of_nat (bits_val v xs)
    \<and> cs_bits m (snd (get_bits_loop m (length xs) res cs)) = ys
    \<and> cs_wf (snd (get_bits_loop m (length xs) res cs))"
  using assms
proof (induction xs arbitrary: cs res v)
  case Nil
  then show ?case by simp
next
  case (Cons b xs)
  have bits: "cs_bits m cs = b # xs @ ys" using Cons.prems(2) by simp
  note g = get_bit_Cons [OF Cons.prems(1) bits]
  have "push_bit 1 res OR fst (get_bit m cs) = word_of_nat (2 * v + of_bool b)"
    unfolding g(1) shift_or_bit by (simp add: Cons.prems(3))
  from Cons.IH [OF g(3,2) this] show ?case
    by (simp only: length_Cons get_bits_loop.simps Let_def case_prod_beta bits_val_simps)
qed

lemma get_bits_loop_wf: "cs_wf cs \<Longrightarrow> cs_wf (snd (get_bits_loop m n res cs))"
  by (induction n arbitrary: res cs) (simp_all add: case_prod_beta reader_inv)

lemma packetheader_get_bits_wf [reader_inv]:
  "cs_wf cs \<Longrightarrow> cs_wf (snd (packetheader_get_bits m n cs))"
  by (simp add: packetheader_get_bits_def get_bits_loop_wf)

lemma get_bits_loop_frame [simp]:
  "cs_chunks (snd (get_bits_loop m n res cs)) = cs_chunks cs"
  "cs_staging (snd (get_bits_loop m n res cs)) = cs_staging cs"
  by (induction n arbitrary: res cs) (simp_all add: case_prod_beta)

lemma packetheader_get_bits_frame [simp]:
  "cs_chunks (snd (packetheader_get_bits m n cs)) = cs_chunks cs"
  "cs_staging (snd (packetheader_get_bits m n cs)) = cs_staging cs"
  by (simp_all add: packetheader_get_bits_def)

lemma get_bits_loop_bound:
  "unat res < 2 ^ k \<Longrightarrow> k + n \<le> 32 \<Longrightarrow> unat (fst (get_bits_loop m n res cs)) < 2 ^ (k + n)"
proof (induction n arbitrary: res cs k)
  case 0
  then show ?case by simp
next
  case (Suc n)
  let ?r = "push_bit 1 res OR fst (get_bit m cs)"
  obtain b where b: "fst (get_bit m cs) = of_bool b"
    using get_bit_le_1 [of m cs] by (metis of_bool_eq(1,2))
  have "2 * unat res + 1 < 2 ^ Suc k" using Suc.prems(1) by simp
  also have "(2::nat) ^ Suc k \<le> 2 ^ 32" using Suc.prems(2) by (intro power_increasing) auto
  finally have lt: "2 * unat res + 1 < 2 ^ 32" .
  have "unat ?r \<le> 2 * unat res + 1"
    unfolding b shift_or_bit using lt
    by (cases b) (simp_all add: unat_word_ariths)
  with Suc.prems have "unat ?r < 2 ^ Suc k" by simp
  with Suc.IH [of ?r "Suc k" "snd (get_bit m cs)"] Suc.prems show ?case
    by (simp add: case_prod_beta)
qed

lemma packetheader_get_bits_bound:
  "n \<le> 32 \<Longrightarrow> unat (fst (packetheader_get_bits m n cs)) < 2 ^ n"
  using get_bits_loop_bound [of 0 0 n m cs] by (simp add: packetheader_get_bits_def)

lemma packetheader_flush_bits_wf [reader_inv]:
  "cs_wf cs \<Longrightarrow> cs_wf (packetheader_flush_bits cs)"
  by (simp add: packetheader_flush_bits_def Let_def reader_inv)

lemma packetheader_flush_bits_frame [simp]:
  "cs_chunks (packetheader_flush_bits cs) = cs_chunks cs"
  "cs_staging (packetheader_flush_bits cs) = cs_staging cs"
  by (simp_all add: packetheader_flush_bits_def Let_def)

lemma get_word_frame [simp]:
  "cs_chunks (snd (get_word m cs)) = cs_chunks cs"
  "cs_staging (snd (get_word m cs)) = cs_staging cs"
  by (simp_all add: get_word_def rd_word_def case_prod_beta)

section \<open>Contiguous access\<close>

lemma copy_loop_frame [simp]:
  "cs_chunks (snd (copy_loop m n xs cs)) = cs_chunks cs"
  "cs_staging (snd (copy_loop m n xs cs)) = cs_staging cs"
  "cs_tmp (snd (copy_loop m n xs cs)) = cs_tmp cs"
  "nbits (snd (copy_loop m n xs cs)) = nbits cs"
  by (induction m n xs cs rule: copy_loop.induct;
      subst copy_loop.simps; simp add: Let_def)+

lemma chunk_rest_le_total:
  assumes "cs_wf cs" and "cur_chunk cs < length (cs_chunks cs)"
    and "cur_offset cs + k \<le> cur_len cs"
  shows "cs_pos cs + k \<le> cs_total cs"
proof -
  have "cs_pos cs + k \<le> sum_list (take (Suc (cur_chunk cs)) (map chunk_len (cs_chunks cs)))"
    using assms
    by (simp add: take_Suc_conv_app_nth take_map cs_wf_def cs_walk_def cs_pos_def cur_len_def)
  also have "\<dots> \<le> cs_total cs"
    unfolding cs_total_def by (rule sum_list_take_le)
  finally show ?thesis .
qed

lemma slice_of_chunk:
  assumes "cs_wf cs" and "cur_chunk cs < length (cs_chunks cs)"
    and "cur_offset cs + k \<le> cur_len cs"
  shows "mem_read m (chunk_base (cs_chunks cs ! cur_chunk cs) + cur_offset cs) k
    = map (byte_or_0 (cs_bytes m cs)) [cs_pos cs..<cs_pos cs + k]"
proof (rule nth_equalityI)
  fix i
  assume "i < length (mem_read m (chunk_base (cs_chunks cs ! cur_chunk cs) + cur_offset cs) k)"
  with chunk_rest_le_total [OF assms] cs_bytes_at [OF assms(1,2), of i m] assms(3)
  show "mem_read m (chunk_base (cs_chunks cs ! cur_chunk cs) + cur_offset cs) k ! i
      = map (byte_or_0 (cs_bytes m cs)) [cs_pos cs..<cs_pos cs + k] ! i"
    by (simp add: byte_or_0_def add.assoc)
qed simp

text \<open>The part of the byte string that a read of \<open>n\<close> bytes at \<open>p\<close> covers.\<close>

definition covered :: "byte list \<Rightarrow> nat \<Rightarrow> nat \<Rightarrow> byte list" where
  "covered bs p n = map (byte_or_0 bs) [p..<adv_pos (length bs) p n]"

lemma covered_0 [simp]: "covered bs p 0 = []"
  by (simp add: covered_def)

lemma covered_end: "length bs \<le> p \<Longrightarrow> covered bs p n = []"
  by (simp add: covered_def adv_pos_def)

lemma covered_split:
  "p + k \<le> length bs \<Longrightarrow> k \<le> n \<Longrightarrow>
     covered bs p n = map (byte_or_0 bs) [p..<p + k] @ covered bs (p + k) (n - k)"
  using upt_split [of p "p + k" "adv_pos (length bs) p n"]
  by (auto simp: covered_def adv_pos_def max_def min_def)

lemma copy_loop_spec:
  "cs_wf cs \<Longrightarrow> length copied \<le> n \<Longrightarrow>
     cs_wf (snd (copy_loop m n copied cs))
     \<and> fst (copy_loop m n copied cs)
         = copied @ covered (cs_bytes m cs) (cs_pos cs) (n - length copied)
     \<and> cs_pos (snd (copy_loop m n copied cs))
         = adv_pos (cs_total cs) (cs_pos cs) (n - length copied)"
proof (induction m n copied cs rule: copy_loop.induct)
  case (1 m n copied cs)
  note unf = copy_loop.simps [of m n copied cs]
  show ?case
  proof (cases "length copied < n \<and> cur_chunk cs < length (cs_chunks cs)")
    case False
    with "1.prems" cs_wf_pos_less_total [of cs] show ?thesis
      by (subst (1 2 3) unf) (auto simp: covered_end adv_pos_def)
  next
    case True
    define k where "k = min (n - length copied) (cur_len cs - cur_offset cs)"
    define src where
      "src = mem_read m (chunk_base (cs_chunks cs ! cur_chunk cs) + cur_offset cs) k"
    have off: "cur_offset cs < cur_len cs"
      using "1.prems"(1) True by (simp add: cs_wf_def)
    have k: "cur_offset cs + k \<le> cur_len cs" "k \<le> n - length copied"
      using off by (auto simp: k_def)
    have le: "cs_pos cs + k \<le> cs_total cs"
      using chunk_rest_le_total "1.prems"(1) True k(1) by blast
    have src: "src = map (byte_or_0 (cs_bytes m cs)) [cs_pos cs..<cs_pos cs + k]"
      unfolding src_def using slice_of_chunk "1.prems"(1) True k(1) by blast
    have step: "copy_loop m n copied cs = copy_loop m n (copied @ src) (advance k cs)"
      using True off by (simp add: unf src_def k_def copy_avail_def Let_def min_def)
    have wf: "cs_wf (advance k cs)" "cs_pos (advance k cs) = cs_pos cs + k"
      "cs_total (advance k cs) = cs_total cs"
      using "1.prems"(1) by (simp_all add: cs_wf_advance cs_pos_advance cs_total_def)
    have len: "length (copied @ src) \<le> n" "length src = k"
      using k "1.prems"(2) by (auto simp: src_def)
    have IH: "cs_wf (snd (copy_loop m n (copied @ src) (advance k cs)))
     \<and> fst (copy_loop m n (copied @ src) (advance k cs))
         = (copied @ src) @ covered (cs_bytes m (advance k cs)) (cs_pos (advance k cs))
             (n - length (copied @ src))
     \<and> cs_pos (snd (copy_loop m n (copied @ src) (advance k cs)))
         = adv_pos (cs_total (advance k cs)) (cs_pos (advance k cs)) (n - length (copied @ src))"
      using True off wf(1) len(1)
      by (intro "1.IH") (auto simp: src_def k_def copy_avail_def Let_def min_def)
    have "adv_pos (cs_total cs) (cs_pos cs + k) (n - length copied - k)
        = adv_pos (cs_total cs) (cs_pos cs) (n - length copied)"
      using le k(2) by (auto simp: adv_pos_def)
    moreover have "covered (cs_bytes m cs) (cs_pos cs) (n - length copied)
        = src @ covered (cs_bytes m cs) (cs_pos cs + k) (n - length copied - k)"
      unfolding src using le k(2) by (intro covered_split) auto
    ultimately show ?thesis
      using IH by (simp add: step wf len(2) diff_diff_left)
  qed
qed

lemma length_covered: "p \<le> length bs \<Longrightarrow> length (covered bs p n) = min n (length bs - p)"
  by (auto simp: covered_def adv_pos_def)

lemma covered_padded_nth:
  assumes "p < length bs" and "i < n"
  shows "(covered bs p n @ replicate (n - length (covered bs p n)) 0) ! i = byte_or_0 bs (p + i)"
proof (cases "p + i < length bs")
  case True
  with assms have "i < length (covered bs p n)" by (simp add: length_covered)
  with assms show ?thesis
    by (simp add: nth_append) (simp add: covered_def)
next
  case False
  then have "length bs - p \<le> i" by simp
  with False assms show ?thesis
    by (simp add: nth_append length_covered byte_or_0_def)
qed

lemma take_contiguous_wf [reader_inv]: "cs_wf cs \<Longrightarrow> cs_wf (snd (take_contiguous m n cs))"
  using copy_loop_spec [of cs "[]" n m]
  by (auto simp: take_contiguous_def Let_def case_prod_beta reader_inv)

lemma take_contiguous_frame [simp]:
  "cs_chunks (snd (take_contiguous m n cs)) = cs_chunks cs"
  "cs_tmp (snd (take_contiguous m n cs)) = cs_tmp cs"
  "nbits (snd (take_contiguous m n cs)) = nbits cs"
  by (simp_all add: take_contiguous_def Let_def case_prod_beta)

lemma take_contiguous_pos:
  assumes "cs_wf cs"
  shows "cs_pos (snd (take_contiguous m n cs)) = adv_pos (cs_total cs) (cs_pos cs) n"
proof (cases "cur_chunk cs < length (cs_chunks cs) \<and> cur_offset cs + n \<le> cur_len cs")
  case True
  with chunk_rest_le_total [OF assms, of n] assms show ?thesis
    by (auto simp: take_contiguous_def Let_def cs_pos_advance adv_pos_def)
next
  case False
  with copy_loop_spec [OF assms, of "[]" n m] cs_wf_pos_less_total [OF assms] assms show ?thesis
    by (auto simp: take_contiguous_def Let_def case_prod_beta cs_wf_def adv_pos_def)
qed

lemma take_contiguous_data:
  assumes "cs_wf cs" and "cs_pos cs < cs_total cs" and "i < n"
  shows "data_at m (snd (take_contiguous m n cs)) (fst (take_contiguous m n cs)) i
    = Some (byte_or_0 (cs_bytes m cs) (cs_pos cs + i))"
proof -
  have cur: "cur_chunk cs < length (cs_chunks cs)"
    using assms(1,2) cs_wf_pos_less_total by blast
  show ?thesis
  proof (cases "cur_offset cs + n \<le> cur_len cs")
    case True
    with assms(1,3) cur have "cs_bytes m cs ! (cs_pos cs + i)
        = m (chunk_base (cs_chunks cs ! cur_chunk cs) + cur_offset cs + i)"
      by (intro cs_bytes_at) auto
    moreover have "cs_pos cs + i < cs_total cs"
      using chunk_rest_le_total [OF assms(1) cur True] assms(3) by simp
    ultimately show ?thesis
      using True cur assms(3) by (simp add: take_contiguous_def Let_def data_at_def byte_or_0_def)
  next
    case False
    have "fst (copy_loop m n [] cs) = covered (cs_bytes m cs) (cs_pos cs) n"
      using copy_loop_spec [OF assms(1), of "[]" n m] by simp
    with False cur assms covered_padded_nth [of "cs_pos cs" "cs_bytes m cs" i n] show ?thesis
      by (simp add: take_contiguous_def Let_def case_prod_beta data_at_def length_covered)
  qed
qed

section \<open>Forward reading\<close>

text \<open>
  \<open>keeps\<close>: the chain is the same and stays well formed; \<open>reads\<close>: moreover the cursor did not
  move back. Every parsing step is an instance.
\<close>

definition keeps :: "codestream \<Rightarrow> codestream \<Rightarrow> bool" where
  "keeps cs cs' \<longleftrightarrow> cs_chunks cs' = cs_chunks cs \<and> (cs_wf cs \<longrightarrow> cs_wf cs')"

definition reads :: "codestream \<Rightarrow> codestream \<Rightarrow> bool" where
  "reads cs cs' \<longleftrightarrow> keeps cs cs' \<and> (cs_wf cs \<longrightarrow> cs_pos cs \<le> cs_pos cs')"

lemma keeps_refl [intro, simp]: "keeps cs cs"
  by (simp add: keeps_def)

lemma keeps_trans [trans]: "keeps a b \<Longrightarrow> keeps b c \<Longrightarrow> keeps a c"
  by (auto simp: keeps_def)

lemma reads_refl [intro, simp]: "reads cs cs"
  by (simp add: reads_def)

lemma reads_trans [trans]: "reads a b \<Longrightarrow> reads b c \<Longrightarrow> reads a c"
  by (auto simp: reads_def keeps_def)

lemma reads_keeps: "reads cs cs' \<Longrightarrow> keeps cs cs'"
  by (simp add: reads_def)

lemma keeps_total: "keeps cs cs' \<Longrightarrow> cs_total cs' = cs_total cs"
  by (simp add: keeps_def cs_total_def)

lemma keeps_bytes: "keeps cs cs' \<Longrightarrow> cs_bytes m cs' = cs_bytes m cs"
  by (simp add: keeps_def cs_bytes_def)

lemma adv_pos_mono: "p \<le> adv_pos L p n"
  by (simp add: adv_pos_def)

lemma cs_pos_refill_bits_mono: "cs_wf cs \<Longrightarrow> cs_pos cs \<le> cs_pos (refill_bits m cs)"
proof -
  assume "cs_wf cs"
  then have "cs_wf (cs\<lparr>nbits := k, cs_last := l\<rparr>)" for k l by simp
  from chain.get_pos [OF this, of m] show ?thesis
    by (simp add: refill_bits_def Let_def case_prod_beta adv_pos_mono)
qed

lemma reads_get_byte [reader_inv]: "reads cs (snd (get_byte m cs))"
  and reads_get_word [reader_inv]: "reads cs (snd (get_word m cs))"
  and reads_get_dword [reader_inv]: "reads cs (snd (get_dword m cs))"
  and reads_get_bit [reader_inv]: "reads cs (snd (get_bit m cs))"
  and reads_advance [reader_inv]: "reads cs (advance n cs)"
  and reads_take_contiguous [reader_inv]: "reads cs (snd (take_contiguous m n cs))"
proof -
  show "reads cs (snd (get_byte m cs))"
    using chain.get_pos [of cs m] by (auto simp: reads_def keeps_def reader_inv adv_pos_mono)
  show "reads cs (snd (get_word m cs))"
    by (auto simp: reads_def keeps_def reader_inv reader_simps adv_pos_mono)
  show "reads cs (snd (get_dword m cs))"
    by (auto simp: reads_def keeps_def reader_inv reader_simps adv_pos_mono get_dword_def
        rd_dword_def case_prod_beta Let_def simp flip: get_word_def)
  show "reads cs (snd (get_bit m cs))"
    using cs_pos_refill_bits_mono [of cs m]
    by (auto simp: reads_def keeps_def get_bit_wf) (simp add: get_bit_def Let_def)
  show "reads cs (advance n cs)"
    by (auto simp: reads_def keeps_def reader_inv reader_simps)
  show "reads cs (snd (take_contiguous m n cs))"
    by (auto simp: reads_def keeps_def reader_inv take_contiguous_pos adv_pos_mono)
qed

lemma reads_get_bits_loop: "reads cs (snd (get_bits_loop m n res cs))"
proof (induction n arbitrary: res cs)
  case 0
  show ?case by simp
next
  case (Suc n)
  have "reads cs (snd (get_bit m cs))" by (rule reads_get_bit)
  also note Suc
  finally show ?case by (simp add: case_prod_beta)
qed

lemma reads_packetheader_get_bits [reader_inv]: "reads cs (snd (packetheader_get_bits m n cs))"
  by (simp add: packetheader_get_bits_def reads_get_bits_loop)

lemma reads_packetheader_flush_bits [reader_inv]: "reads cs (packetheader_flush_bits cs)"
  by (auto simp: reads_def keeps_def reader_inv reader_simps packetheader_flush_bits_def Let_def)

lemma reads_steps [reads_step]:
  "reads a b \<Longrightarrow> reads a (snd (get_byte m b))"
  "reads a b \<Longrightarrow> reads a (snd (get_word m b))"
  "reads a b \<Longrightarrow> reads a (snd (get_dword m b))"
  "reads a b \<Longrightarrow> reads a (snd (get_bit m b))"
  "reads a b \<Longrightarrow> reads a (snd (packetheader_get_bits m n b))"
  "reads a b \<Longrightarrow> reads a (snd (take_contiguous m n b))"
  "reads a b \<Longrightarrow> reads a (packetheader_flush_bits b)"
  by (erule reads_trans, rule reader_inv)+

lemma reads_if [reads_step]:
  "reads a (snd x) \<Longrightarrow> reads a (snd y) \<Longrightarrow> reads a (snd (if c then x else y))"
  "reads a b \<Longrightarrow> reads a b' \<Longrightarrow> reads a (if c then b else b')"
  by simp_all

lemma reads_pair [reads_step]: "reads a b \<Longrightarrow> reads a (snd (x, b))"
  by simp

lemma keeps_reset [reader_inv]: "keeps cs (reset p cs)"
  by (simp add: keeps_def cs_wf_reset)

section \<open>Properties of the chain reader\<close>

text \<open>A small chain used by the witnesses: five bytes of memory in two chunks.\<close>

definition demo_mem :: memory where
  "demo_mem a = word_of_nat a"

definition demo_chain :: codestream where
  "demo_chain = append_chunk 20 3 (append_chunk 10 2 codestream_init)"

lemma demo_chain_wf [simp]: "cs_wf demo_chain"
  by (simp add: demo_chain_def cs_wf_def cs_walk_def append_chunk_def codestream_init_def cur_len_def)

lemma demo_chain_total [simp]: "cs_total demo_chain = 5"
  by (simp add: demo_chain_def cs_total_def append_chunk_def codestream_init_def)

lemma demo_chain_pos [simp]: "cs_pos demo_chain = 0"
  by (simp add: demo_chain_def cs_pos_def append_chunk_def codestream_init_def)

lemma demo_chain_bytes [simp]: "cs_bytes demo_mem demo_chain = [10, 11, 20, 21, 22]"
  by (simp add: demo_chain_def cs_bytes_def append_chunk_def codestream_init_def chunk_bytes_def
      mem_read_def demo_mem_def upt_rec)

text \<open>
  C9: The chain reader behaves as a flat byte string with a position: bytes, 16-bit words and
  32-bit words are read big-endian at the absolute position whatever the chunk boundaries,
  reads past the end deliver zeros without moving, and the cursor stays well formed.
\<close>

theorem chain_reads_flat_bytes:
  assumes "cs_wf cs"
  shows "fst (get_byte m cs) = byte_or_0 (cs_bytes m cs) (cs_pos cs)
    \<and> cs_pos (snd (get_byte m cs)) = adv_pos (cs_total cs) (cs_pos cs) 1
    \<and> fst (get_word m cs) = be16 (cs_bytes m cs) (cs_pos cs)
    \<and> cs_pos (snd (get_word m cs)) = adv_pos (cs_total cs) (cs_pos cs) 2
    \<and> fst (get_dword m cs) = be32 (cs_bytes m cs) (cs_pos cs)
    \<and> cs_pos (snd (get_dword m cs)) = adv_pos (cs_total cs) (cs_pos cs) 4
    \<and> cs_wf (snd (get_byte m cs)) \<and> cs_wf (snd (get_word m cs)) \<and> cs_wf (snd (get_dword m cs))"
  using assms chain.get_val [OF assms] chain.get_pos [OF assms, of m]
  by (simp add: reader_simps reader_inv)

theorem chain_reads_flat_bytes_witness:
  "cs_wf demo_chain \<and> fst (get_dword demo_mem demo_chain) = 0x0A0B1415
    \<and> cs_pos (snd (get_dword demo_mem demo_chain)) = 4"
  using chain_reads_flat_bytes [OF demo_chain_wf, of demo_mem]
  by (simp add: be32_def be16_def byte_or_0_def adv_pos_def)

text \<open>
  C10: \<open>packetheader_get_bits\<close> delivers the next bits of the unstuffed packet header, most
  significant first, and leaves the rest: the bit after each \<open>0xFF\<close> byte never reaches the
  parser, also where the byte and its successor lie in different chunks.
\<close>

theorem packetheader_get_bits_unstuffed:
  assumes "cs_wf cs" and "cs_bits m cs = xs @ ys"
  shows "fst (packetheader_get_bits m (length xs) cs) = word_of_nat (bits_val 0 xs)
    \<and> cs_bits m (snd (packetheader_get_bits m (length xs) cs)) = ys
    \<and> cs_wf (snd (packetheader_get_bits m (length xs) cs))"
  using get_bits_loop_append [OF assms, of 0 0] by (simp add: packetheader_get_bits_def)

definition stuffed_mem :: memory where
  "stuffed_mem a = (if a = 11 then 0xFF else 0x55)"

theorem packetheader_get_bits_unstuffed_witness:
  "fst (packetheader_get_bits stuffed_mem 18 demo_chain) = word_of_nat (bits_val 0
     (low_bits 8 0x55 @ low_bits 8 0xFF @ [True, False]))"
proof -
  let ?ys = "[True, False, True, False, True] @ unstuff 0x55 [0x55, 0x55]"
  have b: "cs_bits stuffed_mem demo_chain
      = (low_bits 8 0x55 @ low_bits 8 0xFF @ [True, False]) @ ?ys"
    by code_simp
  show ?thesis
    using packetheader_get_bits_unstuffed [OF demo_chain_wf b] by simp
qed

text \<open>
  C34: \<open>take_contiguous\<close> on a cursor inside the chain returns a usable pointer: through it the
  caller sees exactly the next \<open>len\<close> bytes of the codestream, whether they lie in one chunk
  (direct pointer) or span several (staging copy), zero padded where the chain ends early; the
  cursor moves over them and the chain stays well formed.
\<close>

theorem take_contiguous_correct:
  assumes "cs_wf cs" and "cs_pos cs < cs_total cs"
  shows "(\<forall>i < n. data_at m (snd (take_contiguous m n cs)) (fst (take_contiguous m n cs)) i
        = Some (byte_or_0 (cs_bytes m cs) (cs_pos cs + i)))
    \<and> cs_pos (snd (take_contiguous m n cs)) = min (cs_pos cs + n) (cs_total cs)
    \<and> cs_wf (snd (take_contiguous m n cs))"
  using assms take_contiguous_data [OF assms]
  by (auto simp: take_contiguous_pos take_contiguous_wf adv_pos_def)

theorem take_contiguous_correct_witness:
  "data_at demo_mem (snd (take_contiguous demo_mem 7 demo_chain))
      (fst (take_contiguous demo_mem 7 demo_chain)) 4 = Some 22
    \<and> data_at demo_mem (snd (take_contiguous demo_mem 7 demo_chain))
      (fst (take_contiguous demo_mem 7 demo_chain)) 6 = Some 0
    \<and> cs_pos (snd (take_contiguous demo_mem 7 demo_chain)) = 5"
  using take_contiguous_correct [OF demo_chain_wf, of 7 demo_mem]
  by (simp add: byte_or_0_def)

text \<open>
  Seeking: \<open>reset\<close> puts the cursor at any absolute position, inside or past the end of the
  chain, \<open>advance\<close> moves it by exactly the given distance, and both keep the chain and its
  well-formedness; \<open>reset\<close> also empties the bit buffer.
\<close>

theorem seek_absolute:
  assumes "cs_wf cs"
  shows "cs_pos (reset p cs) = unat p \<and> cs_wf (reset p cs) \<and> nbits (reset p cs) = 0
    \<and> cs_tmp (reset p cs) = 0 \<and> cs_bytes m (reset p cs) = cs_bytes m cs
    \<and> cs_pos (advance n cs) = cs_pos cs + n \<and> cs_wf (advance n cs)
    \<and> cs_bytes m (advance n cs) = cs_bytes m cs"
  using assms by (simp add: cs_pos_reset cs_wf_reset cs_pos_advance cs_wf_advance
      cs_bytes_cong [of "reset p cs" cs])

theorem seek_absolute_witness:
  "cs_pos (reset 3 demo_chain) = 3 \<and> cur_chunk (reset 3 demo_chain) = 1
    \<and> cs_pos (advance 9 demo_chain) = 9"
proof -
  have "cur_chunk (reset 3 demo_chain) = 1"
    by (simp add: reset_def demo_chain_def append_chunk_def codestream_init_def
        skip_chunks.simps next_chunk_def cur_len_def)
  then show ?thesis
    using seek_absolute [OF demo_chain_wf, of 3 demo_mem 9] by simp
qed

text \<open>
  C38: A zero-length chunk traps the reader: \<open>get_byte\<close> tests for the end of the chunk only by
  equality after the increment, so on an empty chunk every read moves further past its base
  and the cursor never reaches the next chunk.
\<close>

theorem zero_length_chunk_runaway:
  assumes "cur_chunk cs < length (cs_chunks cs)" and "cur_len cs = 0" and "cur_offset cs = 0"
  shows "((\<lambda>cs. snd (get_byte m cs)) ^^ n) cs = cs\<lparr>cur_offset := n\<rparr>"
proof (induction n)
  case 0
  then show ?case using assms(3) by simp
next
  case (Suc n)
  then show ?case
    using assms by (simp add: get_byte_def Let_def cur_len_def)
qed

theorem zero_length_chunk_runaway_witness:
  "cur_offset (((\<lambda>cs. snd (get_byte demo_mem cs)) ^^ 100)
     (append_chunk 20 3 (append_chunk 10 0 codestream_init))) = 100"
proof -
  let ?cs = "append_chunk 20 3 (append_chunk 10 0 codestream_init)"
  have "cur_chunk ?cs < length (cs_chunks ?cs)" "cur_len ?cs = 0" "cur_offset ?cs = 0"
    by (simp_all add: append_chunk_def codestream_init_def cur_len_def)
  from zero_length_chunk_runaway [OF this, where m = demo_mem and n = 100] show ?thesis by simp
qed

end
