(* ===== verification/J2k_Header.thy ===== *)
theory J2k_Header
  imports Codestream
begin

text \<open>
  The main-header parser \<open>src/packet_parser/j2k_header.cpp\<close> and the marker structures of
  \<open>type.hpp\<close> it fills: \<open>parse_SIZ\<close>, \<open>parse_COD\<close>, \<open>copy_cod\<close>, \<open>parse_COC\<close>, \<open>parse_DFS\<close>,
  \<open>parse_QCD\<close>, \<open>parse_CAP\<close>, \<open>skip_marker\<close>, the marker loop \<open>parse_main_header\<close>, and the
  re-latch signature \<open>geometry_signature\<close>.

  Each parser takes the memory and the reader and returns the reader, the structure it wrote
  and, where the code distinguishes it, the exit status (\<open>True\<close> for \<open>EXIT_SUCCESS\<close>). The
  caller ignores those statuses, and so does the model of the caller. Writing outside one of
  the fixed arrays is undefined, hence \<open>None\<close>.
\<close>

section \<open>Marker structures\<close>

abbreviation (input) MAX_NUM_COMPONENTS :: nat where "MAX_NUM_COMPONENTS \<equiv> 3"
abbreviation (input) MAX_DWT_LEVEL :: nat where "MAX_DWT_LEVEL \<equiv> 5"

record siz_marker =
  Rsiz :: u16
  Xsiz :: u32
  Ysiz :: u32
  XOsiz :: u32
  YOsiz :: u32
  XTsiz :: u32
  YTsiz :: u32
  XTOsiz :: u32
  YTOsiz :: u32
  Csiz :: u16
  Ssiz :: "byte list"
  XRsiz :: "byte list"
  YRsiz :: "byte list"

record cod_marker =
  max_precinct :: byte
  use_SOP :: byte
  use_EPH :: byte
  use_h_offset :: byte
  use_v_offset :: byte
  use_blkcoder_extension :: byte
  progression_order :: byte
  num_layers :: u16
  mct :: byte
  NL :: byte
  cbw :: byte
  cbh :: byte
  cbs :: byte
  transform :: byte
  SSO :: u16
  prw :: "byte list"
  prh :: "byte list"

text \<open>\<open>coc_marker\<close> repeats the fields of \<open>cod_marker\<close> and adds three.\<close>

record coc_marker = cod_marker +
  coc_idx :: byte
  coc_step_x :: int
  coc_step_y :: int

record qcd_marker =
  qcd_type :: byte
  num_guard_bits :: byte
  exponent :: "byte list"
  mantissa :: "u16 list"

record dfs_marker =
  dfs_idx :: u32
  Idfs :: u32
  dfs_type :: "u32 list"
  h_orient :: "u32 list"
  v_orient :: "u32 list"
  hor_depth :: "u32 list"
  ver_depth :: "u32 list"

text \<open>Everything \<open>parse_main_header\<close> writes, the two file-scope capability words included.\<close>

record main_header =
  mh_siz :: siz_marker
  mh_cod :: cod_marker
  mh_cocs :: "coc_marker list"
  mh_qcd :: qcd_marker
  mh_dfs :: dfs_marker
  g_Ccap15 :: u16
  g_Ccap2 :: u16

definition siz_zero :: siz_marker where
  "siz_zero = \<lparr>Rsiz = 0, Xsiz = 0, Ysiz = 0, XOsiz = 0, YOsiz = 0, XTsiz = 0, YTsiz = 0,
     XTOsiz = 0, YTOsiz = 0, Csiz = 0, Ssiz = [0, 0, 0], XRsiz = [0, 0, 0], YRsiz = [0, 0, 0]\<rparr>"

definition cod_zero :: cod_marker where
  "cod_zero = \<lparr>max_precinct = 0, use_SOP = 0, use_EPH = 0, use_h_offset = 0, use_v_offset = 0,
     use_blkcoder_extension = 0, progression_order = 0, num_layers = 0, mct = 0, NL = 0, cbw = 0,
     cbh = 0, cbs = 0, transform = 0, SSO = 0, prw = replicate 6 0, prh = replicate 6 0\<rparr>"

definition coc_zero :: coc_marker where
  "coc_zero = cod_marker.extend cod_zero \<lparr>coc_idx = 0, coc_step_x = 0, coc_step_y = 0\<rparr>"

definition qcd_zero :: qcd_marker where
  "qcd_zero = \<lparr>qcd_type = 0, num_guard_bits = 0, exponent = replicate 16 0,
     mantissa = replicate 16 0\<rparr>"

definition dfs_zero :: dfs_marker where
  "dfs_zero = \<lparr>dfs_idx = 0, Idfs = 0, dfs_type = replicate 6 0, h_orient = replicate 6 0,
     v_orient = replicate 6 0, hor_depth = replicate 6 0, ver_depth = replicate 6 0\<rparr>"

definition main_header_zero :: main_header where
  "main_header_zero = \<lparr>mh_siz = siz_zero, mh_cod = cod_zero,
     mh_cocs = replicate MAX_NUM_COMPONENTS coc_zero, mh_qcd = qcd_zero, mh_dfs = dfs_zero,
     g_Ccap15 = 0, g_Ccap2 = 0\<rparr>"

text \<open>Marker codes (\<open>enum j2kmarker\<close>), as far as the parser names them.\<close>

abbreviation (input) "SOC \<equiv> (0xFF4F :: u16)"
abbreviation (input) "SOD \<equiv> (0xFF93 :: u16)"
abbreviation (input) "EOC \<equiv> (0xFFD9 :: u16)"
abbreviation (input) "SIZ \<equiv> (0xFF51 :: u16)"
abbreviation (input) "CAP \<equiv> (0xFF50 :: u16)"
abbreviation (input) "COD \<equiv> (0xFF52 :: u16)"
abbreviation (input) "COC \<equiv> (0xFF53 :: u16)"
abbreviation (input) "QCD \<equiv> (0xFF5C :: u16)"
abbreviation (input) "QCC \<equiv> (0xFF5D :: u16)"
abbreviation (input) "DFS \<equiv> (0xFF72 :: u16)"
abbreviation (input) "ATK \<equiv> (0xFF79 :: u16)"

section \<open>Segment parsers\<close>

definition parse_SIZ :: "memory \<Rightarrow> codestream \<Rightarrow> siz_marker \<Rightarrow> bool \<times> siz_marker \<times> codestream" where
  "parse_SIZ m cs siz =
     (let (len, cs) = get_word m cs;
          (v, cs) = get_word m cs; siz = siz\<lparr>Rsiz := v\<rparr>;
          (v, cs) = get_dword m cs; siz = siz\<lparr>Xsiz := v\<rparr>;
          (v, cs) = get_dword m cs; siz = siz\<lparr>Ysiz := v\<rparr>;
          (v, cs) = get_dword m cs; siz = siz\<lparr>XOsiz := v\<rparr>;
          (v, cs) = get_dword m cs; siz = siz\<lparr>YOsiz := v\<rparr>;
          (v, cs) = get_dword m cs; siz = siz\<lparr>XTsiz := v\<rparr>;
          (v, cs) = get_dword m cs; siz = siz\<lparr>YTsiz := v\<rparr>;
          (v, cs) = get_dword m cs; siz = siz\<lparr>XTOsiz := v\<rparr>;
          (v, cs) = get_dword m cs; siz = siz\<lparr>YTOsiz := v\<rparr>;
          (v, cs) = get_word m cs; siz = siz\<lparr>Csiz := v\<rparr>
      in if Csiz siz \<noteq> 3 then (False, siz, cs)
         else let (s0, cs) = get_byte m cs; (x0, cs) = get_byte m cs; (y0, cs) = get_byte m cs;
                  (s1, cs) = get_byte m cs; (x1, cs) = get_byte m cs; (y1, cs) = get_byte m cs;
                  (s2, cs) = get_byte m cs; (x2, cs) = get_byte m cs; (y2, cs) = get_byte m cs
              in (True, siz\<lparr>Ssiz := [s0, s1, s2], XRsiz := [x0, x1, x2], YRsiz := [y0, y1, y2]\<rparr>, cs))"

text \<open>
  The precinct-size loops of COD and COC: \<open>n\<close> bytes, the \<open>i\<close>-th into \<open>prw[i]\<close> and \<open>prh[i]\<close>.
\<close>

primrec read_precincts ::
  "memory \<Rightarrow> nat \<Rightarrow> nat \<Rightarrow> byte list \<times> byte list \<Rightarrow> codestream \<Rightarrow>
     ((byte list \<times> byte list) \<times> codestream) option" where
  "read_precincts m 0 i pp cs = Some (pp, cs)"
| "read_precincts m (Suc n) i pp cs =
     (let (v, cs) = get_byte m cs in
      do { pw \<leftarrow> arr_set (fst pp) i (v AND 0xF);
           ph \<leftarrow> arr_set (snd pp) i (drop_bit 4 v AND 0xF);
           read_precincts m n (Suc i) (pw, ph) cs })"

definition scod_flags :: "byte \<Rightarrow> 'a cod_marker_scheme \<Rightarrow> 'a cod_marker_scheme" where
  "scod_flags v cod = cod\<lparr>max_precinct := (if v AND 1 = 0 then 1 else 0),
     use_SOP := drop_bit 1 v AND 1, use_EPH := drop_bit 2 v AND 1,
     use_h_offset := drop_bit 3 v AND 1, use_v_offset := drop_bit 4 v AND 1,
     use_blkcoder_extension := drop_bit 5 v AND 1\<rparr>"

definition parse_COD :: "memory \<Rightarrow> codestream \<Rightarrow> siz_marker \<Rightarrow> cod_marker \<Rightarrow>
    (bool \<times> cod_marker \<times> codestream) option" where
  "parse_COD m cs siz cod =
     (let (len, cs) = get_word m cs;
          (v, cs) = get_byte m cs; cod = scod_flags v cod;
          (v, cs) = get_byte m cs; cod = cod\<lparr>progression_order := v\<rparr>;
          (w, cs) = get_word m cs; cod = cod\<lparr>num_layers := w\<rparr>;
          (v, cs) = get_byte m cs; cod = cod\<lparr>mct := v\<rparr>;
          (v, cs) = get_byte m cs; cod = cod\<lparr>NL := v\<rparr>;
          (v, cs) = get_byte m cs; cod = cod\<lparr>cbw := v + 2\<rparr>;
          (v, cs) = get_byte m cs; cod = cod\<lparr>cbh := v + 2\<rparr>
      in if 4 < cbh cod then Some (False, cod, cs)
         else let (v, cs) = get_byte m cs; cod = cod\<lparr>cbs := v\<rparr>;
                  (v, cs) = get_byte m cs; cod = cod\<lparr>transform := v\<rparr>;
                  cs = (if Rsiz siz AND 0x10 \<noteq> 0 then snd (get_word m cs) else cs)
              in do { ((pw, ph), cs) \<leftarrow> read_precincts m (Suc (unat (NL cod))) 0 (prw cod, prh cod) cs;
                      Some (True, cod\<lparr>prw := pw, prh := ph\<rparr>, cs) })"

primrec copy_upto :: "nat \<Rightarrow> 'a list \<Rightarrow> 'a list \<Rightarrow> 'a list option" where
  "copy_upto 0 src dst = Some dst"
| "copy_upto (Suc n) src dst =
     do { dst \<leftarrow> copy_upto n src dst; v \<leftarrow> arr_get src n; arr_set dst n v }"

definition copy_cod :: "cod_marker \<Rightarrow> coc_marker \<Rightarrow> coc_marker option" where
  "copy_cod cod coc =
     do { pw \<leftarrow> copy_upto (Suc (unat (NL cod))) (prw cod) (prw coc);
          ph \<leftarrow> copy_upto (Suc (unat (NL cod))) (prh cod) (prh coc);
          Some (coc\<lparr>max_precinct := max_precinct cod, use_SOP := use_SOP cod,
            use_EPH := use_EPH cod, use_h_offset := use_h_offset cod,
            use_v_offset := use_v_offset cod,
            use_blkcoder_extension := use_blkcoder_extension cod,
            progression_order := progression_order cod, num_layers := num_layers cod,
            mct := mct cod, NL := NL cod, cbw := cbw cod, cbh := cbh cod,
            transform := transform cod, cbs := cbs cod, SSO := SSO cod,
            prw := pw, prh := ph\<rparr>) }"

text \<open>The precinct loop of COC also tracks the smallest exponents.\<close>

primrec read_coc_precincts ::
  "memory \<Rightarrow> nat \<Rightarrow> nat \<Rightarrow> coc_marker \<Rightarrow> codestream \<Rightarrow> (coc_marker \<times> codestream) option" where
  "read_coc_precincts m 0 i coc cs = Some (coc, cs)"
| "read_coc_precincts m (Suc n) i coc cs =
     (let (v, cs) = get_byte m cs; w = v AND 0xF; h = drop_bit 4 v AND 0xF in
      do { pw \<leftarrow> arr_set (prw coc) i w;
           ph \<leftarrow> arr_set (prh coc) i h;
           read_coc_precincts m n (Suc i)
             (coc\<lparr>prw := pw, prh := ph,
                coc_step_x := (if uint w < coc_step_x coc then uint w else coc_step_x coc),
                coc_step_y := (if uint h < coc_step_y coc then uint h else coc_step_y coc)\<rparr>) cs })"

definition parse_COC :: "memory \<Rightarrow> codestream \<Rightarrow> siz_marker \<Rightarrow> coc_marker list \<Rightarrow>
    (bool \<times> coc_marker list \<times> codestream) option" where
  "parse_COC m cs siz cocs =
     (let (w, cs) = get_word m cs; len = w - 2;
          (c, cs) = get_byte m cs; len = len - 1
      in do { coc \<leftarrow> arr_get cocs (unat c);
          let coc = coc\<lparr>coc_idx := c\<rparr>;
          let (v, cs) = get_byte m cs; let len = len - 1; let coc = scod_flags v coc;
          let (v, cs) = get_byte m cs; let len = len - 1; let coc = coc\<lparr>NL := v\<rparr>;
          let (v, cs) = get_byte m cs; let len = len - 1; let coc = coc\<lparr>cbw := v + 2\<rparr>;
          let (v, cs) = get_byte m cs; let len = len - 1; let coc = coc\<lparr>cbh := v + 2\<rparr>;
          if 4 < cbh coc then Some (False, cocs[unat c := coc], cs)
          else do {
            let (v, cs) = get_byte m cs; let len = len - 1; let coc = coc\<lparr>cbs := v\<rparr>;
            let (v, cs) = get_byte m cs; let len = len - 1; let coc = coc\<lparr>transform := v\<rparr>;
            let cs = (if Rsiz siz AND 0x10 \<noteq> 0 then snd (get_word m cs) else cs);
            (coc, cs) \<leftarrow> read_coc_precincts m (unat len) 0
              (coc\<lparr>coc_step_x := 16, coc_step_y := 16\<rparr>) cs;
            Some (True, cocs[unat c := coc], cs) } })"

primrec read_dfs_bits :: "memory \<Rightarrow> nat \<Rightarrow> u64 \<Rightarrow> codestream \<Rightarrow> u64 \<times> codestream" where
  "read_dfs_bits m 0 bits cs = (bits, cs)"
| "read_dfs_bits m (Suc n) bits cs =
     (let (v, cs) = get_byte m cs in read_dfs_bits m n (push_bit 8 bits OR ucast v) cs)"

definition dfs_ho :: "u32 list" where "dfs_ho = [0, 0, 0, 1]"
definition dfs_vo :: "u32 list" where "dfs_vo = [0, 0, 1, 0]"

text \<open>The loop from \<open>i = Idfs\<close> down to 1 that takes two bits per level.\<close>

primrec dfs_types :: "nat \<Rightarrow> u64 \<Rightarrow> dfs_marker \<Rightarrow> dfs_marker option" where
  "dfs_types 0 bits dfs = Some dfs"
| "dfs_types (Suc i) bits dfs =
     (let t = ucast (bits AND 3) in
      do { ty \<leftarrow> arr_set (dfs_type dfs) (Suc i) t;
           h \<leftarrow> arr_get dfs_ho (unat t);
           v \<leftarrow> arr_get dfs_vo (unat t);
           ho \<leftarrow> arr_set (h_orient dfs) (Suc i) h;
           vo \<leftarrow> arr_set (v_orient dfs) (Suc i) v;
           dfs_types i (drop_bit 2 bits) (dfs\<lparr>dfs_type := ty, h_orient := ho, v_orient := vo\<rparr>) })"

text \<open>\<open>D\<close> counts the levels \<open>1..lev\<close> whose orientation entry is zero.\<close>

definition dfs_depth :: "u32 list \<Rightarrow> nat \<Rightarrow> u32" where
  "dfs_depth orient lev = word_of_nat (length (filter (\<lambda>l. orient ! l = 0) [1..<Suc lev]))"

primrec dfs_depths :: "u32 list \<Rightarrow> nat \<Rightarrow> u32 list \<Rightarrow> u32 list option" where
  "dfs_depths orient 0 dst = Some dst"
| "dfs_depths orient (Suc n) dst =
     do { dst \<leftarrow> dfs_depths orient n dst; arr_set dst n (dfs_depth orient n) }"

definition parse_DFS :: "memory \<Rightarrow> codestream \<Rightarrow> dfs_marker \<Rightarrow> (bool \<times> dfs_marker \<times> codestream) option" where
  "parse_DFS m cs dfs =
     (let (len, cs) = get_word m cs
      in if len < 5 then Some (False, dfs, cs)
         else let (w, cs) = get_word m cs; dfs = dfs\<lparr>dfs_idx := ucast w\<rparr>;
                  (v, cs) = get_byte m cs; dfs = dfs\<lparr>Idfs := ucast v\<rparr>;
                  (bits, cs) = read_dfs_bits m (unat len - 5) 0 cs;
                  pad = ((2 * Idfs dfs + 7) div 8) * 8 - 2 * Idfs dfs;
                  bits = drop_bit (unat pad) bits
              in do { dfs \<leftarrow> dfs_types (unat (Idfs dfs)) bits dfs;
                      hd \<leftarrow> dfs_depths (h_orient dfs) (Suc (unat (Idfs dfs))) (hor_depth dfs);
                      vd \<leftarrow> dfs_depths (v_orient dfs) (Suc (unat (Idfs dfs))) (ver_depth dfs);
                      Some (True, dfs\<lparr>hor_depth := hd, ver_depth := vd\<rparr>, cs) })"

abbreviation (input) "BOTH \<equiv> (1 :: u32)"
abbreviation (input) "HORZ \<equiv> (2 :: u32)"
abbreviation (input) "VERT \<equiv> (3 :: u32)"

text \<open>
  One quantizer entry at index \<open>k\<close>: a byte for the reversible style, a word otherwise.
\<close>

definition read_qcd_entry :: "memory \<Rightarrow> nat \<Rightarrow> qcd_marker \<times> codestream \<Rightarrow> (qcd_marker \<times> codestream) option" where
  "read_qcd_entry m k qc =
     (let (qcd, cs) = qc in
      if qcd_type qcd = 0
      then let (v, cs) = get_byte m cs in
           do { ex \<leftarrow> arr_set (exponent qcd) k (drop_bit 3 v); Some (qcd\<lparr>exponent := ex\<rparr>, cs) }
      else let (w, cs) = get_word m cs in
           do { ex \<leftarrow> arr_set (exponent qcd) k (ucast (drop_bit 11 w));
                ma \<leftarrow> arr_set (mantissa qcd) k (w AND 0x7FF);
                Some (qcd\<lparr>exponent := ex, mantissa := ma\<rparr>, cs) })"

text \<open>The level loop \<open>i = 1 .. NL\<close>, started with \<open>n = NL\<close> levels to go.\<close>

primrec read_qcd_levels ::
  "memory \<Rightarrow> dfs_marker \<Rightarrow> nat \<Rightarrow> nat \<Rightarrow> qcd_marker \<times> codestream \<Rightarrow> (qcd_marker \<times> codestream) option" where
  "read_qcd_levels m dfs 0 i qc = Some qc"
| "read_qcd_levels m dfs (Suc n) i qc =
     do { t \<leftarrow> arr_get (dfs_type dfs) i;
          qc \<leftarrow> read_qcd_entry m (3 * (i - 1) + 1) qc;
          qc \<leftarrow> (if t = BOTH
                 then do { qc \<leftarrow> read_qcd_entry m (3 * (i - 1) + 2) qc;
                           read_qcd_entry m (3 * (i - 1) + 3) qc }
                 else Some qc);
          read_qcd_levels m dfs n (Suc i) qc }"

definition parse_QCD :: "memory \<Rightarrow> codestream \<Rightarrow> cod_marker \<Rightarrow> qcd_marker \<Rightarrow> dfs_marker \<Rightarrow>
    (qcd_marker \<times> codestream) option" where
  "parse_QCD m cs cod qcd dfs =
     (let (len, cs) = get_word m cs;
          (Sqcd, cs) = get_byte m cs;
          qcd = qcd\<lparr>qcd_type := Sqcd AND 0x1F, num_guard_bits := drop_bit 5 Sqcd AND 7\<rparr>;
          nl = (if qcd_type qcd = 1 then 1 else unat (NL cod))
      in do { qc \<leftarrow> read_qcd_entry m 0 (qcd, cs); read_qcd_levels m dfs nl 1 qc })"

primrec skip_bytes :: "memory \<Rightarrow> nat \<Rightarrow> codestream \<Rightarrow> codestream" where
  "skip_bytes m 0 cs = cs"
| "skip_bytes m (Suc n) cs = skip_bytes m n (snd (get_byte m cs))"

definition skip_marker :: "memory \<Rightarrow> codestream \<Rightarrow> codestream" where
  "skip_marker m cs = (let (len, cs) = get_word m cs in skip_bytes m (unat len - 2) cs)"

text \<open>The capability loop over \<open>i < 32\<close>, started with \<open>n = 32\<close> parts to go.\<close>

primrec read_caps :: "memory \<Rightarrow> u32 \<Rightarrow> nat \<Rightarrow> u16 \<times> u16 \<times> u16 \<times> codestream \<Rightarrow> u16 \<times> u16 \<times> u16 \<times> codestream" where
  "read_caps m Pcap 0 st = st"
| "read_caps m Pcap (Suc n) st =
     read_caps m Pcap n
       (let (cap15, cap2, read_words, cs) = st; i = 31 - n in
        if bit Pcap (31 - i)
        then let (v, cs) = get_word m cs
             in (if i = 14 then v else cap15, if i = 1 then v else cap2, read_words + 1, cs)
        else st)"

definition parse_CAP :: "memory \<Rightarrow> codestream \<Rightarrow> u16 \<Rightarrow> u16 \<Rightarrow> u16 \<times> u16 \<times> codestream" where
  "parse_CAP m cs cap15 cap2 =
     (let (Lcap, cs) = get_word m cs;
          (Pcap, cs) = get_dword m cs;
          expected_words = (if 6 \<le> Lcap then (Lcap - 6) div 2 else 0);
          (cap15, cap2, read_words, cs) = read_caps m Pcap 32 (cap15, cap2, 0, cs)
      in (cap15, cap2, skip_bytes m (2 * (unat expected_words - unat read_words)) cs))"

section \<open>The main header\<close>

definition parse_segment :: "memory \<Rightarrow> u16 \<Rightarrow> main_header \<Rightarrow> codestream \<Rightarrow> (main_header \<times> codestream) option" where
  "parse_segment m marker h cs =
     (if marker = SIZ
      then let (ret, siz, cs) = parse_SIZ m cs (mh_siz h) in Some (h\<lparr>mh_siz := siz\<rparr>, cs)
      else if marker = CAP
      then let (c15, c2, cs) = parse_CAP m cs (g_Ccap15 h) (g_Ccap2 h)
           in Some (h\<lparr>g_Ccap15 := c15, g_Ccap2 := c2\<rparr>, cs)
      else if marker = COD
      then do { (ret, cod, cs) \<leftarrow> parse_COD m cs (mh_siz h) (mh_cod h);
                coc0 \<leftarrow> copy_cod cod (mh_cocs h ! 0);
                coc1 \<leftarrow> copy_cod cod (mh_cocs h ! 1);
                coc2 \<leftarrow> copy_cod cod (mh_cocs h ! 2);
                Some (h\<lparr>mh_cod := cod, mh_cocs := [coc0, coc1, coc2]\<rparr>, cs) }
      else if marker = QCD
      then do { (qcd, cs) \<leftarrow> parse_QCD m cs (mh_cod h) (mh_qcd h) (mh_dfs h);
                Some (h\<lparr>mh_qcd := qcd\<rparr>, cs) }
      else if marker = COC
      then do { (ret, cocs, cs) \<leftarrow> parse_COC m cs (mh_siz h) (mh_cocs h);
                Some (h\<lparr>mh_cocs := cocs\<rparr>, cs) }
      else if marker = DFS
      then do { (ret, dfs, cs) \<leftarrow> parse_DFS m cs (mh_dfs h); Some (h\<lparr>mh_dfs := dfs\<rparr>, cs) }
      else Some (h, skip_marker m cs))"

definition bad_marker :: "u16 \<Rightarrow> bool" where
  "bad_marker marker \<longleftrightarrow> marker AND 0xFF00 \<noteq> 0xFF00 \<or> marker = EOC"

text \<open>
  The marker loop with fuel: the outer \<open>None\<close> is running out of fuel, the inner one undefined
  behaviour in a segment parser.
\<close>

primrec marker_loop :: "memory \<Rightarrow> nat \<Rightarrow> main_header \<Rightarrow> codestream \<Rightarrow>
    (bool \<times> main_header \<times> codestream) option option" where
  "marker_loop m 0 h cs = None"
| "marker_loop m (Suc fuel) h cs =
     (let (marker, cs) = get_word m cs
      in if marker = SOD then Some (Some (True, h, cs))
         else if bad_marker marker then Some (Some (False, h, cs))
         else case parse_segment m marker h cs of
                None \<Rightarrow> Some None
              | Some (h, cs) \<Rightarrow> marker_loop m fuel h cs)"

text \<open>
  \<open>parse_main_header\<close>: the position after SOD, or 0. The fuel is one more than the bytes of the
  chain; \<open>marker_loop_enough\<close> shows that this is enough.
\<close>

definition parse_main_header :: "memory \<Rightarrow> codestream \<Rightarrow> main_header \<Rightarrow>
    (u32 \<times> main_header \<times> codestream) option" where
  "parse_main_header m cs h =
     (let (soc, cs) = get_word m cs
      in if soc \<noteq> SOC then Some (0, h, cs)
         else case marker_loop m (Suc (cs_total cs)) (h\<lparr>g_Ccap15 := 0, g_Ccap2 := 0\<rparr>) cs of
                None \<Rightarrow> None
              | Some None \<Rightarrow> None
              | Some (Some (ok, h, cs)) \<Rightarrow> Some (if ok then get_pos cs else 0, h, cs))"

section \<open>The geometry signature\<close>

definition rd16 :: "memory \<Rightarrow> addr \<Rightarrow> nat \<Rightarrow> u16" where
  "rd16 m mh off = push_bit 8 (ucast (m (mh + off))) OR ucast (m (mh + off + 1))"

definition fnv_basis :: u64 where "fnv_basis = 1469598103934665603"

definition fnv_step :: "u64 \<Rightarrow> byte \<Rightarrow> u64" where
  "fnv_step h b = (h XOR ucast b) * 1099511628211"

definition mix :: "memory \<Rightarrow> addr \<Rightarrow> nat \<Rightarrow> nat \<Rightarrow> u64 \<Rightarrow> u64" where
  "mix m mh off n h = foldl fnv_step h (mem_read m (mh + off) n)"

definition geometry_marker :: "u16 \<Rightarrow> bool" where
  "geometry_marker marker \<longleftrightarrow> marker \<in> {SIZ, COD, COC, QCD, QCC, DFS, ATK}"

text \<open>The scan from \<open>off\<close>: the signature and, on success, the offset past SOD.\<close>

function signature_loop :: "memory \<Rightarrow> addr \<Rightarrow> nat \<Rightarrow> nat \<Rightarrow> u64 \<Rightarrow> u64 \<times> u32 option" where
  "signature_loop m mh len off h =
     (if off + 2 \<le> len
      then let marker = rd16 m mh off
           in if marker = SOD then (if h \<noteq> 0 then h else 1, Some (word_of_nat (off + 2)))
              else if bad_marker marker then (0, None)
              else if len < off + 4 then (0, None)
              else let seg = unat (rd16 m mh (off + 2))
                   in if seg < 2 \<or> len < off + 2 + seg then (0, None)
                      else signature_loop m mh len (off + 2 + seg)
                             (if geometry_marker marker then mix m mh off (2 + seg) h else h)
      else (0, None))"
  by pat_completeness auto
termination
  by (relation "measure (\<lambda>(m, mh, len, off, h). len - off)") auto

declare signature_loop.simps [simp del]

definition geometry_signature :: "memory \<Rightarrow> addr \<Rightarrow> nat \<Rightarrow> u64 \<times> u32 option" where
  "geometry_signature m mh len =
     (if len < 4 then (0, None)
      else if rd16 m mh 0 \<noteq> SOC then (0, None)
      else signature_loop m mh len 2 fnv_basis)"

section \<open>Header parsing reads forward\<close>

lemma reads_parse_SIZ [reads_step]: "reads a cs \<Longrightarrow> reads a (snd (snd (parse_SIZ m cs siz)))"
  unfolding parse_SIZ_def Let_def case_prod_beta
  by (simp add: reads_step)

lemma reads_read_precincts:
  "read_precincts m n i pp cs = Some r \<Longrightarrow> reads cs (snd r)"
proof (induction n arbitrary: i pp cs)
  case 0
  then show ?case by auto
next
  case (Suc n)
  then obtain i' pp' where "read_precincts m n i' pp' (snd (get_byte m cs)) = Some r"
    by (auto simp: Let_def case_prod_beta split: bind_splits)
  from reads_get_byte Suc.IH [OF this] show ?case by (rule reads_trans)
qed

lemma reads_read_coc_precincts:
  "read_coc_precincts m n i coc cs = Some r \<Longrightarrow> reads cs (snd r)"
proof (induction n arbitrary: i coc cs)
  case 0
  then show ?case by auto
next
  case (Suc n)
  then obtain i' coc' where "read_coc_precincts m n i' coc' (snd (get_byte m cs)) = Some r"
    by (auto simp: Let_def case_prod_beta split: bind_splits)
  from reads_get_byte Suc.IH [OF this] show ?case by (rule reads_trans)
qed

lemma reads_read_precincts_step:
  "read_precincts m n i pp b = Some (x, cs') \<Longrightarrow> reads a b \<Longrightarrow> reads a cs'"
  "read_coc_precincts m n i coc b = Some (y, cs') \<Longrightarrow> reads a b \<Longrightarrow> reads a cs'"
  using reads_read_precincts [of m n i pp b "(x, cs')"]
    reads_read_coc_precincts [of m n i coc b "(y, cs')"] by (auto intro: reads_trans)

lemma reads_parse_COD: "parse_COD m cs siz cod = Some (ret, cod', cs') \<Longrightarrow> reads cs cs'"
  unfolding parse_COD_def Let_def case_prod_beta
  by (clarsimp simp del: read_precincts.simps split: if_splits bind_splits; (erule reads_read_precincts_step)?; (intro reads_step reads_refl)?)

lemma reads_parse_COC: "parse_COC m cs siz cocs = Some (ret, cocs', cs') \<Longrightarrow> reads cs cs'"
  unfolding parse_COC_def Let_def case_prod_beta
  by (clarsimp split: if_splits bind_splits; (erule reads_read_precincts_step)?; (intro reads_step reads_refl)?)

lemma reads_read_dfs_bits [reads_step]: "reads a cs \<Longrightarrow> reads a (snd (read_dfs_bits m n bits cs))"
  by (induction n arbitrary: bits cs) (auto simp: case_prod_beta Let_def intro: reads_step)

lemma reads_skip_bytes [reads_step]: "reads a cs \<Longrightarrow> reads a (skip_bytes m n cs)"
  by (induction n arbitrary: cs) (auto intro: reads_step)

lemma reads_skip_marker [reads_step]: "reads a cs \<Longrightarrow> reads a (skip_marker m cs)"
  by (simp add: skip_marker_def case_prod_beta reads_step)

lemma reads_parse_DFS: "parse_DFS m cs dfs = Some (ret, dfs', cs') \<Longrightarrow> reads cs cs'"
  unfolding parse_DFS_def Let_def case_prod_beta
  by (auto split: if_splits bind_splits intro!: reads_step)

lemma reads_read_qcd_entry: "read_qcd_entry m k (q, cs) = Some (q', cs') \<Longrightarrow> reads cs cs'"
  unfolding read_qcd_entry_def Let_def case_prod_beta
  by (auto split: if_splits bind_splits intro!: reads_step)

lemma reads_read_qcd_levels:
  "read_qcd_levels m dfs n i qc = Some qc' \<Longrightarrow> reads (snd qc) (snd qc')"
proof (induction n arbitrary: i qc)
  case 0
  then show ?case by simp
next
  case (Suc n)
  have e: "read_qcd_entry m k qc = Some qc' \<Longrightarrow> reads (snd qc) (snd qc')" for k qc qc'
    using reads_read_qcd_entry [of m k "fst qc" "snd qc" "fst qc'" "snd qc'"] by simp
  from Suc.prems show ?case
    by (auto split: bind_splits if_splits dest!: e Suc.IH intro: reads_trans)
qed

lemma reads_parse_QCD: "parse_QCD m cs cod qcd dfs = Some (qcd', cs') \<Longrightarrow> reads cs cs'"
  unfolding parse_QCD_def Let_def case_prod_beta
  by (clarsimp split: bind_splits, drule reads_read_qcd_entry, drule reads_read_qcd_levels, simp,
      rule reads_trans [rotated], erule (1) reads_trans [rotated], intro reads_step reads_refl)

lemma reads_read_caps:
  "reads a (snd (snd (snd st))) \<Longrightarrow> reads a (snd (snd (snd (read_caps m Pcap n st))))"
  by (induction n arbitrary: st) (auto simp: Let_def case_prod_beta reads_step)

lemma reads_parse_CAP [reads_step]:
  "reads a cs \<Longrightarrow> reads a (snd (snd (parse_CAP m cs c15 c2)))"
  unfolding parse_CAP_def Let_def case_prod_beta
  by (simp only: snd_conv, rule reads_skip_bytes, rule reads_read_caps)
    (simp only: snd_conv, intro reads_step)

lemma reads_parse_segment: "parse_segment m marker h cs = Some (h', cs') \<Longrightarrow> reads cs cs'"
  unfolding parse_segment_def Let_def case_prod_beta
  by (auto split: if_splits bind_splits
      dest: reads_parse_COD reads_parse_COC reads_parse_DFS reads_parse_QCD intro!: reads_step)

lemma get_word_progress:
  assumes "cs_wf cs" and "fst (get_word m cs) AND 0xFF00 \<noteq> 0"
  shows "cs_pos cs < cs_pos (snd (get_word m cs))" and "cs_pos cs < cs_total cs"
proof -
  show 1: "cs_pos cs < cs_total cs"
  proof (rule ccontr)
    assume "\<not> cs_pos cs < cs_total cs"
    then have "fst (get_word m cs) = 0"
      using assms(1) by (simp add: get_word_val be16_def byte_or_0_def)
    with assms(2) show False by simp
  qed
  with assms(1) show "cs_pos cs < cs_pos (snd (get_word m cs))"
    by (simp add: get_word_pos adv_pos_def)
qed

lemma marker_loop_enough:
  "cs_wf cs \<Longrightarrow> cs_total cs - cs_pos cs < fuel \<Longrightarrow> marker_loop m fuel h cs \<noteq> None"
proof (induction fuel arbitrary: h cs)
  case 0
  then show ?case by simp
next
  case (Suc fuel)
  let ?w = "get_word m cs"
  show ?case
  proof (cases "fst ?w = SOD \<or> bad_marker (fst ?w)")
    case True
    then show ?thesis by (elim disjE) (simp_all add: case_prod_beta)
  next
    case False
    show ?thesis
    proof (cases "parse_segment m (fst ?w) h (snd ?w)")
      case None
      with False show ?thesis by (simp add: case_prod_beta)
    next
      case (Some r)
      obtain h' cs' where r: "r = (h', cs')" by (cases r)
      have "fst ?w AND 0xFF00 = 0xFF00" using False unfolding bad_marker_def by blast
      then have "fst ?w AND 0xFF00 \<noteq> 0" by simp
      with Suc.prems(1) have lt: "cs_pos cs < cs_pos (snd ?w)" and inside: "cs_pos cs < cs_total cs"
        by (rule get_word_progress)+
      have rd: "reads (snd ?w) cs'" using Some r reads_parse_segment by simp
      have rw: "reads cs (snd ?w)" by (rule reads_get_word)
      have "reads cs cs'" using rw rd by (rule reads_trans)
      then have k: "keeps cs cs'" by (rule reads_keeps)
      then have tot: "cs_total cs' = cs_total cs" by (rule keeps_total)
      have wf': "cs_wf cs'" using k Suc.prems(1) by (simp add: keeps_def)
      have wf1: "cs_wf (snd ?w)" using rw Suc.prems(1) by (simp add: reads_def keeps_def)
      then have "cs_pos (snd ?w) \<le> cs_pos cs'" using rd by (simp add: reads_def)
      with lt Suc.prems(2) tot inside have "cs_total cs' - cs_pos cs' < fuel" by simp
      from Suc.IH [OF wf' this] False Some r show ?thesis by (simp add: case_prod_beta)
    qed
  qed
qed

lemma reads_marker_loop: "marker_loop m fuel h cs = Some (Some (ok, h', cs')) \<Longrightarrow> reads cs cs'"
proof (induction fuel arbitrary: h cs)
  case 0
  then show ?case by simp
next
  case (Suc fuel)
  let ?w = "get_word m cs"
  have rw: "reads cs (snd ?w)" by (rule reads_get_word)
  show ?case
  proof (cases "fst ?w = SOD \<or> bad_marker (fst ?w)")
    case True
    with Suc.prems have "cs' = snd ?w" by (elim disjE) (simp_all add: case_prod_beta split: if_splits)
    with rw show ?thesis by simp
  next
    case False
    with Suc.prems obtain h1 cs1 where
      "parse_segment m (fst ?w) h (snd ?w) = Some (h1, cs1)" "marker_loop m fuel h1 cs1 = Some (Some (ok, h', cs'))"
      by (auto simp: case_prod_beta split: option.splits)
    then show ?thesis using rw reads_parse_segment Suc.IH by (blast intro: reads_trans)
  qed
qed

lemma reads_parse_main_header: "parse_main_header m cs h = Some (sod, h', cs') \<Longrightarrow> reads cs cs'"
  unfolding parse_main_header_def Let_def case_prod_beta
  by (auto simp del: marker_loop.simps split: if_splits option.splits dest!: reads_marker_loop intro: reads_step reads_trans [OF reads_get_word])

end
