(* ===== verification/Tag_Tree.thy ===== *)
theory Tag_Tree
  imports Codestream
begin

text \<open>
  The tag trees of \<open>src/packet_parser/j2k_packet.cpp\<close> and the arena they live in
  (\<open>stackAlloc\<close> of \<open>utils.cpp\<close>): node counts, construction, reset, and the decoder that the
  packet parser calls.
\<close>

section \<open>The arena\<close>

text \<open>
  Only the fill index matters to the parser. A request beyond \<open>BUFSIZE\<close> returns the null
  pointer; every caller writes through the result, so the model makes it \<open>None\<close>. Sizes are
  those of the LP64 layout.
\<close>

definition BUFSIZE :: nat where "BUFSIZE = 1024 * 4096"

definition stackAlloc :: "nat \<Rightarrow> nat \<Rightarrow> nat option" where
  "stackAlloc n index = (if BUFSIZE < index + n then None else Some (index + n))"

definition stackAlloc_reset :: nat where "stackAlloc_reset = 0"

abbreviation (input) "sizeof_tagtree_node \<equiv> (24 :: nat)"
abbreviation (input) "sizeof_prec \<equiv> (48 :: nat)"
abbreviation (input) "sizeof_pband \<equiv> (24 :: nat)"
abbreviation (input) "sizeof_blk \<equiv> (48 :: nat)"

section \<open>Nodes\<close>

text \<open>A parent pointer is an index into the same node array.\<close>

record tagtree_node =
  node_val :: nat
  node_temp_val :: nat
  node_vis :: nat
  node_parent :: "nat option"

definition node_zero :: tagtree_node where
  "node_zero = \<lparr>node_val = 0, node_temp_val = 0, node_vis = 0, node_parent = None\<rparr>"

function tag_tree_nodes :: "nat \<Rightarrow> nat \<Rightarrow> nat" where
  "tag_tree_nodes w h =
     (if 1 < w \<or> 1 < h then w * h + tag_tree_nodes ((w + 1) div 2) ((h + 1) div 2) else 0)"
  by pat_completeness auto
termination
  by (relation "measure (\<lambda>(w, h). w + h)") (auto, arith+)

declare tag_tree_nodes.simps [simp del]

definition tag_tree_size :: "nat \<Rightarrow> nat \<Rightarrow> nat" where
  "tag_tree_size w h = tag_tree_nodes w h + 1"

text \<open>The parent indices of one level that starts at \<open>t\<close>; the next level starts at \<open>t2\<close>.\<close>

definition level_parents :: "nat \<Rightarrow> nat \<Rightarrow> nat \<Rightarrow> nat \<Rightarrow> nat option list" where
  "level_parents t2 pw ph w =
     map (\<lambda>k. Some (t2 + (k div pw div 2) * w + (k mod pw) div 2)) [0..<pw * ph]"

function tree_parents :: "nat \<Rightarrow> nat \<Rightarrow> nat \<Rightarrow> nat option list" where
  "tree_parents t w h =
     (if 1 < w \<or> 1 < h
      then level_parents (t + w * h) w h ((w + 1) div 2)
             @ tree_parents (t + w * h) ((w + 1) div 2) ((h + 1) div 2)
      else [None])"
  by pat_completeness auto
termination
  by (relation "measure (\<lambda>(t, w, h). w + h)") (auto, arith+)

declare tree_parents.simps [simp del]

text \<open>\<open>tag_tree_init\<close>: the nodes keep what the arena held except for their parents.\<close>

definition tag_tree_init :: "(nat \<Rightarrow> tagtree_node) \<Rightarrow> nat \<Rightarrow> nat \<Rightarrow> nat \<Rightarrow> (tagtree_node list \<times> nat) option" where
  "tag_tree_init stale index w h =
     do { index' \<leftarrow> stackAlloc (tag_tree_size w h * sizeof_tagtree_node) index;
          Some (map (\<lambda>(k, p). (stale (index + k * sizeof_tagtree_node))\<lparr>node_parent := p\<rparr>)
                  (enumerate 0 (tree_parents 0 w h)), index') }"

text \<open>\<open>tag_tree_zero\<close>: \<open>memset\<close> over \<open>tag_tree_size\<close> nodes, the parents included.\<close>

definition tag_tree_zero :: "tagtree_node list \<Rightarrow> nat \<Rightarrow> nat \<Rightarrow> tagtree_node list option" where
  "tag_tree_zero t w h =
     (if tag_tree_size w h \<le> length t
      then Some (replicate (tag_tree_size w h) node_zero @ drop (tag_tree_size w h) t)
      else None)"

section \<open>Decoding\<close>

text \<open>The loop with \<open>n = threshold - curval\<close> rounds to go.\<close>

primrec tag_tree_loop :: "memory \<Rightarrow> nat \<Rightarrow> tagtree_node \<Rightarrow> nat \<Rightarrow> codestream \<Rightarrow> nat \<times> tagtree_node \<times> codestream" where
  "tag_tree_loop m 0 node curval cs = (curval, node, cs)"
| "tag_tree_loop m (Suc n) node curval cs =
     (let (b, cs) = get_bit m cs
      in if b \<noteq> 0 then (curval, node\<lparr>node_vis := node_vis node + 1\<rparr>, cs)
         else tag_tree_loop m n node (curval + 1) cs)"

definition tag_tree_decode :: "memory \<Rightarrow> tagtree_node \<Rightarrow> nat \<Rightarrow> codestream \<Rightarrow> nat \<times> tagtree_node \<times> codestream" where
  "tag_tree_decode m node threshold cs =
     (let (curval, node, cs) = tag_tree_loop m (threshold - node_val node) node (node_val node) cs
      in (curval, node\<lparr>node_val := curval\<rparr>, cs))"

end
