(* ===== verification/Structure.thy ===== *)
theory Structure
  imports J2k_Header Tag_Tree "HOL-Library.Signed_Division"
begin

text \<open>
  The tile / component / resolution / precinct / code-block structure of \<open>type.hpp\<close> and its
  construction, \<open>parepare_tcomp_structure\<close> and \<open>prepare_precinct_structure\<close> of
  \<open>src/packet_parser/j2k_packet.cpp\<close>.

  Coordinates are integers; \<open>u32\<close> and \<open>i32\<close> wrap a value into the range of \<open>uint32_t\<close> and
  \<open>int32_t\<close>, and are written where the C++ expression has that type. Signed division truncates
  (\<open>sdiv\<close>); unsigned division is \<open>div\<close> on wrapped operands. Arrays reached through pointers are
  lists; \<open>None\<close> in \<open>pb_incl\<close>, \<open>pb_zbp\<close>, \<open>pb_blk\<close> is a pointer that construction left unset.
\<close>

section \<open>Integer conversions\<close>

definition u32 :: "int \<Rightarrow> int" where "u32 x = x mod 2 ^ 32"
definition i32 :: "int \<Rightarrow> int" where "i32 x = (x + 2 ^ 31) mod 2 ^ 32 - 2 ^ 31"

lemma u32_id: "0 \<le> x \<Longrightarrow> x < 2 ^ 32 \<Longrightarrow> u32 x = x"
  by (simp add: u32_def)

lemma i32_id: "- (2 ^ 31) \<le> x \<Longrightarrow> x < 2 ^ 31 \<Longrightarrow> i32 x = x"
  by (simp add: i32_def)

text \<open>\<open>ceildiv_int\<close> at type \<open>int32_t\<close> and at type \<open>uint32_t\<close>.\<close>

definition ceildiv_i :: "int \<Rightarrow> int \<Rightarrow> int" where
  "ceildiv_i a b = i32 (a + (b - 1)) sdiv b"

definition ceildiv_u :: "int \<Rightarrow> int \<Rightarrow> int" where
  "ceildiv_u a b = u32 (a + (b - 1)) div b"

section \<open>The tile tree\<close>

record geometry =
  gx0 :: int
  gy0 :: int
  gx1 :: int
  gy1 :: int

record blk =
  blk_coord :: geometry
  blk_data :: data_ptr
  pass_lengths0 :: nat
  pass_lengths1 :: nat
  blk_length :: nat
  Scup :: nat
  modes :: u16
  blk_incl :: nat
  lblock :: nat
  blk_zbp :: nat
  npasses :: nat
  ht_plhd :: bool

record pband =
  pb_incl :: "tagtree_node list option"
  pb_zbp :: "tagtree_node list option"
  pb_blk :: "blk list option"

record prec =
  prec_pband :: "pband list"
  prec_coord :: geometry
  res_num :: nat
  prec_num_bands :: nat
  ncbw :: nat
  ncbh :: nat
  prec_use_SOP :: byte
  prec_use_EPH :: byte

record res =
  res_band :: "geometry list"
  res_prec :: "prec list"
  res_idx :: nat
  res_coord :: geometry
  npw :: nat
  nph :: nat
  transform_direction :: u32
  num_bands :: nat

record tcomp =
  tc_res :: "res list"
  tc_idx :: nat
  tc_coord :: geometry
  sub_x :: int
  sub_y :: int

record crp_status =
  crp_c :: nat
  crp_r :: nat
  crp_p :: nat

record tile =
  tcomps :: "tcomp list"
  tile_idx :: nat
  tile_coord :: geometry
  num_components :: nat
  tile_progression :: byte
  crp :: "crp_status list"
  crp_idx :: nat
  is_crp_complete :: bool

text \<open>
  What uninitialised storage holds: the heap block a new \<open>tile_\<close> is placed in (its constructor
  leaves \<open>tcomp\<close> alone) and, by arena offset, the previous contents of code blocks and tag-tree
  nodes.
\<close>

record uninit =
  u_tcomps :: "tcomp list"
  u_blk :: "nat \<Rightarrow> blk"
  u_node :: "nat \<Rightarrow> tagtree_node"

text \<open>Storage of the arena before its first use: a static buffer of zeros.\<close>

definition blk_zero :: blk where
  "blk_zero = \<lparr>blk_coord = \<lparr>gx0 = 0, gy0 = 0, gx1 = 0, gy1 = 0\<rparr>, blk_data = Null, pass_lengths0 = 0,
     pass_lengths1 = 0, blk_length = 0, Scup = 0, modes = 0, blk_incl = 0, lblock = 0, blk_zbp = 0,
     npasses = 0, ht_plhd = False\<rparr>"

section \<open>Precinct and code-block construction\<close>

definition xob :: "nat \<Rightarrow> int" where "xob i = [0, 1, 0, 1] ! i"
definition yob :: "nat \<Rightarrow> int" where "yob i = [0, 0, 1, 1] ! i"

definition blk_init :: "blk \<Rightarrow> int \<Rightarrow> int \<Rightarrow> nat \<Rightarrow> int \<Rightarrow> int \<Rightarrow> int \<Rightarrow> int \<Rightarrow> nat \<Rightarrow> blk" where
  "blk_init old bw bh nw pbx0 pby0 pbx1 pby1 cb =
     (let x = int cb AND int nw;
          y = int (cb div nw)
      in old\<lparr>blk_coord := \<lparr>
            gx0 = i32 (max pbx0 (u32 (bw * u32 (x + pbx0 div bw)))),
            gy0 = i32 (max pby0 (u32 (bh * u32 (y + pby0 div bh)))),
            gx1 = i32 (min pbx1 (u32 (bw * u32 (x + 1 + pbx1 div bw)))),
            gy1 = i32 (min pby1 (u32 (bh * u32 (y + 1 + pby1 div bh))))\<rparr>,
          blk_incl := 0, npasses := 0, blk_length := 0, lblock := 3,
          pass_lengths0 := 0, pass_lengths1 := 0\<rparr>)"

definition subband_ratio :: "u32 \<Rightarrow> int \<times> int" where
  "subband_ratio dir = (if dir = BOTH then (2, 2) else if dir = HORZ then (2, 1)
     else if dir = VERT then (1, 2) else (1, 1))"

text \<open>The number of code blocks between \<open>p0\<close> and \<open>p1\<close> on a grid of step \<open>cb\<close>.\<close>

definition num_cblks :: "int \<Rightarrow> int \<Rightarrow> int \<Rightarrow> nat" where
  "num_cblks p0 p1 cb = (if p0 < p1 then nat (u32 (ceildiv_u p1 cb - p0 div cb)) else 0)"

text \<open>One band of one precinct: its block counts, tag trees and blocks, and the arena index.\<close>

definition prepare_pband :: "uninit \<Rightarrow> int \<Rightarrow> int \<Rightarrow> geometry \<Rightarrow> u32 \<Rightarrow> nat \<Rightarrow> nat \<Rightarrow> nat \<Rightarrow>
    (nat \<times> nat \<times> pband \<times> nat) option" where
  "prepare_pband U bw bh pc dir nbands b index =
     (let i = (if nbands = 1 then 0 else b + 1);
          (srx, sry) = subband_ratio dir;
          pbx0 = ceildiv_u (u32 (gx0 pc - xob i)) srx;
          pbx1 = ceildiv_u (u32 (gx1 pc - xob i)) srx;
          pby0 = ceildiv_u (u32 (gy0 pc - yob i)) sry;
          pby1 = ceildiv_u (u32 (gy1 pc - yob i)) sry;
          w = num_cblks pbx0 pbx1 bw;
          h = num_cblks pby0 pby1 bh
      in if w \<noteq> 0 \<and> h \<noteq> 0
         then do {
           (incl, index) \<leftarrow> tag_tree_init (u_node U) index w h;
           (zbp, index) \<leftarrow> tag_tree_init (u_node U) index w h;
           incl \<leftarrow> tag_tree_zero incl w h;
           zbp \<leftarrow> tag_tree_zero zbp w h;
           index' \<leftarrow> stackAlloc (sizeof_blk * w * h) index;
           let blks = map (\<lambda>cb. blk_init (u_blk U (index + cb * sizeof_blk)) bw bh w
                                  pbx0 pby0 pbx1 pby1 cb) [0..<w * h];
           Some (w, h, \<lparr>pb_incl = Some incl, pb_zbp = Some zbp, pb_blk = Some blks\<rparr>, index') }
         else Some (w, h, \<lparr>pb_incl = None, pb_zbp = None, pb_blk = None\<rparr>, index))"

text \<open>
  All bands of a precinct. \<open>ncbw\<close> and \<open>ncbh\<close> are fields of the precinct, overwritten by every
  band: the last band's counts stay.
\<close>

primrec prepare_pbands :: "uninit \<Rightarrow> int \<Rightarrow> int \<Rightarrow> geometry \<Rightarrow> u32 \<Rightarrow> nat \<Rightarrow> nat \<Rightarrow> nat \<Rightarrow>
    (nat \<times> nat \<times> pband list \<times> nat) option" where
  "prepare_pbands U bw bh pc dir nbands 0 index = Some (0, 0, [], index)"
| "prepare_pbands U bw bh pc dir nbands (Suc b) index =
     do { (w, h, pbs, index) \<leftarrow> prepare_pbands U bw bh pc dir nbands b index;
          (w, h, pb, index) \<leftarrow> prepare_pband U bw bh pc dir nbands b index;
          Some (w, h, pbs @ [pb], index) }"

definition prec_geometry :: "geometry \<Rightarrow> nat \<Rightarrow> int \<Rightarrow> int \<Rightarrow> nat \<Rightarrow> geometry" where
  "prec_geometry rc nw ppx ppy np =
     (let x = int (np mod nw); y = int (np div nw);
          rx0 = u32 (gx0 rc); ry0 = u32 (gy0 rc); rx1 = u32 (gx1 rc); ry1 = u32 (gy1 rc)
      in \<lparr>gx0 = i32 (max rx0 (u32 (ppx * u32 (x + rx0 div ppx)))),
          gy0 = i32 (max ry0 (u32 (ppy * u32 (y + ry0 div ppy)))),
          gx1 = i32 (min rx1 (u32 (ppx * u32 (x + 1 + rx0 div ppx)))),
          gy1 = i32 (min ry1 (u32 (ppy * u32 (y + 1 + ry0 div ppy))))\<rparr>)"

definition prepare_prec :: "uninit \<Rightarrow> coc_marker \<Rightarrow> nat \<Rightarrow> geometry \<Rightarrow> nat \<Rightarrow> u32 \<Rightarrow> nat \<Rightarrow> int \<Rightarrow> int \<Rightarrow>
    nat \<Rightarrow> nat \<Rightarrow> (prec \<times> nat) option" where
  "prepare_prec U coc r rc nw dir nbands ppx ppy np index =
     (let pc = prec_geometry rc nw ppx ppy np in
      do { index \<leftarrow> stackAlloc (sizeof_pband * nbands) index;
           (w, h, pbs, index) \<leftarrow> prepare_pbands U (2 ^ unat (cbw coc)) (2 ^ unat (cbh coc)) pc dir
              nbands nbands index;
           Some (\<lparr>prec_pband = pbs, prec_coord = pc, res_num = r, prec_num_bands = nbands,
              ncbw = w, ncbh = h, prec_use_SOP = use_SOP coc, prec_use_EPH = use_EPH coc\<rparr>, index) })"

primrec prepare_precs :: "uninit \<Rightarrow> coc_marker \<Rightarrow> nat \<Rightarrow> geometry \<Rightarrow> nat \<Rightarrow> u32 \<Rightarrow> nat \<Rightarrow> int \<Rightarrow> int \<Rightarrow>
    nat \<Rightarrow> nat \<Rightarrow> (prec list \<times> nat) option" where
  "prepare_precs U coc r rc nw dir nbands ppx ppy 0 index = Some ([], index)"
| "prepare_precs U coc r rc nw dir nbands ppx ppy (Suc np) index =
     do { (ps, index) \<leftarrow> prepare_precs U coc r rc nw dir nbands ppx ppy np index;
          (p, index) \<leftarrow> prepare_prec U coc r rc nw dir nbands ppx ppy np index;
          Some (ps @ [p], index) }"

section \<open>Resolutions and bands\<close>

text \<open>
  \<open>dfs->type[NL - r + 1]\<close>: for \<open>r = 0\<close> and \<open>NL = 5\<close> the index is one past the array; in the
  struct layout the word there is \<open>h_orient[0]\<close>.
\<close>

definition dfs_type_at :: "dfs_marker \<Rightarrow> nat \<Rightarrow> u32 option" where
  "dfs_type_at dfs i = arr_get (dfs_type dfs @ h_orient dfs) i"

definition res_geometry :: "geometry \<Rightarrow> nat \<Rightarrow> nat \<Rightarrow> geometry" where
  "res_geometry tc hdep vdep =
     \<lparr>gx0 = ceildiv_i (gx0 tc) (2 ^ hdep), gy0 = ceildiv_i (gy0 tc) (2 ^ vdep),
      gx1 = ceildiv_i (gx1 tc) (2 ^ hdep), gy1 = ceildiv_i (gy1 tc) (2 ^ vdep)\<rparr>"

text \<open>The number of precincts that cover \<open>[a, b)\<close> with step \<open>2 ^ e\<close>.\<close>

definition num_precincts :: "int \<Rightarrow> int \<Rightarrow> nat \<Rightarrow> nat" where
  "num_precincts a b e =
     (if a < b then nat (u32 (i32 (ceildiv_i b (2 ^ e) - a sdiv 2 ^ e))) else 0)"

definition band_split :: "geometry \<Rightarrow> nat \<Rightarrow> nat \<Rightarrow> geometry" where
  "band_split tc nb i =
     (let nb_1 = (if 0 < nb then nb - 1 else 0);
          f = (\<lambda>v ob. i32 (ceildiv_u (u32 (v - u32 (2 ^ nb_1 * ob))) (2 ^ nb)))
      in \<lparr>gx0 = f (gx0 tc) (xob i), gy0 = f (gy0 tc) (yob i),
          gx1 = f (gx1 tc) (xob i), gy1 = f (gy1 tc) (yob i)\<rparr>)"

text \<open>
  Band geometry by transform direction; \<open>upper\<close> is the resolution built just before
  (\<open>rp + 1\<close>), read only for a direction outside the three known ones.
\<close>

definition band_geometry :: "geometry \<Rightarrow> geometry \<Rightarrow> res option \<Rightarrow> nat \<Rightarrow> nat \<Rightarrow> u32 \<Rightarrow> nat \<Rightarrow> nat \<Rightarrow> geometry option" where
  "band_geometry tc rc upper nl r dir nbands b =
     (let nb = (if r = 0 then nl - r else nl - r + 1);
          i = (if nbands = 1 then 0 else b + 1)
      in if dir = HORZ
         then Some \<lparr>gx0 = (gx0 rc + 1) div 2, gy0 = gy0 rc, gx1 = (gx1 rc + 1) div 2, gy1 = gy1 rc\<rparr>
         else if dir = VERT
         then Some \<lparr>gx0 = gx0 rc, gy0 = (gy0 rc + 1) div 2, gx1 = gx1 rc, gy1 = (gy1 rc + 1) div 2\<rparr>
         else if dir = BOTH then Some (band_split tc nb i)
         else case upper of None \<Rightarrow> None
              | Some up \<Rightarrow>
                  Some (if transform_direction up \<noteq> BOTH
                    then \<lparr>gx0 = gx0 (res_coord up), gy0 = gy0 (res_coord up),
                      gx1 = (if transform_direction up = HORZ
                        then gx1 (res_coord up) - gx1 rc else gx1 (res_coord up)),
                      gy1 = (if transform_direction up = VERT
                        then gy1 (res_coord up) - gy1 rc else gy1 (res_coord up))\<rparr>
                    else band_split tc nb i))"

definition prepare_res :: "uninit \<Rightarrow> geometry \<Rightarrow> coc_marker \<Rightarrow> dfs_marker \<Rightarrow> nat \<Rightarrow> res option \<Rightarrow> nat \<Rightarrow>
    (res \<times> nat) option" where
  "prepare_res U tc coc dfs r upper index =
     (let nl = unat (NL coc) in
      do { dir \<leftarrow> dfs_type_at dfs (nl - r + 1);
           hd \<leftarrow> arr_get (hor_depth dfs) (nl - r);
           vd \<leftarrow> arr_get (ver_depth dfs) (nl - r);
           pw \<leftarrow> arr_get (prw coc) r;
           ph \<leftarrow> arr_get (prh coc) r;
           let nbands = (if dir \<noteq> BOTH \<or> r = 0 then 1 else 3);
           let rc = res_geometry tc (unat hd) (unat vd);
           let w = num_precincts (gx0 rc) (gx1 rc) (unat pw);
           let h = num_precincts (gy0 rc) (gy1 rc) (unat ph);
           bands \<leftarrow> those (map (band_geometry tc rc upper nl r dir nbands) [0..<nbands]);
           index \<leftarrow> stackAlloc (sizeof_prec * w * h) index;
           (ps, index) \<leftarrow> prepare_precs U coc r rc w dir nbands (2 ^ unat pw) (2 ^ unat ph) (w * h) index;
           Some (\<lparr>res_band = bands, res_prec = ps, res_idx = r, res_coord = rc, npw = w, nph = h,
              transform_direction = dir, num_bands = nbands\<rparr>, index) })"

text \<open>
  The loop from \<open>r = NL\<close> down to 0: with \<open>n\<close> resolutions to go the next one is \<open>n - 1\<close>. The
  list holds the resolutions built so far, from \<open>n\<close> upwards.
\<close>

primrec prepare_resolutions :: "uninit \<Rightarrow> geometry \<Rightarrow> coc_marker \<Rightarrow> dfs_marker \<Rightarrow> nat \<Rightarrow> res list \<Rightarrow> nat \<Rightarrow>
    (res list \<times> nat) option" where
  "prepare_resolutions U tc coc dfs 0 rs index = Some (rs, index)"
| "prepare_resolutions U tc coc dfs (Suc r) rs index =
     do { (rp, index) \<leftarrow> prepare_res U tc coc dfs r (case rs of [] \<Rightarrow> None | up # _ \<Rightarrow> Some up) index;
          prepare_resolutions U tc coc dfs r (rp # rs) index }"

text \<open>
  \<open>parepare_tcomp_structure\<close>: resolutions \<open>0..NL\<close> are written, the others keep what the
  storage held. A code-block exponent of 32 or more is an undefined shift; more than five
  levels write outside \<open>res\<close>.
\<close>

definition parepare_tcomp_structure :: "uninit \<Rightarrow> tcomp \<Rightarrow> coc_marker \<Rightarrow> dfs_marker \<Rightarrow> nat \<Rightarrow>
    (tcomp \<times> nat) option" where
  "parepare_tcomp_structure U tcp coc dfs index =
     (if 32 \<le> unat (cbw coc) \<or> 32 \<le> unat (cbh coc) \<or> MAX_DWT_LEVEL < unat (NL coc) then None
      else do { (rs, index) \<leftarrow> prepare_resolutions U (tc_coord tcp) coc dfs (Suc (unat (NL coc))) [] index;
                Some (tcp\<lparr>tc_res := rs @ drop (length rs) (tc_res tcp)\<rparr>, index) })"

end
