(* ===== verification/Crp_Order.thy ===== *)
theory Crp_Order
  imports Structure
begin

text \<open>
  \<open>prepare_precinct_structure\<close> of \<open>src/packet_parser/j2k_packet.cpp\<close>: the sequence of
  (component, resolution, precinct) triples in which the packets of a tile arrive, for the
  PCRL and PRCL progressions.
\<close>

section \<open>Step sizes and positions\<close>

abbreviation (input) "PCRL \<equiv> (3 :: byte)"
abbreviation (input) "PRCL \<equiv> (5 :: byte)"

text \<open>The smallest precinct exponent over the components and resolutions, from 32.\<close>

definition min_exponents :: "('a \<Rightarrow> byte list) \<Rightarrow> ('a \<Rightarrow> nat) \<Rightarrow> 'a list \<Rightarrow> nat option" where
  "min_exponents exps levels cocs =
     map_option (foldl (\<lambda>s e. if s < unat e then s else unat e) 32)
       (those (concat (map (\<lambda>coc. map (arr_get (exps coc)) [0..<Suc (levels coc)]) cocs)))"

definition step_exp :: "(coc_marker \<Rightarrow> byte list) \<Rightarrow> coc_marker list \<Rightarrow> nat option" where
  "step_exp exps cocs = min_exponents exps (\<lambda>coc. unat (NL coc)) cocs"

text \<open>
  The values of a position loop \<open>for (v = a; v < b; v += step)\<close> over \<open>uint32_t\<close>. When the last
  addition wraps, the loop starts over and never ends: \<open>None\<close>.
\<close>

function positions :: "int \<Rightarrow> int \<Rightarrow> int \<Rightarrow> int list option" where
  "positions a b step =
     (if a < b
      then if step \<le> 0 \<or> 2 ^ 32 \<le> a + step then None
           else map_option (Cons a) (positions (a + step) b step)
      else Some [])"
  by pat_completeness auto
termination
  by (relation "measure (\<lambda>(a, b, step). nat (b - a))") auto

declare positions.simps [simp del]

section \<open>Visiting one precinct\<close>

text \<open>The two conditions under which \<open>(c, r)\<close> has a precinct at a position.\<close>

definition at_position :: "int \<Rightarrow> int \<Rightarrow> int \<Rightarrow> int \<Rightarrow> nat \<Rightarrow> nat \<Rightarrow> bool" where
  "at_position x tile_x0 sub res_x0 e lev \<longleftrightarrow>
     x mod (sub * 2 ^ (e + lev)) = 0
     \<or> x = u32 tile_x0 \<and> u32 (u32 res_x0 * 2 ^ lev) mod 2 ^ (e + lev) \<noteq> 0"

text \<open>The counters \<open>px[c][r]\<close>, \<open>py[c][r]\<close> and the sequence built so far.\<close>

record crp_state =
  cs_px :: "nat \<Rightarrow> nat \<Rightarrow> nat"
  cs_py :: "nat \<Rightarrow> nat \<Rightarrow> nat"
  cs_crp :: "crp_status list"

definition crp_state_init :: crp_state where
  "crp_state_init = \<lparr>cs_px = (\<lambda>_ _. 0), cs_py = (\<lambda>_ _. 0), cs_crp = []\<rparr>"

definition push_precinct :: "nat \<Rightarrow> nat \<Rightarrow> nat \<Rightarrow> crp_state \<Rightarrow> crp_state" where
  "push_precinct w c r st =
     (let p = cs_py st c r * w + cs_px st c r;
          px = Suc (cs_px st c r)
      in \<lparr>cs_px = (cs_px st)(c := (cs_px st c)(r := (if px = w then 0 else px))),
          cs_py = (if px = w then (cs_py st)(c := (cs_py st c)(r := Suc (cs_py st c r))) else cs_py st),
          cs_crp = cs_crp st @ [\<lparr>crp_c = c mod 256, crp_r = r mod 256, crp_p = p mod 65536\<rparr>]\<rparr>)"

text \<open>The body of the innermost loop; an index outside a fixed array is undefined.\<close>

definition visit :: "tile \<Rightarrow> coc_marker list \<Rightarrow> dfs_marker \<Rightarrow> int \<Rightarrow> int \<Rightarrow> nat \<times> nat \<Rightarrow> crp_state \<Rightarrow> crp_state option" where
  "visit t cocs dfs y x cr st =
     (let (c, r) = cr in
      do { coc \<leftarrow> arr_get cocs c;
           tcp \<leftarrow> arr_get (tcomps t) c;
           rp \<leftarrow> arr_get (tc_res tcp) r;
           xNL \<leftarrow> arr_get (hor_depth dfs) (unat (NL coc) - r);
           yNL \<leftarrow> arr_get (ver_depth dfs) (unat (NL coc) - r);
           pw \<leftarrow> arr_get (prw coc) r;
           ph \<leftarrow> arr_get (prh coc) r;
           Some (if at_position x (gx0 (tile_coord t)) (sub_x tcp) (gx0 (res_coord rp)) (unat pw) (unat xNL)
                   \<and> at_position y (gy0 (tile_coord t)) (sub_y tcp) (gy0 (res_coord rp)) (unat ph) (unat yNL)
                 then push_precinct (npw rp) c r st else st) })"

primrec visit_all :: "tile \<Rightarrow> coc_marker list \<Rightarrow> dfs_marker \<Rightarrow> int \<Rightarrow> int \<Rightarrow> (nat \<times> nat) list \<Rightarrow> crp_state \<Rightarrow> crp_state option" where
  "visit_all t cocs dfs y x [] st = Some st"
| "visit_all t cocs dfs y x (cr # crs) st =
     do { st \<leftarrow> visit t cocs dfs y x cr st; visit_all t cocs dfs y x crs st }"

section \<open>The two inner orders\<close>

text \<open>PCRL: for each component, its resolutions; PRCL: for each resolution, the components.\<close>

definition pcrl_inner :: "coc_marker list \<Rightarrow> (nat \<times> nat) list" where
  "pcrl_inner cocs = concat (map (\<lambda>c. map (Pair c) [0..<Suc (unat (NL (cocs ! c)))]) [0..<3])"

definition re_max :: "coc_marker list \<Rightarrow> nat" where
  "re_max cocs = foldl (\<lambda>re c. if re < Suc (unat (NL (cocs ! c))) then Suc (unat (NL (cocs ! c))) else re) 0 [0..<3]"

definition prcl_inner :: "coc_marker list \<Rightarrow> (nat \<times> nat) list" where
  "prcl_inner cocs = concat (map (\<lambda>r. map (\<lambda>c. (c, r))
     (filter (\<lambda>c. \<not> Suc (unat (NL (cocs ! c))) \<le> r) [0..<3])) [0..<re_max cocs])"

primrec visit_xs :: "tile \<Rightarrow> coc_marker list \<Rightarrow> dfs_marker \<Rightarrow> (nat \<times> nat) list \<Rightarrow> int \<Rightarrow> int list \<Rightarrow> crp_state \<Rightarrow> crp_state option" where
  "visit_xs t cocs dfs inner y [] st = Some st"
| "visit_xs t cocs dfs inner y (x # xs) st =
     do { st \<leftarrow> visit_all t cocs dfs y x inner st; visit_xs t cocs dfs inner y xs st }"

primrec visit_ys :: "tile \<Rightarrow> coc_marker list \<Rightarrow> dfs_marker \<Rightarrow> (nat \<times> nat) list \<Rightarrow> int list \<Rightarrow> int list \<Rightarrow> crp_state \<Rightarrow> crp_state option" where
  "visit_ys t cocs dfs inner xs [] st = Some st"
| "visit_ys t cocs dfs inner xs (y # ys) st =
     do { st \<leftarrow> visit_xs t cocs dfs inner y xs st; visit_ys t cocs dfs inner xs ys st }"

text \<open>The four nested loops of one progression.\<close>

definition crp_walk :: "tile \<Rightarrow> coc_marker list \<Rightarrow> dfs_marker \<Rightarrow> (nat \<times> nat) list \<Rightarrow> crp_state option" where
  "crp_walk t cocs dfs inner =
     do { sx \<leftarrow> step_exp prw cocs;
          sy \<leftarrow> step_exp prh cocs;
          ys \<leftarrow> positions (u32 (gy0 (tile_coord t))) (u32 (gy1 (tile_coord t))) (2 ^ sy);
          xs \<leftarrow> (if ys = [] then Some []
                 else positions (u32 (gx0 (tile_coord t))) (u32 (gx1 (tile_coord t))) (2 ^ sx));
          visit_ys t cocs dfs inner xs ys crp_state_init }"

text \<open>\<open>prepare_precinct_structure\<close>: the exit status (\<open>False\<close>: unsupported progression) and the tile.\<close>

definition prepare_precinct_structure :: "tile \<Rightarrow> coc_marker list \<Rightarrow> dfs_marker \<Rightarrow> (bool \<times> tile) option" where
  "prepare_precinct_structure t cocs dfs =
     do { coc0 \<leftarrow> arr_get cocs 0;
          if progression_order coc0 = PCRL
          then do { st \<leftarrow> crp_walk t cocs dfs (pcrl_inner cocs);
                    Some (True, t\<lparr>crp := take (length (cs_crp st)) (crp t @ cs_crp st), is_crp_complete := True\<rparr>) }
          else if progression_order coc0 = PRCL
          then do { st \<leftarrow> crp_walk t cocs dfs (prcl_inner cocs);
                    Some (True, t\<lparr>crp := take (length (cs_crp st)) (crp t @ cs_crp st), is_crp_complete := True\<rparr>) }
          else Some (False, t) }"

end
