(* ===== verification/Packet_Header.thy ===== *)
theory Packet_Header
  imports Structure
begin

text \<open>
  Packet decoding of \<open>src/packet_parser/j2k_packet.cpp\<close>: \<open>getlblockinc\<close>,
  \<open>parse_packet_header\<close> with its HT and non-HT length rules, \<open>read_packet\<close> and
  \<open>parse_one_precinct\<close> (default build: no \<open>USE_SOP_EPH\<close>).

  A function returns the exit status (\<open>True\<close> for success) with the updated structures and
  reader: after a failure the caller may resume, so what was already written stays. The local
  variables of the code are natural numbers; a store into a \<open>uint8_t\<close> or \<open>uint32_t\<close> is
  reduced modulo its width.
\<close>

abbreviation (input) "CMODE_BYPASS \<equiv> (0x01 :: u16)"
abbreviation (input) "CMODE_TERMALL \<equiv> (0x04 :: u16)"
abbreviation (input) "CMODE_HT \<equiv> (0x40 :: u16)"
abbreviation (input) "HT_MIXED \<equiv> (0x80 :: u16)"
abbreviation (input) "JPEG2000_MAX_PASSES \<equiv> (100 :: nat)"

section \<open>Small readers\<close>

partial_function (option) lblockinc_loop :: "memory \<Rightarrow> nat \<Rightarrow> codestream \<Rightarrow> (nat \<times> codestream) option" where
  "lblockinc_loop m k cs =
     (if fst (get_bit m cs) \<noteq> 0 then lblockinc_loop m (Suc k) (snd (get_bit m cs))
      else Some (k, snd (get_bit m cs)))"

definition getlblockinc :: "memory \<Rightarrow> codestream \<Rightarrow> (nat \<times> codestream) option" where
  "getlblockinc m cs = lblockinc_loop m 0 cs"

text \<open>\<open>int_log2(x) = 31 - clz(x | 1)\<close>.\<close>

fun int_log2 :: "nat \<Rightarrow> nat" where
  "int_log2 n = (if n < 2 then 0 else Suc (int_log2 (n div 2)))"

declare int_log2.simps [simp del]

definition add_bit :: "memory \<Rightarrow> nat \<Rightarrow> codestream \<Rightarrow> nat \<times> codestream" where
  "add_bit m n cs = (let (b, cs) = get_bit m cs in (n + unat b, cs))"

definition add_bits :: "memory \<Rightarrow> nat \<Rightarrow> nat \<Rightarrow> codestream \<Rightarrow> nat \<times> codestream" where
  "add_bits m k n cs = (let (b, cs) = packetheader_get_bits m k cs in (n + unat b, cs))"

text \<open>The number of coding passes, 1 to 164.\<close>

definition read_newpasses :: "memory \<Rightarrow> codestream \<Rightarrow> nat \<times> codestream" where
  "read_newpasses m cs =
     (let (n, cs) = add_bit m 1 cs;
          (n, cs) = (if 2 \<le> n then add_bit m n cs else (n, cs));
          (n, cs) = (if 3 \<le> n then add_bits m 2 n cs else (n, cs));
          (n, cs) = (if 6 \<le> n then add_bits m 5 n cs else (n, cs))
      in if 37 \<le> n then add_bits m 7 n cs else (n, cs))"

text \<open>\<open>while (pass_bound <= segment_passes) { bits_to_read++; pass_bound <<= 1; }\<close>\<close>

function pass_bits :: "nat \<Rightarrow> nat \<Rightarrow> nat \<Rightarrow> nat \<times> nat" where
  "pass_bits bits bound passes =
     (if bound \<le> passes \<and> 0 < bound then pass_bits (bits + 1) (2 * bound) passes else (bits, bound))"
  by pat_completeness auto
termination
  by (relation "measure (\<lambda>(bits, bound, passes). Suc passes - bound)") auto

declare pass_bits.simps [simp del]

text \<open>The same loop where each round also shifts one more bit into the length.\<close>

function extend_bits :: "memory \<Rightarrow> nat \<Rightarrow> nat \<Rightarrow> nat \<Rightarrow> u32 \<Rightarrow> codestream \<Rightarrow> nat \<times> u32 \<times> codestream" where
  "extend_bits m bits bound passes bytes cs =
     (if bound \<le> passes \<and> 0 < bound
      then let (b, cs) = get_bit m cs
           in extend_bits m (bits + 1) (2 * bound) passes (push_bit 1 bytes OR b) cs
      else (bits, bytes, cs))"
  by pat_completeness auto
termination
  by (relation "measure (\<lambda>(m, bits, bound, passes, bytes, cs). Suc passes - bound)") auto

declare extend_bits.simps [simp del]

section \<open>The first segment of a code block\<close>

text \<open>What the segment rules leave for the pass loop.\<close>

record segment =
  seg_ok :: bool
  seg_blk :: blk
  seg_passes :: nat
  seg_next :: nat
  seg_bypass :: nat
  seg_cs :: codestream

definition seg_fail :: "blk \<Rightarrow> codestream \<Rightarrow> segment" where
  "seg_fail b cs = \<lparr>seg_ok = False, seg_blk = b, seg_passes = 0, seg_next = 0, seg_bypass = 0, seg_cs = cs\<rparr>"

definition clear_HT :: "u16 \<Rightarrow> u16" where
  "clear_HT md = md AND ucast (NOT (0x40 :: byte))"

text \<open>No HT cleanup pass can be present (\<open>segment_passes < 1\<close>).\<close>

definition plhd_no_cleanup :: "memory \<Rightarrow> nat \<Rightarrow> blk \<Rightarrow> codestream \<Rightarrow> segment" where
  "plhd_no_cleanup m newpasses b cs =
     (let (bits, bound) = pass_bits (lblock b) 2 newpasses;
          (bytes, cs) = packetheader_get_bits m bits cs
      in if bytes \<noteq> 0
         then if modes b AND HT_MIXED \<noteq> 0
              then \<lparr>seg_ok = True, seg_blk = b\<lparr>ht_plhd := False, modes := clear_HT (modes b)\<rparr>,
                     seg_passes = newpasses, seg_next = 0, seg_bypass = 0, seg_cs = cs\<rparr>
              else seg_fail b cs
         else \<lparr>seg_ok = True, seg_blk = b, seg_passes = newpasses, seg_next = 0, seg_bypass = 0,
                seg_cs = cs\<rparr>)"

text \<open>A non-zero length with a cleanup pass.\<close>

definition plhd_length :: "memory \<Rightarrow> nat \<Rightarrow> nat \<Rightarrow> nat \<Rightarrow> nat \<Rightarrow> u32 \<Rightarrow> blk \<Rightarrow> codestream \<Rightarrow> segment" where
  "plhd_length m newpasses passes bits bound bytes b cs =
     (if modes b AND HT_MIXED = 0
      then if unat bytes < 2 then seg_fail b cs
           else \<lparr>seg_ok = True, seg_blk = b\<lparr>ht_plhd := False, pass_lengths0 := unat bytes\<rparr>,
                  seg_passes = passes, seg_next = 2, seg_bypass = 0, seg_cs = cs\<rparr>
      else if 3 < lblock b \<and> 1 < unat bytes \<and> drop_bit (bits - 1) bytes = 0
      then \<lparr>seg_ok = True, seg_blk = b\<lparr>ht_plhd := False, pass_lengths0 := unat bytes\<rparr>,
             seg_passes = passes, seg_next = 2, seg_bypass = 0, seg_cs = cs\<rparr>
      else let (bits, bytes, cs) = extend_bits m bits bound newpasses bytes cs
           in \<lparr>seg_ok = True, seg_blk = b\<lparr>modes := clear_HT (modes b), ht_plhd := False,
                  pass_lengths0 := unat bytes\<rparr>,
                seg_passes = newpasses, seg_next = 0, seg_bypass = 0, seg_cs = cs\<rparr>)"

text \<open>A zero length: probably a placeholder; the longer field is read to verify.\<close>

definition plhd_zero :: "memory \<Rightarrow> nat \<Rightarrow> nat \<Rightarrow> nat \<Rightarrow> blk \<Rightarrow> codestream \<Rightarrow> segment" where
  "plhd_zero m newpasses bits bound b cs =
     (let (bits, bytes, cs) = extend_bits m bits bound newpasses 0 cs
      in if bytes \<noteq> 0
         then if modes b AND HT_MIXED \<noteq> 0
              then \<lparr>seg_ok = True, seg_blk = b\<lparr>modes := clear_HT (modes b), ht_plhd := False,
                       pass_lengths0 := unat bytes\<rparr>,
                     seg_passes = newpasses, seg_next = 0, seg_bypass = 0, seg_cs = cs\<rparr>
              else seg_fail b cs
         else \<lparr>seg_ok = True, seg_blk = b, seg_passes = newpasses, seg_next = 0, seg_bypass = 0,
                seg_cs = cs\<rparr>)"

definition segment_plhd :: "memory \<Rightarrow> nat \<Rightarrow> blk \<Rightarrow> codestream \<Rightarrow> segment" where
  "segment_plhd m newpasses b cs =
     (let href_passes = (npasses b + newpasses - 1) mod 3
      in if newpasses \<le> href_passes then plhd_no_cleanup m newpasses b cs
         else let passes = newpasses - href_passes;
                  (bits, bound) = pass_bits (lblock b) 2 passes;
                  (bytes, cs) = packetheader_get_bits m bits cs
              in if bytes \<noteq> 0 then plhd_length m newpasses passes bits bound bytes b cs
                 else plhd_zero m newpasses bits bound b cs)"

text \<open>The four rules for a block that is not a placeholder.\<close>

definition segment_plain :: "memory \<Rightarrow> nat \<Rightarrow> blk \<Rightarrow> codestream \<Rightarrow> segment" where
  "segment_plain m newpasses b cs =
     (if modes b AND CMODE_HT \<noteq> 0
      then let (passes, nxt) = (if npasses b mod 3 = 0 then (1, 2)
                 else (if 1 < newpasses then 3 - npasses b mod 3 else 1, 1));
               (bytes, cs) = packetheader_get_bits m ((lblock b + int_log2 passes) mod 256) cs
           in \<lparr>seg_ok = True, seg_blk = b\<lparr>pass_lengths1 := (pass_lengths1 b + unat bytes) mod 2 ^ 32\<rparr>,
                seg_passes = passes, seg_next = nxt, seg_bypass = 0, seg_cs = cs\<rparr>
      else if modes b AND (CMODE_TERMALL OR CMODE_BYPASS) = 0
      then let (bytes, cs) = packetheader_get_bits m ((lblock b + int_log2 newpasses) mod 256) cs
           in \<lparr>seg_ok = True, seg_blk = b, seg_passes = newpasses, seg_next = 0, seg_bypass = 0, seg_cs = cs\<rparr>
      else if modes b AND CMODE_TERMALL \<noteq> 0
      then let (bytes, cs) = packetheader_get_bits m (lblock b) cs
           in \<lparr>seg_ok = True, seg_blk = b, seg_passes = 1, seg_next = 1, seg_bypass = 0, seg_cs = cs\<rparr>
      else let (passes, nxt) = (if npasses b < 10 then (min (10 - npasses b) newpasses, 2)
                 else (if 1 < newpasses then 2 - (npasses b - 10) mod 3 else 1, 1));
               (bytes, cs) = packetheader_get_bits m ((lblock b + int_log2 passes) mod 256) cs
           in \<lparr>seg_ok = True, seg_blk = b, seg_passes = passes, seg_next = nxt, seg_bypass = 10, seg_cs = cs\<rparr>)"

section \<open>The remaining passes\<close>

text \<open>
  \<open>newpasses -= segment_passes\<close> is an \<open>uint32_t\<close> subtraction, \<open>3 - next_segment_passes\<close> an
  \<open>uint8_t\<close> one.
\<close>

definition sub_u32 :: "nat \<Rightarrow> nat \<Rightarrow> nat" where
  "sub_u32 a b = (a + 2 ^ 32 - b) mod 2 ^ 32"

definition sub_u8 :: "nat \<Rightarrow> nat \<Rightarrow> nat" where
  "sub_u8 a b = (a + 2 ^ 8 - b) mod 2 ^ 8"

partial_function (option) ht_passes :: "memory \<Rightarrow> nat \<Rightarrow> nat \<Rightarrow> blk \<Rightarrow> codestream \<Rightarrow> (blk \<times> codestream) option" where
  "ht_passes m newpasses nxt b cs =
     (if newpasses = 0 then Some (b, cs)
      else let passes = (if 1 < newpasses then nxt else 1);
               rd = packetheader_get_bits m ((lblock b + int_log2 passes) mod 256) cs
           in ht_passes m (sub_u32 newpasses passes) (sub_u8 3 nxt)
                (b\<lparr>pass_lengths1 := (pass_lengths1 b + unat (fst rd)) mod 2 ^ 32,
                   npasses := (npasses b + passes) mod 256\<rparr>) (snd rd))"

partial_function (option) other_passes :: "memory \<Rightarrow> nat \<Rightarrow> nat \<Rightarrow> nat \<Rightarrow> blk \<Rightarrow> codestream \<Rightarrow>
    (bool \<times> blk \<times> codestream) option" where
  "other_passes m bypass newpasses nxt b cs =
     (if newpasses = 0 then Some (True, b, cs)
      else if bypass = 0 \<and> modes b AND CMODE_TERMALL = 0 then Some (False, b, cs)
      else let passes = (if bypass \<noteq> 0 then (if 1 < newpasses then nxt else 1) else 1);
               nxt = (if bypass \<noteq> 0 then sub_u8 3 nxt else nxt);
               bits = (if bypass \<noteq> 0 then (lblock b + int_log2 passes) mod 256 else lblock b);
               rd = packetheader_get_bits m bits cs
           in other_passes m bypass (sub_u32 newpasses passes) nxt
                (b\<lparr>npasses := (npasses b + passes) mod 256\<rparr>) (snd rd))"

section \<open>One code block\<close>

text \<open>An included block: passes, length indicator, first segment, remaining passes.\<close>

definition parse_included :: "memory \<Rightarrow> blk \<Rightarrow> codestream \<Rightarrow> (bool \<times> blk \<times> codestream) option" where
  "parse_included m b cs =
     (let b = b\<lparr>lblock := 3\<rparr>;
          (newpasses, cs) = read_newpasses m cs
      in if JPEG2000_MAX_PASSES \<le> npasses b + newpasses then Some (False, b, cs)
         else do {
           (llen, cs) \<leftarrow> getlblockinc m cs;
           if 16 < lblock b + llen + int_log2 newpasses then Some (False, b, cs)
           else do {
             let b = b\<lparr>lblock := (lblock b + llen) mod 256\<rparr>;
             let sg = (if ht_plhd b then segment_plhd m newpasses b cs
                       else segment_plain m newpasses b cs);
             if \<not> seg_ok sg then Some (False, seg_blk sg, seg_cs sg)
             else do {
               let b = (seg_blk sg)\<lparr>npasses := (npasses (seg_blk sg) + seg_passes sg) mod 256\<rparr>;
               let rest = sub_u32 newpasses (seg_passes sg);
               if modes b AND CMODE_HT \<noteq> 0 \<and> \<not> ht_plhd b
               then do { (b, cs) \<leftarrow> ht_passes m rest (seg_next sg) b (seg_cs sg); Some (True, b, cs) }
               else other_passes m (seg_bypass sg) rest (seg_next sg) b (seg_cs sg) } } })"

text \<open>The body of the block loop, with the two tag-tree nodes of the block.\<close>

definition parse_block :: "memory \<Rightarrow> coc_marker \<Rightarrow> tagtree_node \<Rightarrow> tagtree_node \<Rightarrow> blk \<Rightarrow> codestream \<Rightarrow>
    (bool \<times> tagtree_node \<times> tagtree_node \<times> blk \<times> codestream) option" where
  "parse_block m coc inode znode b cs =
     (let b = b\<lparr>modes := ucast (cbs coc)\<rparr>;
          b = (if CMODE_HT \<le> modes b then b\<lparr>ht_plhd := True\<rparr> else b);
          (v, inode, cs) = tag_tree_decode m inode 1 cs
      in if v = 0
         then let (z, znode, cs) = tag_tree_decode m znode 14 cs;
                  b = b\<lparr>blk_incl := 1, blk_zbp := z mod 256\<rparr>
              in do { (ok, b, cs) \<leftarrow> parse_included m b cs;
                      Some (ok, inode, znode,
                        if ok then b\<lparr>blk_length := (pass_lengths0 b + pass_lengths1 b) mod 2 ^ 32\<rparr> else b, cs) }
         else Some (True, inode, znode, b\<lparr>blk_length := (pass_lengths0 b + pass_lengths1 b) mod 2 ^ 32\<rparr>, cs))"

text \<open>
  The loop over the blocks of one band, \<open>n\<close> blocks from index \<open>i\<close>. The count comes from the
  precinct; a band with fewer blocks or nodes is left through its arrays.
\<close>

primrec parse_blocks :: "memory \<Rightarrow> coc_marker \<Rightarrow> nat \<Rightarrow> nat \<Rightarrow> pband \<Rightarrow> codestream \<Rightarrow>
    (bool \<times> pband \<times> codestream) option" where
  "parse_blocks m coc 0 i pb cs = Some (True, pb, cs)"
| "parse_blocks m coc (Suc n) i pb cs =
     do { incl \<leftarrow> pb_incl pb; zbp \<leftarrow> pb_zbp pb; blks \<leftarrow> pb_blk pb;
          inode \<leftarrow> arr_get incl i; znode \<leftarrow> arr_get zbp i; b \<leftarrow> arr_get blks i;
          (ok, inode, znode, b, cs) \<leftarrow> parse_block m coc inode znode b cs;
          let pb = pb\<lparr>pb_incl := Some (incl[i := inode]), pb_zbp := Some (zbp[i := znode]),
                      pb_blk := Some (blks[i := b])\<rparr>;
          if ok then parse_blocks m coc n (Suc i) pb cs else Some (False, pb, cs) }"

primrec parse_bands :: "memory \<Rightarrow> coc_marker \<Rightarrow> nat \<Rightarrow> nat \<Rightarrow> nat \<Rightarrow> prec \<Rightarrow> codestream \<Rightarrow>
    (bool \<times> prec \<times> codestream) option" where
  "parse_bands m coc nb 0 b pr cs = Some (True, pr, cs)"
| "parse_bands m coc nb (Suc n) b pr cs =
     do { pb \<leftarrow> arr_get (prec_pband pr) b;
          (ok, pb, cs) \<leftarrow> parse_blocks m coc nb 0 pb cs;
          let pr = pr\<lparr>prec_pband := (prec_pband pr)[b := pb]\<rparr>;
          if ok then parse_bands m coc nb n (Suc b) pr cs else Some (False, pr, cs) }"

section \<open>Code-block bodies\<close>

text \<open>
  The body of one block: its bytes and, for a non-empty one, \<open>Scup\<close> from the last two bytes of
  the first segment. The index \<open>pass_lengths[0] - k\<close> is an \<open>uint32_t\<close> difference.
\<close>

definition read_body :: "memory \<Rightarrow> blk \<Rightarrow> codestream \<Rightarrow> (blk \<times> codestream) option" where
  "read_body m b cs =
     (let (p, cs) = take_contiguous m (blk_length b) cs;
          b = b\<lparr>blk_data := p\<rparr>
      in if blk_length b \<noteq> 0 \<and> p \<noteq> Null
         then do { hi \<leftarrow> data_at m cs p (sub_u32 (pass_lengths0 b) 1);
                   lo \<leftarrow> data_at m cs p (sub_u32 (pass_lengths0 b) 2);
                   Some (b\<lparr>Scup := unat hi * 16 + unat (lo AND 0x0F)\<rparr>, cs) }
         else Some (b, cs))"

primrec read_bodies :: "memory \<Rightarrow> nat \<Rightarrow> nat \<Rightarrow> pband \<Rightarrow> codestream \<Rightarrow> (pband \<times> codestream) option" where
  "read_bodies m 0 i pb cs = Some (pb, cs)"
| "read_bodies m (Suc n) i pb cs =
     do { blks \<leftarrow> pb_blk pb; b \<leftarrow> arr_get blks i;
          (b, cs) \<leftarrow> read_body m b cs;
          read_bodies m n (Suc i) (pb\<lparr>pb_blk := Some (blks[i := b])\<rparr>) cs }"

primrec read_band_bodies :: "memory \<Rightarrow> nat \<Rightarrow> nat \<Rightarrow> nat \<Rightarrow> prec \<Rightarrow> codestream \<Rightarrow> (prec \<times> codestream) option" where
  "read_band_bodies m nb 0 b pr cs = Some (pr, cs)"
| "read_band_bodies m nb (Suc n) b pr cs =
     do { pb \<leftarrow> arr_get (prec_pband pr) b;
          (pb, cs) \<leftarrow> read_bodies m nb 0 pb cs;
          read_band_bodies m nb n (Suc b) (pr\<lparr>prec_pband := (prec_pband pr)[b := pb]\<rparr>) cs }"

section \<open>Packets\<close>

definition parse_packet_header :: "memory \<Rightarrow> prec \<Rightarrow> coc_marker \<Rightarrow> codestream \<Rightarrow> (bool \<times> prec \<times> codestream) option" where
  "parse_packet_header m pr coc cs =
     (let nb = ncbw pr * ncbh pr in
      do { (ok, pr, cs) \<leftarrow> parse_bands m coc nb (prec_num_bands pr) 0 pr cs;
           if \<not> ok then Some (False, pr, cs)
           else do { (pr, cs) \<leftarrow> read_band_bodies m nb (prec_num_bands pr) 0 pr (packetheader_flush_bits cs);
                     Some (True, pr, cs) } })"

definition read_packet :: "memory \<Rightarrow> prec \<Rightarrow> coc_marker \<Rightarrow> codestream \<Rightarrow> (bool \<times> prec \<times> codestream) option" where
  "read_packet m pr coc cs =
     (let (b, cs) = get_bit m cs
      in if b = 0 then Some (True, pr, packetheader_flush_bits cs)
         else parse_packet_header m pr coc cs)"

definition parse_one_precinct :: "memory \<Rightarrow> tile \<Rightarrow> coc_marker list \<Rightarrow> codestream \<Rightarrow> (bool \<times> tile \<times> codestream) option" where
  "parse_one_precinct m t cocs cs =
     do { ct \<leftarrow> arr_get (crp t) (crp_idx t);
          tcp \<leftarrow> arr_get (tcomps t) (crp_c ct);
          rp \<leftarrow> arr_get (tc_res tcp) (crp_r ct);
          pp \<leftarrow> arr_get (res_prec rp) (crp_p ct);
          coc \<leftarrow> arr_get cocs (crp_c ct);
          (ok, pp, cs) \<leftarrow> read_packet m pp coc cs;
          let rp = rp\<lparr>res_prec := (res_prec rp)[crp_p ct := pp]\<rparr>;
          let tcp = tcp\<lparr>tc_res := (tc_res tcp)[crp_r ct := rp]\<rparr>;
          Some (ok, t\<lparr>tcomps := (tcomps t)[crp_c ct := tcp]\<rparr>, cs) }"

declare lblockinc_loop.simps [code] ht_passes.simps [code] other_passes.simps [code]

section \<open>Packet parsing reads forward\<close>

lemma reads_lblockinc_loop:
  assumes ret: "lblockinc_loop m k cs = Some r"
  shows "reads cs (snd r)"
proof (rule lblockinc_loop.raw_induct [where P = "\<lambda>m k cs r. reads cs (snd r)", OF _ ret])
  fix f m k cs r
  assume IH: "\<And>m k cs r. f m k cs = Some r \<Longrightarrow> reads cs (snd r)"
    and eq: "(if fst (get_bit m cs) \<noteq> 0 then f m (Suc k) (snd (get_bit m cs))
        else Some (k, snd (get_bit m cs))) = Some r"
  show "reads cs (snd r)"
  proof (cases "fst (get_bit m cs) = 0")
    case True
    with eq show ?thesis by (auto simp: reader_inv)
  next
    case False
    with eq have "reads (snd (get_bit m cs)) (snd r)" by (intro IH) auto
    with reads_get_bit show ?thesis by (rule reads_trans)
  qed
qed

lemma reads_ht_passes:
  assumes ret: "ht_passes m n nxt b cs = Some r"
  shows "reads cs (snd r)"
proof (rule ht_passes.raw_induct [where P = "\<lambda>m n nxt b cs r. reads cs (snd r)", OF _ ret])
  fix f m n nxt b cs r
  assume IH: "\<And>m n nxt b cs r. f m n nxt b cs = Some r \<Longrightarrow> reads cs (snd r)"
    and eq: "(if n = 0 then Some (b, cs)
      else let passes = (if 1 < n then nxt else 1);
               rd = packetheader_get_bits m ((lblock b + int_log2 passes) mod 256) cs
           in f m (sub_u32 n passes) (sub_u8 3 nxt)
                (b\<lparr>pass_lengths1 := (pass_lengths1 b + unat (fst rd)) mod 2 ^ 32,
                   npasses := (npasses b + passes) mod 256\<rparr>) (snd rd)) = Some r"
  show "reads cs (snd r)"
  proof (cases "n = 0")
    case True
    with eq show ?thesis by auto
  next
    case False
    with eq obtain k n' nxt' b' where "f m n' nxt' b' (snd (packetheader_get_bits m k cs)) = Some r"
      unfolding Let_def by auto
    then have "reads (snd (packetheader_get_bits m k cs)) (snd r)" by (rule IH)
    with reads_packetheader_get_bits show ?thesis by (rule reads_trans)
  qed
qed

lemma reads_other_passes:
  assumes ret: "other_passes m bp n nxt b cs = Some r"
  shows "reads cs (snd (snd r))"
proof (rule other_passes.raw_induct [where P = "\<lambda>m bp n nxt b cs r. reads cs (snd (snd r))", OF _ ret])
  fix f m bypass newpasses nxt b cs r
  assume IH: "\<And>m bp n nxt b cs r. f m bp n nxt b cs = Some r \<Longrightarrow> reads cs (snd (snd r))"
    and eq: "(if newpasses = 0 then Some (True, b, cs)
      else if bypass = 0 \<and> modes b AND CMODE_TERMALL = 0 then Some (False, b, cs)
      else let passes = (if bypass \<noteq> 0 then (if 1 < newpasses then nxt else 1) else 1);
               nxt = (if bypass \<noteq> 0 then sub_u8 3 nxt else nxt);
               bits = (if bypass \<noteq> 0 then (lblock b + int_log2 passes) mod 256 else lblock b);
               rd = packetheader_get_bits m bits cs
           in f m bypass (sub_u32 newpasses passes) nxt
                (b\<lparr>npasses := (npasses b + passes) mod 256\<rparr>) (snd rd)) = Some r"
  show "reads cs (snd (snd r))"
  proof (cases "newpasses = 0 \<or> bypass = 0 \<and> modes b AND CMODE_TERMALL = 0")
    case True
    with eq show ?thesis by (auto split: if_splits)
  next
    case False
    with eq obtain k n' nxt' b' where "f m bypass n' nxt' b' (snd (packetheader_get_bits m k cs)) = Some r"
      unfolding Let_def by (auto split: if_splits)
    then have "reads (snd (packetheader_get_bits m k cs)) (snd (snd r))" by (rule IH)
    with reads_packetheader_get_bits show ?thesis by (rule reads_trans)
  qed
qed

lemma reads_tag_tree_loop: "reads cs (snd (snd (tag_tree_loop m n node v cs)))"
proof (induction n arbitrary: v cs)
  case 0
  show ?case by simp
next
  case (Suc n)
  have "reads cs (snd (get_bit m cs))" by (rule reads_get_bit)
  also have "reads (snd (get_bit m cs)) (snd (snd (tag_tree_loop m n node (v + 1) (snd (get_bit m cs)))))"
    by (rule Suc)
  finally show ?case using reads_get_bit [of cs m] by (auto simp: case_prod_beta)
qed

lemma reads_tag_tree_decode: "reads cs (snd (snd (tag_tree_decode m node k cs)))"
  using reads_tag_tree_loop by (simp add: tag_tree_decode_def case_prod_beta)

lemma reads_add_bit [reads_step]: "reads a cs \<Longrightarrow> reads a (snd (add_bit m n cs))"
  by (simp add: add_bit_def case_prod_beta reads_step)

lemma reads_add_bits [reads_step]: "reads a cs \<Longrightarrow> reads a (snd (add_bits m k n cs))"
  by (simp add: add_bits_def case_prod_beta reads_step)

lemma reads_read_newpasses [reads_step]: "reads a cs \<Longrightarrow> reads a (snd (read_newpasses m cs))"
  unfolding read_newpasses_def Let_def case_prod_beta by (intro reads_step)

lemma reads_extend_bits: "reads cs (snd (snd (extend_bits m bits bound passes bytes cs)))"
proof (induction m bits bound passes bytes cs rule: extend_bits.induct)
  case (1 m bits bound passes bytes cs)
  show ?case
  proof (cases "bound \<le> passes \<and> 0 < bound")
    case False
    then show ?thesis by (subst extend_bits.simps) auto
  next
    case True
    have "reads (snd (get_bit m cs)) (snd (snd (extend_bits m (bits + 1) (2 * bound) passes
        (push_bit 1 bytes OR fst (get_bit m cs)) (snd (get_bit m cs)))))"
      using "1.IH" [OF True refl, of "fst (get_bit m cs)"] by simp
    with reads_get_bit [of cs m] True show ?thesis
      by (subst extend_bits.simps) (simp add: case_prod_beta reads_trans)
  qed
qed

lemma reads_seg_fail [simp]: "seg_cs (seg_fail b cs) = cs"
  by (simp add: seg_fail_def)

lemma reads_segment_plhd: "reads cs (seg_cs (segment_plhd m n b cs))"
  using reads_trans [OF reads_packetheader_get_bits reads_extend_bits] reads_packetheader_get_bits
  by (auto simp: segment_plhd_def plhd_no_cleanup_def plhd_length_def plhd_zero_def Let_def
      case_prod_beta)

lemma reads_segment_plain: "reads cs (seg_cs (segment_plain m n b cs))"
  by (auto simp: segment_plain_def Let_def case_prod_beta reader_inv)

lemma reads_parse_included:
  assumes "parse_included m b cs = Some (ok, b', cs')"
  shows "reads cs cs'"
proof -
  let ?np = "read_newpasses m cs"
  have np: "reads cs (snd ?np)" by (intro reads_step reads_refl)
  show ?thesis
  proof (cases "JPEG2000_MAX_PASSES \<le> npasses b + fst ?np")
    case True
    with assms np show ?thesis by (auto simp: parse_included_def Let_def case_prod_beta)
  next
    case False
    with assms obtain llen cs1 where 1: "getlblockinc m (snd ?np) = Some (llen, cs1)"
      by (cases "getlblockinc m (snd ?np)") (auto simp: parse_included_def Let_def case_prod_beta)
    have r1: "reads cs cs1"
      using np reads_lblockinc_loop [of m 0 "snd ?np" "(llen, cs1)"] 1
      by (auto simp: getlblockinc_def intro: reads_trans)
    let ?b = "b\<lparr>lblock := (3 + llen) mod 256\<rparr>"
    let ?sg = "if ht_plhd b then segment_plhd m (fst ?np) ?b cs1 else segment_plain m (fst ?np) ?b cs1"
    have r2: "reads cs (seg_cs ?sg)"
      using r1 reads_segment_plhd reads_segment_plain by (auto intro: reads_trans)
    have "cs' = cs1 \<or> reads (seg_cs ?sg) cs'"
      using assms False 1 reads_ht_passes reads_other_passes
      by (fastforce simp: parse_included_def Let_def case_prod_beta split: if_splits bind_splits)
    with r1 r2 show ?thesis by (auto intro: reads_trans)
  qed
qed

lemma reads_parse_block:
  assumes "parse_block m coc inode znode b cs = Some (ok, inode', znode', b', cs')"
  shows "reads cs cs'"
proof -
  let ?i = "tag_tree_decode m inode 1 cs"
  let ?z = "tag_tree_decode m znode 14 (snd (snd ?i))"
  have i: "reads cs (snd (snd ?i))" by (rule reads_tag_tree_decode)
  have z: "reads cs (snd (snd ?z))" using i reads_tag_tree_decode by (rule reads_trans)
  have "cs' = snd (snd ?i) \<or> reads (snd (snd ?z)) cs'"
    using assms
    by (auto simp: parse_block_def Let_def case_prod_beta split: if_splits bind_splits
        intro: reads_parse_included)
  with i z show ?thesis by (auto intro: reads_trans)
qed

lemma reads_parse_blocks:
  "parse_blocks m coc n i pb cs = Some (ok, pb', cs') \<Longrightarrow> reads cs cs'"
proof (induction n arbitrary: i pb cs)
  case 0
  then show ?case by simp
next
  case (Suc n)
  from Suc.prems obtain inode znode b ok1 inode' znode' b' cs1 pb1 where
    1: "parse_block m coc inode znode b cs = Some (ok1, inode', znode', b', cs1)"
    and 2: "if ok1 then parse_blocks m coc n (Suc i) pb1 cs1 = Some (ok, pb', cs') else cs' = cs1"
    by (auto simp: Let_def split: bind_splits if_splits)
  from reads_parse_block [OF 1] 2 Suc.IH show ?case
    by (auto split: if_splits intro: reads_trans)
qed

lemma reads_parse_bands:
  "parse_bands m coc nb n b pr cs = Some (ok, pr', cs') \<Longrightarrow> reads cs cs'"
proof (induction n arbitrary: b pr cs)
  case 0
  then show ?case by simp
next
  case (Suc n)
  from Suc.prems obtain pb ok1 pb1 cs1 pr1 where
    1: "parse_blocks m coc nb 0 pb cs = Some (ok1, pb1, cs1)"
    and 2: "if ok1 then parse_bands m coc nb n (Suc b) pr1 cs1 = Some (ok, pr', cs') else cs' = cs1"
    by (auto simp: Let_def split: bind_splits if_splits)
  from reads_parse_blocks [OF 1] 2 Suc.IH show ?case
    by (auto split: if_splits intro: reads_trans)
qed

lemma reads_read_body: "read_body m b cs = Some (b', cs') \<Longrightarrow> reads cs cs'"
  by (auto simp: read_body_def Let_def case_prod_beta reader_inv split: if_splits bind_splits)

lemma reads_read_bodies: "read_bodies m n i pb cs = Some (pb', cs') \<Longrightarrow> reads cs cs'"
proof (induction n arbitrary: i pb cs)
  case 0
  then show ?case by simp
next
  case (Suc n)
  then show ?case by (fastforce split: bind_splits dest: reads_read_body intro: reads_trans)
qed

lemma reads_read_band_bodies: "read_band_bodies m nb n b pr cs = Some (pr', cs') \<Longrightarrow> reads cs cs'"
proof (induction n arbitrary: b pr cs)
  case 0
  then show ?case by simp
next
  case (Suc n)
  then show ?case by (fastforce split: bind_splits dest: reads_read_bodies intro: reads_trans)
qed

lemma reads_parse_packet_header:
  assumes "parse_packet_header m pr coc cs = Some (ok, pr', cs')"
  shows "reads cs cs'"
proof -
  from assms obtain ok1 pr1 cs1 where
    1: "parse_bands m coc (ncbw pr * ncbh pr) (prec_num_bands pr) 0 pr cs = Some (ok1, pr1, cs1)"
    and 2: "if ok1 then read_band_bodies m (ncbw pr * ncbh pr) (prec_num_bands pr1) 0 pr1
        (packetheader_flush_bits cs1) = Some (pr', cs') else cs' = cs1"
    by (auto simp: parse_packet_header_def Let_def split: bind_splits if_splits)
  from reads_parse_bands [OF 1] have "reads cs cs1" .
  moreover from this have "reads cs (packetheader_flush_bits cs1)" by (rule reads_step)
  ultimately show ?thesis
    using 2 reads_read_band_bodies by (auto split: if_splits intro: reads_trans)
qed

lemma reads_read_packet: "read_packet m pr coc cs = Some (ok, pr', cs') \<Longrightarrow> reads cs cs'"
  using reads_trans [OF reads_get_bit reads_parse_packet_header]
  by (auto simp: read_packet_def Let_def case_prod_beta reads_step split: if_splits)

lemma parse_one_precinct_frame:
  assumes "parse_one_precinct m t cocs cs = Some (ok, t', cs')"
  shows "reads cs cs'" and "crp t' = crp t" and "crp_idx t' = crp_idx t"
    and "tile_coord t' = tile_coord t" and "num_components t' = num_components t"
    and "crp_idx t < length (crp t)"
  using assms
  by (auto simp: parse_one_precinct_def Let_def split: bind_splits dest: reads_read_packet)

end
