(* ===== verification/Tile_Handler.thy ===== *)
theory Tile_Handler
  imports Crp_Order Packet_Header
begin

text \<open>
  \<open>class tile_handler\<close> of \<open>src/packet_parser/tile_handler.hpp\<close>: building the tiles of a stream
  (\<open>create\<close>), the signal-gated precinct walk of a frame (\<open>parse\<close>, \<open>flush\<close>), recovery at the
  next signalled byte (\<open>try_recover\<close>) and the reset at a frame boundary (\<open>restart\<close>).

  The handler works on the \<open>codestream\<close> of the frame handler, which is passed along. Precinct
  callbacks are the list of triples they were fired with.
\<close>

section \<open>State\<close>

record signal =
  byte_offset :: u32
  pid :: u32

record tile_handler =
  tiles :: "tile list"
  th_hdr :: main_header
  num_tiles_x :: u32
  num_tiles_y :: u32
  ready :: bool
  prec_cb :: bool
  parse_holdback :: u32
  signal_queue :: "signal list"
  crp_idx_by_pid :: "nat list list"
  arena :: nat

definition tile_handler_init :: tile_handler where
  "tile_handler_init = \<lparr>tiles = [], th_hdr = main_header_zero, num_tiles_x = 0, num_tiles_y = 0,
     ready = False, prec_cb = False, parse_holdback = 0, signal_queue = [], crp_idx_by_pid = [],
     arena = 0\<rparr>"

definition set_precinct_callback :: "bool \<Rightarrow> tile_handler \<Rightarrow> tile_handler" where
  "set_precinct_callback b th = th\<lparr>prec_cb := b\<rparr>"

definition set_parse_holdback :: "u32 \<Rightarrow> tile_handler \<Rightarrow> tile_handler" where
  "set_parse_holdback n th = th\<lparr>parse_holdback := n\<rparr>"

definition append_signal :: "u32 \<Rightarrow> u32 \<Rightarrow> tile_handler \<Rightarrow> tile_handler" where
  "append_signal off p th =
     (let q = (if 16384 \<le> length (signal_queue th) then [] else signal_queue th)
      in th\<lparr>signal_queue := q @ [\<lparr>byte_offset = off, pid = p\<rparr>]\<rparr>)"

definition invalidate :: "tile_handler \<Rightarrow> tile_handler" where
  "invalidate th = th\<lparr>ready := False\<rparr>"

section \<open>Building the tiles\<close>

definition tile_new :: "uninit \<Rightarrow> nat \<Rightarrow> byte \<Rightarrow> tile" where
  "tile_new U t po = \<lparr>tcomps = u_tcomps U, tile_idx = t,
     tile_coord = \<lparr>gx0 = 0, gy0 = 0, gx1 = 0, gy1 = 0\<rparr>, num_components = MAX_NUM_COMPONENTS,
     tile_progression = po, crp = [], crp_idx = 0, is_crp_complete = False\<rparr>"

definition ceildiv_w :: "u32 \<Rightarrow> u32 \<Rightarrow> u32" where
  "ceildiv_w a b = (a + (b - 1)) div b"

definition tile_geometry :: "siz_marker \<Rightarrow> u32 \<Rightarrow> u32 \<Rightarrow> geometry" where
  "tile_geometry siz p q =
     \<lparr>gx0 = sint (max (XTOsiz siz + p * XTsiz siz) (XOsiz siz)),
      gy0 = sint (max (YTOsiz siz + q * YTsiz siz) (YOsiz siz)),
      gx1 = sint (min (XTOsiz siz + (p + 1) * XTsiz siz) (Xsiz siz)),
      gy1 = sint (min (YTOsiz siz + (q + 1) * YTsiz siz) (Ysiz siz))\<rparr>"

definition tcomp_geometry :: "geometry \<Rightarrow> int \<Rightarrow> int \<Rightarrow> geometry" where
  "tcomp_geometry tc rx ry =
     \<lparr>gx0 = ceildiv_i (gx0 tc) rx, gy0 = ceildiv_i (gy0 tc) ry,
      gx1 = ceildiv_i (gx1 tc) rx, gy1 = ceildiv_i (gy1 tc) ry\<rparr>"

text \<open>The component loop of one tile: \<open>n\<close> components from index \<open>c\<close>.\<close>

primrec create_tcomps :: "uninit \<Rightarrow> nat \<Rightarrow> nat \<Rightarrow> tile \<Rightarrow> tile_handler \<Rightarrow> (tile \<times> tile_handler) option" where
  "create_tcomps U 0 c t th = Some (t, th)"
| "create_tcomps U (Suc n) c t th =
     (let h = th_hdr th in
      do { tcp \<leftarrow> arr_get (tcomps t) c;
           rx \<leftarrow> arr_get (XRsiz (mh_siz h)) c;
           ry \<leftarrow> arr_get (YRsiz (mh_siz h)) c;
           if rx = 0 \<or> ry = 0 then None
           else do {
             coc \<leftarrow> arr_get (mh_cocs h) c;
             let tcp = tcp\<lparr>tc_idx := c, tc_coord := tcomp_geometry (tile_coord t) (uint rx) (uint ry),
                           sub_x := uint rx, sub_y := uint ry\<rparr>;
             let coc = (if 32 < NL coc then coc\<lparr>NL := ucast (Idfs (mh_dfs h))\<rparr> else coc);
             (tcp, index) \<leftarrow> parepare_tcomp_structure U tcp coc (mh_dfs h) (arena th);
             create_tcomps U n (Suc c) (t\<lparr>tcomps := (tcomps t)[c := tcp]\<rparr>)
               (th\<lparr>th_hdr := h\<lparr>mh_cocs := (mh_cocs h)[c := coc]\<rparr>, arena := index\<rparr>) } })"

text \<open>The tile loop: \<open>n\<close> tiles from index \<open>t\<close>; \<open>False\<close> when a tile is not supported.\<close>

primrec create_tiles :: "uninit \<Rightarrow> nat \<Rightarrow> nat \<Rightarrow> tile_handler \<Rightarrow> (bool \<times> tile_handler) option" where
  "create_tiles U 0 t th = Some (True, th)"
| "create_tiles U (Suc n) t th =
     (let siz = mh_siz (th_hdr th);
          tw = word_of_nat t
      in do { coc0 \<leftarrow> arr_get (mh_cocs (th_hdr th)) 0;
              let tl = (tile_new U t (progression_order coc0))
                \<lparr>num_components := unat (Csiz siz),
                  tile_coord := tile_geometry siz (tw mod num_tiles_x th) (tw div num_tiles_y th)\<rparr>;
              (tl, th) \<leftarrow> create_tcomps U (unat (Csiz siz)) 0 tl th;
              (ok, tl) \<leftarrow> prepare_precinct_structure tl (mh_cocs (th_hdr th)) (mh_dfs (th_hdr th));
              let th = th\<lparr>tiles := tiles th @ [tl]\<rparr>;
              if ok then create_tiles U n (Suc t) th else Some (False, th\<lparr>ready := False\<rparr>) })"

text \<open>\<open>crp_idx_by_pid_[c]\<close>: the positions of component \<open>c\<close> in the sequence.\<close>

definition idx_by_component :: "crp_status list \<Rightarrow> nat list list" where
  "idx_by_component seq =
     map (\<lambda>c. filter (\<lambda>i. crp_c (seq ! i) = c) [0..<length seq]) [0..<MAX_NUM_COMPONENTS]"

definition create :: "uninit \<Rightarrow> tile_handler \<Rightarrow> (bool \<times> tile_handler) option" where
  "create U th =
     (let siz = mh_siz (th_hdr th)
      in if XTsiz siz = 0 \<or> YTsiz siz = 0 then None
         else do {
           let th = th\<lparr>arena := stackAlloc_reset,
              num_tiles_x := ceildiv_w (Xsiz siz - XTOsiz siz) (XTsiz siz),
              num_tiles_y := ceildiv_w (Ysiz siz - YTOsiz siz) (YTsiz siz), tiles := []\<rparr>;
           (ok, th) \<leftarrow> create_tiles U (if num_tiles_y th = 0 then 0 else unat (num_tiles_x th)) 0 th;
           if \<not> ok then Some (False, th)
           else Some (True, th\<lparr>ready := True,
             crp_idx_by_pid := (case tiles th of [] \<Rightarrow> crp_idx_by_pid th
                                | t0 # _ \<Rightarrow> idx_by_component (crp t0))\<rparr>) })"

section \<open>Recovery\<close>

definition try_recover :: "tile_handler \<Rightarrow> tile \<Rightarrow> codestream \<Rightarrow> bool \<times> tile_handler \<times> tile \<times> codestream" where
  "try_recover th t cs =
     (let cur_pos = get_pos cs;
          q = dropWhile (\<lambda>s. byte_offset s \<le> cur_pos) (signal_queue th);
          th = th\<lparr>signal_queue := q\<rparr>
      in case q of [] \<Rightarrow> (False, th, t, cs)
         | sig # rest \<Rightarrow>
             let nc = unat (Csiz (mh_siz (th_hdr th)))
             in if nc = 0 then (False, th, t, cs)
                else let c = unat (pid sig) mod nc; s = unat (pid sig) div nc
                     in if length (crp_idx_by_pid th) \<le> c \<or> length (crp_idx_by_pid th ! c) \<le> s
                        then (False, th, t, cs)
                        else let new_crp_idx = crp_idx_by_pid th ! c ! s
                             in if new_crp_idx < crp_idx t then (False, th, t, cs)
                                else (True, th\<lparr>signal_queue := rest\<rparr>, t\<lparr>crp_idx := new_crp_idx\<rparr>,
                                      reset (byte_offset sig) cs))"

section \<open>The precinct walk\<close>

text \<open>
  The handler with its first tile replaced: \<open>tile = tiles.data()\<close> is worked on in place.
\<close>

definition put_tile :: "tile \<Rightarrow> tile_handler \<Rightarrow> tile_handler" where
  "put_tile t th = th\<lparr>tiles := (tiles th)[0 := t]\<rparr>"

definition fire_precinct :: "tile_handler \<Rightarrow> crp_status \<Rightarrow> crp_status list" where
  "fire_precinct th ct = (if prec_cb th then [ct] else [])"

text \<open>
  \<open>parse\<close>: while a signal lies ahead of the reader, parse the next precinct; a failure that
  cannot be recovered ends the walk with \<open>False\<close>. The result carries the callbacks fired.
\<close>

partial_function (option) parse_loop :: "memory \<Rightarrow> tile_handler \<Rightarrow> codestream \<Rightarrow> crp_status list \<Rightarrow>
    (bool \<times> tile_handler \<times> codestream \<times> crp_status list) option" where
  "parse_loop m th cs ev =
     (if signal_queue th = [] then Some (True, th, cs, ev)
      else if tiles th = [] then None
      else if byte_offset (last (signal_queue th)) \<le> get_pos cs then Some (True, th, cs, ev)
      else do {
        ct \<leftarrow> arr_get (crp (tiles th ! 0)) (crp_idx (tiles th ! 0));
        (ok, t, cs) \<leftarrow> parse_one_precinct m (tiles th ! 0) (mh_cocs (th_hdr th)) cs;
        let t = t\<lparr>crp_idx := Suc (crp_idx t)\<rparr>;
        if ok then parse_loop m (put_tile t th) cs (ev @ fire_precinct th ct)
        else do {
          let (rec, th, t, cs) = try_recover th t cs;
          if rec then parse_loop m (put_tile t th) cs ev
          else Some (False, put_tile t th, cs, ev) } })"

definition parse :: "memory \<Rightarrow> tile_handler \<Rightarrow> codestream \<Rightarrow>
    (bool \<times> tile_handler \<times> codestream \<times> crp_status list) option" where
  "parse m th cs = parse_loop m th cs []"

text \<open>\<open>flush\<close>: every remaining precinct, without a gate.\<close>

partial_function (option) flush_loop :: "memory \<Rightarrow> tile_handler \<Rightarrow> codestream \<Rightarrow> crp_status list \<Rightarrow>
    (bool \<times> tile_handler \<times> codestream \<times> crp_status list) option" where
  "flush_loop m th cs ev =
     (if tiles th = [] then None
      else if crp_idx (tiles th ! 0) < length (crp (tiles th ! 0))
      then do {
        ct \<leftarrow> arr_get (crp (tiles th ! 0)) (crp_idx (tiles th ! 0));
        (ok, t, cs) \<leftarrow> parse_one_precinct m (tiles th ! 0) (mh_cocs (th_hdr th)) cs;
        if ok then flush_loop m (put_tile (t\<lparr>crp_idx := Suc (crp_idx t)\<rparr>) th) cs (ev @ fire_precinct th ct)
        else do {
          let (rec, th, t, cs) = try_recover th t cs;
          if rec then flush_loop m (put_tile t th) cs ev
          else Some (False, put_tile t th, cs, ev) } }
      else Some (True, th, cs, ev))"

definition flush :: "memory \<Rightarrow> tile_handler \<Rightarrow> codestream \<Rightarrow>
    (bool \<times> tile_handler \<times> codestream \<times> crp_status list) option" where
  "flush m th cs = flush_loop m th cs []"

declare parse_loop.simps [code] flush_loop.simps [code]

section \<open>Frame boundary\<close>

definition restart_blk :: "blk \<Rightarrow> blk" where
  "restart_blk b = b\<lparr>blk_length := 0, npasses := 0, pass_lengths0 := 0, pass_lengths1 := 0\<rparr>"

definition restart_pband :: "nat \<Rightarrow> nat \<Rightarrow> pband \<Rightarrow> pband option" where
  "restart_pband w h pb =
     do { incl \<leftarrow> pb_incl pb; incl \<leftarrow> tag_tree_zero incl w h;
          zbp \<leftarrow> pb_zbp pb; zbp \<leftarrow> tag_tree_zero zbp w h;
          blks \<leftarrow> pb_blk pb;
          if length blks < w * h then None
          else Some (pb\<lparr>pb_incl := Some incl, pb_zbp := Some zbp,
                 pb_blk := Some (map restart_blk (take (w * h) blks) @ drop (w * h) blks)\<rparr>) }"

definition restart_prec :: "prec \<Rightarrow> prec option" where
  "restart_prec pr =
     (if length (prec_pband pr) < prec_num_bands pr then None
      else do { pbs \<leftarrow> those (map (restart_pband (ncbw pr) (ncbh pr)) (take (prec_num_bands pr) (prec_pband pr)));
                Some (pr\<lparr>prec_pband := pbs @ drop (prec_num_bands pr) (prec_pband pr)\<rparr>) })"

definition restart_res :: "res \<Rightarrow> res option" where
  "restart_res rp =
     (let n = npw rp * nph rp mod 2 ^ 32
      in if length (res_prec rp) < n then None
         else do { ps \<leftarrow> those (map restart_prec (take n (res_prec rp)));
                   Some (rp\<lparr>res_prec := ps @ drop n (res_prec rp)\<rparr>) })"

definition restart_tcomp :: "tcomp \<Rightarrow> tcomp option" where
  "restart_tcomp tcp =
     (if length (tc_res tcp) < MAX_DWT_LEVEL + 1 then None
      else do { rs \<leftarrow> those (map restart_res (take (MAX_DWT_LEVEL + 1) (tc_res tcp)));
                Some (tcp\<lparr>tc_res := rs @ drop (MAX_DWT_LEVEL + 1) (tc_res tcp)\<rparr>) })"

definition restart_tile :: "tile \<Rightarrow> tile option" where
  "restart_tile t =
     (if length (tcomps t) < num_components t then None
      else do { tcs \<leftarrow> those (map restart_tcomp (take (num_components t) (tcomps t)));
                Some (t\<lparr>crp_idx := 0, tcomps := tcs @ drop (num_components t) (tcomps t)\<rparr>) })"

definition restart :: "tile_handler \<Rightarrow> tile_handler option" where
  "restart th =
     do { ts \<leftarrow> those (map restart_tile (tiles th));
          Some (th\<lparr>signal_queue := [], tiles := ts, arena := stackAlloc_reset\<rparr>) }"

section \<open>The walk keeps the chain\<close>

lemma try_recover_keeps: "try_recover th t cs = (ok, th', t', cs') \<Longrightarrow> keeps cs cs'"
  by (auto simp: try_recover_def Let_def keeps_reset split: list.splits if_splits)

text \<open>One round of either loop, as far as the reader is concerned.\<close>

lemma keeps_parse_loop:
  assumes ret: "parse_loop m th cs ev = Some r"
  shows "keeps cs (fst (snd (snd r)))"
proof (rule parse_loop.raw_induct [where P = "\<lambda>m th cs ev r. keeps cs (fst (snd (snd r)))", OF _ ret],
    goal_cases)
  case (1 f m th cs ev r)
  note IH = "1"(1)
  consider "r = (True, th, cs, ev)"
    | ok t cs1 where "parse_one_precinct m (tiles th ! 0) (mh_cocs (th_hdr th)) cs = Some (ok, t, cs1)"
        "\<exists>th1 ev1. f m th1 cs1 ev1 = Some r
         \<or> (\<exists>ok2 th2 t1 t2 cs2. try_recover th t1 cs1 = (ok2, th2, t2, cs2)
              \<and> (f m th1 cs2 ev1 = Some r \<or> fst (snd (snd r)) = cs2))"
    using "1"(2) by (auto simp: Let_def split: if_splits bind_splits prod.splits) blast+
  then show ?case
  proof cases
    case 1
    then show ?thesis by simp
  next
    case (2 ok t cs1)
    then have "keeps cs cs1" by (auto dest: parse_one_precinct_frame(1) reads_keeps)
    with 2(2) show ?thesis
      by (auto dest!: IH try_recover_keeps intro: keeps_trans)
  qed
qed

lemma keeps_flush_loop:
  assumes ret: "flush_loop m th cs ev = Some r"
  shows "keeps cs (fst (snd (snd r)))"
proof (rule flush_loop.raw_induct [where P = "\<lambda>m th cs ev r. keeps cs (fst (snd (snd r)))", OF _ ret],
    goal_cases)
  case (1 f m th cs ev r)
  note IH = "1"(1)
  consider "r = (True, th, cs, ev)"
    | ok t cs1 where "parse_one_precinct m (tiles th ! 0) (mh_cocs (th_hdr th)) cs = Some (ok, t, cs1)"
        "\<exists>th1 ev1. f m th1 cs1 ev1 = Some r
         \<or> (\<exists>ok2 th2 t1 t2 cs2. try_recover th t1 cs1 = (ok2, th2, t2, cs2)
              \<and> (f m th1 cs2 ev1 = Some r \<or> fst (snd (snd r)) = cs2))"
    using "1"(2) by (auto simp: Let_def split: if_splits bind_splits prod.splits) blast+
  then show ?case
  proof cases
    case 1
    then show ?thesis by simp
  next
    case (2 ok t cs1)
    then have "keeps cs cs1" by (auto dest: parse_one_precinct_frame(1) reads_keeps)
    with 2(2) show ?thesis
      by (auto dest!: IH try_recover_keeps intro: keeps_trans)
  qed
qed

lemma keeps_parse: "parse m th cs = Some (ok, th', cs', ev) \<Longrightarrow> keeps cs cs'"
  using keeps_parse_loop by (fastforce simp: parse_def)

lemma keeps_flush: "flush m th cs = Some (ok, th', cs', ev) \<Longrightarrow> keeps cs cs'"
  using keeps_flush_loop by (fastforce simp: flush_def)

section \<open>Recovery\<close>

lemma try_recover_failed:
  assumes "try_recover th t cs = (False, th', t', cs')"
  shows "t' = t" and "cs' = cs"
    and "th' = th\<lparr>signal_queue := dropWhile (\<lambda>s. byte_offset s \<le> get_pos cs) (signal_queue th)\<rparr>"
proof -
  let ?q = "dropWhile (\<lambda>s. byte_offset s \<le> get_pos cs) (signal_queue th)"
  have "t' = t \<and> cs' = cs \<and> th' = th\<lparr>signal_queue := ?q\<rparr>"
  proof (cases ?q)
    case Nil
    with assms show ?thesis unfolding try_recover_def Let_def
      by (simp del: dropWhile_eq_Nil_conv)
  next
    case (Cons sig rest)
    with assms show ?thesis unfolding try_recover_def Let_def by (simp split: if_splits)
  qed
  then show "t' = t" and "cs' = cs" and "th' = th\<lparr>signal_queue := ?q\<rparr>" by simp_all
qed

lemma try_recover_ok:
  assumes "try_recover th t cs = (True, th', t', cs')"
  obtains sig rest where
    "dropWhile (\<lambda>s. byte_offset s \<le> get_pos cs) (signal_queue th) = sig # rest"
    "unat (pid sig) mod unat (Csiz (mh_siz (th_hdr th))) < length (crp_idx_by_pid th)"
    "unat (pid sig) div unat (Csiz (mh_siz (th_hdr th)))
       < length (crp_idx_by_pid th ! (unat (pid sig) mod unat (Csiz (mh_siz (th_hdr th)))))"
    "th' = th\<lparr>signal_queue := rest\<rparr>"
    "crp_idx t \<le> crp_idx t'"
    "t' = t\<lparr>crp_idx := crp_idx_by_pid th ! (unat (pid sig) mod unat (Csiz (mh_siz (th_hdr th))))
            ! (unat (pid sig) div unat (Csiz (mh_siz (th_hdr th))))\<rparr>"
    "cs' = reset (byte_offset sig) cs"
proof (cases "dropWhile (\<lambda>s. byte_offset s \<le> get_pos cs) (signal_queue th)")
  case Nil
  with assms show ?thesis by (simp add: try_recover_def Let_def)
next
  case (Cons sig rest)
  show ?thesis
    by (rule that [OF Cons];
        use assms Cons in \<open>simp add: try_recover_def Let_def split: if_splits; fail | auto simp: try_recover_def Let_def split: if_splits\<close>)
qed

lemma try_recover_frame:
  assumes "try_recover th t cs = (ok, th', t', cs')"
  shows "tiles th' = tiles th" and "th_hdr th' = th_hdr th" and "prec_cb th' = prec_cb th"
    and "crp_idx_by_pid th' = crp_idx_by_pid th" and "ready th' = ready th"
    and "crp t' = crp t" and "tcomps t' = tcomps t" and "crp_idx t \<le> crp_idx t'"
proof -
  have "tiles th' = tiles th \<and> th_hdr th' = th_hdr th \<and> prec_cb th' = prec_cb th
      \<and> crp_idx_by_pid th' = crp_idx_by_pid th \<and> ready th' = ready th
      \<and> crp t' = crp t \<and> tcomps t' = tcomps t \<and> crp_idx t \<le> crp_idx t'"
  proof (cases ok)
    case True
    with assms have "try_recover th t cs = (True, th', t', cs')" by simp
    then show ?thesis by (rule try_recover_ok) simp
  next
    case False
    with assms have "try_recover th t cs = (False, th', t', cs')" by simp
    from try_recover_failed [OF this] show ?thesis by simp
  qed
  then show "tiles th' = tiles th" and "th_hdr th' = th_hdr th" and "prec_cb th' = prec_cb th"
    and "crp_idx_by_pid th' = crp_idx_by_pid th" and "ready th' = ready th"
    and "crp t' = crp t" and "tcomps t' = tcomps t" and "crp_idx t \<le> crp_idx t'"
    by simp_all
qed

text \<open>The positions of component \<open>c\<close>, in order: entry \<open>s\<close> is the \<open>s\<close>-th packet of \<open>c\<close>.\<close>

lemma filter_upt_nth:
  "s < length (filter P [0..<n]) \<Longrightarrow>
     (let i = filter P [0..<n] ! s in i < n \<and> P i \<and> length (filter P [0..<i]) = s)"
proof (induction n)
  case 0
  then show ?case by simp
next
  case (Suc n)
  show ?case
  proof (cases "s < length (filter P [0..<n])")
    case True
    with Suc.IH show ?thesis by (auto simp: nth_append Let_def)
  next
    case False
    with Suc.prems have "s = length (filter P [0..<n])" "P n"
      by (auto split: if_splits)
    then show ?thesis by (simp add: nth_append Let_def)
  qed
qed

lemma idx_by_component_nth:
  assumes "c < length (idx_by_component seq)" and "s < length (idx_by_component seq ! c)"
  shows "idx_by_component seq ! c ! s < length seq"
    and "crp_c (seq ! (idx_by_component seq ! c ! s)) = c"
    and "length (filter (\<lambda>i. crp_c (seq ! i) = c) [0..<idx_by_component seq ! c ! s]) = s"
proof -
  have c: "c < 3" using assms(1) by (simp add: idx_by_component_def)
  then have eq: "idx_by_component seq ! c = filter (\<lambda>i. crp_c (seq ! i) = c) [0..<length seq]"
    by (simp add: idx_by_component_def del: upt_Suc)
  show "idx_by_component seq ! c ! s < length seq"
    "crp_c (seq ! (idx_by_component seq ! c ! s)) = c"
    "length (filter (\<lambda>i. crp_c (seq ! i) = c) [0..<idx_by_component seq ! c ! s]) = s"
    using filter_upt_nth [of s "\<lambda>i. crp_c (seq ! i) = c" "length seq"] assms(2)
    by (simp_all add: eq Let_def)
qed

end
