(* ===== verification/Frame_Handler.thy ===== *)
theory Frame_Handler
  imports Tile_Handler
begin

text \<open>
  \<open>class frame_handler\<close> of \<open>src/frame_handler.hpp\<close>: one call of \<open>pull_data\<close> per RTP packet,
  which appends the packet's J2K bytes to the chain, keeps the slab until the frame ends,
  drives the tile handler, verifies or re-latches the stream geometry at every main packet and
  tells the registered consumers what happened.

  A call returns the new state and the callbacks it fired, in order. The two resync callbacks
  return a decision of the consumer; it is an argument of the call (each is asked at most once
  per packet). Time measurement is left out; the per-frame log and dump files (off by default) are
  added in \<open>Frame_Files\<close>.
\<close>

section \<open>State and events\<close>

datatype abort_reason = kAbortGap | kAbortParse | kAbortMissedEOC | kAbortSlabCap | kAbortDamagedEOC

datatype relatch_reason = kRelatchGeometry | kRelatchParseFail

datatype event =
    Ev_Chunk u64 addr nat
  | Ev_Abort abort_reason
  | Ev_Ready "chunk list" bool
  | Ev_Release nat
  | Ev_Relatch relatch_reason
  | Ev_Precinct crp_status
  | Ev_Resync_Gap u64
  | Ev_Resync_Point u32 u32

record callbacks =
  release_slab_cb :: bool
  frame_ready_cb :: bool
  chunk_cb :: bool
  frame_abort_cb :: bool
  resync_gap_cb :: bool
  resync_point_cb :: bool
  relatch_cb :: bool

record frame_handler =
  held_slabs :: "nat list"
  chain_total_bytes :: u64
  total_frames :: nat
  trunc_frames :: nat
  lost_frames :: nat
  start_SOD :: u32
  is_parsing_failure :: bool
  is_passed_header :: bool
  tile_hndr :: tile_handler
  fh_cs :: codestream
  cbk :: callbacks
  geom_sig :: u64
  relatch_k :: u32
  parse_fail_streak :: u32
  frame_parse_failed :: bool
  relatches :: nat
  resync_armed :: bool
  resync_soft :: bool
  abort_armed :: bool

definition callbacks_none :: callbacks where
  "callbacks_none = \<lparr>release_slab_cb = False, frame_ready_cb = False, chunk_cb = False,
     frame_abort_cb = False, resync_gap_cb = False, resync_point_cb = False, relatch_cb = False\<rparr>"

definition frame_handler_init :: frame_handler where
  "frame_handler_init = \<lparr>held_slabs = [], chain_total_bytes = 0, total_frames = 0, trunc_frames = 0,
     lost_frames = 0, start_SOD = 0, is_parsing_failure = False, is_passed_header = False,
     tile_hndr = tile_handler_init, fh_cs = codestream_init, cbk = callbacks_none, geom_sig = 0,
     relatch_k = 4, parse_fail_streak = 0, frame_parse_failed = False, relatches = 0,
     resync_armed = False, resync_soft = False, abort_armed = False\<rparr>"

text \<open>
  One packet as the receiver's hook hands it over, with the consumer's resync decisions. The size is a
  \<open>size_t\<close>; the running total it is added to wraps.
\<close>

record packet =
  payload :: addr
  psize :: nat
  marker :: bool
  slab_idx :: nat
  gap :: bool
  accept_gap :: bool
  accept_point :: bool

section \<open>Helpers\<close>

definition deliver_chunk :: "u64 \<Rightarrow> addr \<Rightarrow> nat \<Rightarrow> frame_handler \<Rightarrow> frame_handler \<times> event list" where
  "deliver_chunk off a n fh =
     (fh\<lparr>abort_armed := True\<rparr>, if chunk_cb (cbk fh) then [Ev_Chunk off a n] else [])"

definition fire_abort :: "abort_reason \<Rightarrow> frame_handler \<Rightarrow> frame_handler \<times> event list" where
  "fire_abort reason fh =
     (let fh = (if reason = kAbortParse then fh\<lparr>frame_parse_failed := True\<rparr> else fh);
          fh = fh\<lparr>resync_armed := False, resync_soft := False\<rparr>
      in if \<not> abort_armed fh then (fh, [])
         else (fh\<lparr>abort_armed := False\<rparr>, if frame_abort_cb (cbk fh) then [Ev_Abort reason] else []))"

definition end_frame_streak :: "bool \<Rightarrow> frame_handler \<Rightarrow> frame_handler" where
  "end_frame_streak clean fh =
     (if clean then fh\<lparr>parse_fail_streak := 0\<rparr>
      else if frame_parse_failed fh then fh\<lparr>parse_fail_streak := parse_fail_streak fh + 1\<rparr>
      else fh)\<lparr>frame_parse_failed := False\<rparr>"

definition release_held_slabs :: "frame_handler \<Rightarrow> frame_handler \<times> event list" where
  "release_held_slabs fh =
     (fh\<lparr>held_slabs := [], chain_total_bytes := 0, fh_cs := clear (fh_cs fh)\<rparr>,
      if release_slab_cb (cbk fh) then map Ev_Release (held_slabs fh) else [])"

definition restart_tiles :: "frame_handler \<Rightarrow> frame_handler option" where
  "restart_tiles fh = do { th \<leftarrow> restart (tile_hndr fh); Some (fh\<lparr>tile_hndr := th\<rparr>) }"

definition append_data :: "addr \<Rightarrow> nat \<Rightarrow> nat \<Rightarrow> frame_handler \<Rightarrow> frame_handler" where
  "append_data a n slab fh =
     fh\<lparr>fh_cs := append_chunk a n (fh_cs fh), held_slabs := held_slabs fh @ [slab],
        chain_total_bytes := chain_total_bytes fh + word_of_nat n\<rparr>"

section \<open>The RFC 9828 sub-header\<close>

definition pkt_MH :: "memory \<Rightarrow> packet \<Rightarrow> nat" where
  "pkt_MH m p = unat (drop_bit 6 (m (payload p)))"

definition pkt_ORDB :: "memory \<Rightarrow> packet \<Rightarrow> bool" where
  "pkt_ORDB m p \<longleftrightarrow> drop_bit 7 (m (payload p + 1)) AND 1 = 1"

definition pkt_POS_PID :: "memory \<Rightarrow> packet \<Rightarrow> u32" where
  "pkt_POS_PID m p = be32 (mem_read m (payload p + 4) 4) 0"

definition pkt_PID :: "memory \<Rightarrow> packet \<Rightarrow> u32" where
  "pkt_PID m p = pkt_POS_PID m p AND 0x000FFFFF"

definition pkt_POS :: "memory \<Rightarrow> packet \<Rightarrow> u32" where
  "pkt_POS m p = drop_bit 20 (pkt_POS_PID m p)"

abbreviation (input) "j2k_payload p \<equiv> payload p + 8"

section \<open>The parts of \<open>pull_data\<close>\<close>

text \<open>A gap before this packet, with a frame in flight.\<close>

definition on_gap :: "packet \<Rightarrow> frame_handler \<Rightarrow> frame_handler \<times> event list" where
  "on_gap p fh =
     (if gap p \<and> (is_passed_header fh \<or> held_slabs fh \<noteq> []) \<and> \<not> is_parsing_failure fh
      then let ask = resync_gap_cb (cbk fh) \<and> is_passed_header fh;
               ev = (if ask then [Ev_Resync_Gap (chain_total_bytes fh)] else [])
           in if ask \<and> accept_gap p then (fh\<lparr>resync_armed := True, resync_soft := True\<rparr>, ev)
              else let (fh, ev') = fire_abort kAbortGap fh
                   in (fh\<lparr>is_parsing_failure := True\<rparr>, ev @ ev')
      else (fh, []))"

text \<open>The cap on held slabs.\<close>

definition on_slab_cap :: "frame_handler \<Rightarrow> (frame_handler \<times> event list) option" where
  "on_slab_cap fh =
     (if 3072 \<le> length (held_slabs fh)
      then let (fh, ev1) = fire_abort kAbortSlabCap fh;
               (fh, ev2) = release_held_slabs fh
           in do { fh \<leftarrow> restart_tiles fh;
                   let fh = end_frame_streak False (fh\<lparr>trunc_frames := trunc_frames fh + 1\<rparr>);
                   Some (fh\<lparr>is_parsing_failure := False, is_passed_header := False\<rparr>, ev1 @ ev2) }
      else Some (fh, []))"

text \<open>A body packet outside a tracked frame is dropped; its EOC closes a failed frame.\<close>

definition skip_body :: "packet \<Rightarrow> frame_handler \<Rightarrow> (frame_handler \<times> event list) option" where
  "skip_body p fh =
     (let rel = (if release_slab_cb (cbk fh) then [Ev_Release (slab_idx p)] else [])
      in if marker p
         then let (fh, ev) =
                  (if is_parsing_failure fh \<or> is_passed_header fh
                   then let (fh, ev) = fire_abort kAbortDamagedEOC fh
                        in (end_frame_streak False (fh\<lparr>trunc_frames := trunc_frames fh + 1,
                              total_frames := total_frames fh + 1\<rparr>), ev)
                   else (fh, []));
                  (fh, ev') = release_held_slabs (fh\<lparr>is_parsing_failure := False, is_passed_header := False\<rparr>)
              in do { fh \<leftarrow> restart_tiles fh; Some (fh, rel @ ev @ ev') }
         else Some (fh, rel))"

text \<open>Stale chunks of a frame whose EOC was missed.\<close>

definition drop_stale :: "frame_handler \<Rightarrow> (frame_handler \<times> event list) option" where
  "drop_stale fh =
     (if held_slabs fh \<noteq> []
      then let (fh, ev1) = fire_abort kAbortMissedEOC fh;
               (fh, ev2) = release_held_slabs fh
           in do { fh \<leftarrow> restart_tiles fh;
                   let fh = (if is_passed_header fh \<or> is_parsing_failure fh
                     then end_frame_streak False (fh\<lparr>trunc_frames := trunc_frames fh + 1,
                            total_frames := total_frames fh + 1\<rparr>)
                     else fh);
                   Some (fh\<lparr>is_passed_header := False\<rparr>, ev1 @ ev2) }
      else Some (fh, []))"

text \<open>
  The geometry check of a complete main header: the re-latch decision, or \<open>Inl\<close> when the
  header is malformed on a latched stream.
\<close>

definition check_geometry :: "u64 \<Rightarrow> frame_handler \<Rightarrow> unit + (relatch_reason option \<times> frame_handler)" where
  "check_geometry sig fh =
     (if sig = 0 \<and> ready (tile_hndr fh) then Inl ()
      else if ready (tile_hndr fh)
      then let fh = (if geom_sig fh = 0 then fh\<lparr>geom_sig := sig\<rparr> else fh);
               rl = (if relatch_k fh \<noteq> 0 \<and> relatch_k fh \<le> parse_fail_streak fh then Some kRelatchParseFail
                     else if sig \<noteq> geom_sig fh then Some kRelatchGeometry else None)
           in Inr (rl, if rl \<noteq> None then fh\<lparr>tile_hndr := invalidate (tile_hndr fh)\<rparr> else fh)
      else Inr (None, fh))"

text \<open>
  Full parse of a complete main header. The Boolean is \<open>False\<close> for the early \<open>return\<close> of a
  failed parse.
\<close>

definition latch_header :: "memory \<Rightarrow> uninit \<Rightarrow> u64 \<Rightarrow> relatch_reason option \<Rightarrow> frame_handler \<Rightarrow>
    (bool \<times> frame_handler \<times> event list) option" where
  "latch_header m U sig rl fh =
     do { (sod, h, cs) \<leftarrow> parse_main_header m (reset 0 (fh_cs fh)) (th_hdr (tile_hndr fh));
          let fh = fh\<lparr>start_SOD := sod, fh_cs := cs, tile_hndr := (tile_hndr fh)\<lparr>th_hdr := h\<rparr>\<rparr>;
          (ok, th) \<leftarrow> (if sod = 0 then Some (False, tile_hndr fh) else create U (tile_hndr fh));
          let fh = fh\<lparr>tile_hndr := th\<rparr>;
          if \<not> ok
          then let (fh, ev) = fire_abort kAbortParse fh
               in Some (False, fh\<lparr>is_parsing_failure := True\<rparr>, ev)
          else let fh = fh\<lparr>is_passed_header := True, geom_sig := sig, parse_fail_streak := 0\<rparr>
               in Some (True, case rl of None \<Rightarrow> (fh, [])
                    | Some why \<Rightarrow> (fh\<lparr>relatches := relatches fh + 1\<rparr>,
                        if relatch_cb (cbk fh) then [Ev_Relatch why] else [])) }"

text \<open>
  Verification or latching of the header of a frame whose first chunk is in the chain. The
  Boolean is \<open>False\<close> where the code returns before the marker test.
\<close>

definition judge_header :: "memory \<Rightarrow> uninit \<Rightarrow> packet \<Rightarrow> frame_handler \<Rightarrow>
    (bool \<times> frame_handler \<times> event list) option" where
  "judge_header m U p fh =
     (let (sig, sod) = (if 2 \<le> pkt_MH m p then geometry_signature m (j2k_payload p) (psize p) else (0, None))
      in case (if 2 \<le> pkt_MH m p then check_geometry sig fh else Inr (None, fh)) of
           Inl _ \<Rightarrow> (let (fh, ev) = fire_abort kAbortParse fh in Some (False, fh\<lparr>is_parsing_failure := True\<rparr>, ev))
         | Inr (rl, fh) \<Rightarrow>
             (if \<not> ready (tile_hndr fh)
              then if 2 \<le> pkt_MH m p then latch_header m U sig rl fh
                   else let fh = fh\<lparr>start_SOD := start_SOD fh + word_of_nat (psize p)\<rparr>
                        in Some (start_SOD fh \<noteq> 0, fh, [])
              else let fh = (case sod of Some s \<Rightarrow> if s \<noteq> 0 then fh\<lparr>start_SOD := s\<rparr> else fh | None \<Rightarrow> fh)
                   in Some (True, fh\<lparr>fh_cs := reset (start_SOD fh) (fh_cs fh), is_passed_header := True\<rparr>, [])))"

text \<open>A main packet.\<close>

definition main_packet :: "memory \<Rightarrow> uninit \<Rightarrow> packet \<Rightarrow> frame_handler \<Rightarrow>
    (bool \<times> frame_handler \<times> event list) option" where
  "main_packet m U p fh =
     do { (fh, ev1) \<leftarrow> drop_stale fh;
          let fh = fh\<lparr>is_parsing_failure := False, frame_parse_failed := False\<rparr>;
          let (fh, ev2) = deliver_chunk (chain_total_bytes fh) (j2k_payload p) (psize p) fh;
          let fh = append_data (j2k_payload p) (psize p) (slab_idx p) fh;
          (cont, fh, ev3) \<leftarrow> judge_header m U p fh;
          Some (cont, fh, ev1 @ ev2 @ ev3) }"

text \<open>\<open>ACTION(func, ...)\<close>: a non-zero result marks the frame failed.\<close>

definition action :: "bool \<times> tile_handler \<times> codestream \<times> crp_status list \<Rightarrow> frame_handler \<Rightarrow>
    frame_handler \<times> event list" where
  "action r fh =
     (let (ok, th, cs, ps) = r;
          fh = fh\<lparr>tile_hndr := th, fh_cs := cs\<rparr>
      in (if ok then fh else fh\<lparr>is_parsing_failure := True, is_passed_header := False\<rparr>, map Ev_Precinct ps))"

text \<open>A body packet of a tracked frame.\<close>

definition body_packet :: "memory \<Rightarrow> packet \<Rightarrow> frame_handler \<Rightarrow> (frame_handler \<times> event list) option" where
  "body_packet m p fh =
     (let (fh, ev1) = deliver_chunk (chain_total_bytes fh) (j2k_payload p) (psize p) fh;
          resync_byte = ucast (chain_total_bytes fh) + pkt_POS m p;
          fh = append_data (j2k_payload p) (psize p) (slab_idx p) fh
      in if pkt_ORDB m p \<and> is_passed_header fh
         then let fh = fh\<lparr>tile_hndr := append_signal resync_byte (pkt_PID m p) (tile_hndr fh)\<rparr>;
                  offer = resync_armed fh \<and> resync_point_cb (cbk fh);
                  ev2 = (if offer then [Ev_Resync_Point resync_byte (pkt_PID m p)] else []);
                  fh = (if offer \<and> accept_point p then fh\<lparr>resync_armed := False\<rparr> else fh)
              in if \<not> is_parsing_failure fh \<and> \<not> resync_soft fh
                 then do { r \<leftarrow> parse m (tile_hndr fh) (fh_cs fh);
                           let (fh, ev3) = action r fh;
                           let (fh, ev4) = (if is_parsing_failure fh then fire_abort kAbortParse fh else (fh, []));
                           Some (fh, ev1 @ ev2 @ ev3 @ ev4) }
                 else Some (fh, ev1 @ ev2)
         else Some (fh, ev1))"

text \<open>The marker: EOC of this frame.\<close>

definition end_of_frame :: "memory \<Rightarrow> frame_handler \<Rightarrow> (frame_handler \<times> event list) option" where
  "end_of_frame m fh =
     (let fh = fh\<lparr>abort_armed := False, resync_armed := False\<rparr>;
          frame_intact = (\<not> is_parsing_failure fh \<and> is_passed_header fh \<and> \<not> resync_soft fh);
          fh = fh\<lparr>resync_soft := False\<rparr>
      in do {
        (fh, ev1) \<leftarrow> (if frame_intact
           then do { r \<leftarrow> flush m (tile_hndr fh) (fh_cs fh);
                     let (fh, ev) = action r fh;
                     Some (if is_parsing_failure fh then fh\<lparr>frame_parse_failed := True\<rparr> else fh, ev) }
           else Some (fh, []));
        let fh = end_frame_streak (frame_intact \<and> \<not> is_parsing_failure fh) fh;
        let ev2 = (if frame_ready_cb (cbk fh) then [Ev_Ready (cs_chunks (fh_cs fh)) frame_intact] else []);
        let fh = fh\<lparr>trunc_frames := trunc_frames fh + (if is_parsing_failure fh then 1 else 0),
                    total_frames := total_frames fh + 1,
                    is_parsing_failure := False, is_passed_header := False\<rparr>;
        let (fh, ev3) = release_held_slabs fh;
        fh \<leftarrow> restart_tiles fh;
        Some (fh, ev1 @ ev2 @ ev3) })"

section \<open>\<open>pull_data\<close>\<close>

definition pull_data :: "memory \<Rightarrow> uninit \<Rightarrow> packet \<Rightarrow> frame_handler \<Rightarrow> (frame_handler \<times> event list) option" where
  "pull_data m U p fh =
     (let (fh, ev1) = on_gap p fh in
      do { (fh, ev2) \<leftarrow> on_slab_cap fh;
           if pkt_MH m p = 0 \<and> (\<not> is_passed_header fh \<or> is_parsing_failure fh)
           then do { (fh, ev3) \<leftarrow> skip_body p fh; Some (fh, ev1 @ ev2 @ ev3) }
           else do {
             (cont, fh, ev3) \<leftarrow> (if 1 \<le> pkt_MH m p then main_packet m U p fh
                                 else do { (fh, ev) \<leftarrow> body_packet m p fh; Some (True, fh, ev) });
             if cont \<and> marker p
             then do { (fh, ev4) \<leftarrow> end_of_frame m fh; Some (fh, ev1 @ ev2 @ ev3 @ ev4) }
             else Some (fh, ev1 @ ev2 @ ev3) } })"

text \<open>One packet together with the bytes in memory and the uninitialised storage it meets.\<close>

definition pull_step :: "memory \<times> uninit \<times> packet \<Rightarrow> frame_handler \<Rightarrow> (frame_handler \<times> event list) option" where
  "pull_step i = pull_data (fst i) (fst (snd i)) (snd (snd i))"

section \<open>Configuration\<close>

text \<open>The setters; a callback is registered with a null or a non-null function pointer.\<close>

definition fh_set_precinct_callback :: "bool \<Rightarrow> frame_handler \<Rightarrow> frame_handler" where
  "fh_set_precinct_callback b fh = fh\<lparr>tile_hndr := set_precinct_callback b (tile_hndr fh)\<rparr>"

definition fh_set_parse_holdback :: "u32 \<Rightarrow> frame_handler \<Rightarrow> frame_handler" where
  "fh_set_parse_holdback n fh = fh\<lparr>tile_hndr := set_parse_holdback n (tile_hndr fh)\<rparr>"

definition set_release_slab_callback :: "bool \<Rightarrow> frame_handler \<Rightarrow> frame_handler" where
  "set_release_slab_callback b fh = fh\<lparr>cbk := (cbk fh)\<lparr>release_slab_cb := b\<rparr>\<rparr>"

definition set_frame_ready_callback :: "bool \<Rightarrow> frame_handler \<Rightarrow> frame_handler" where
  "set_frame_ready_callback b fh = fh\<lparr>cbk := (cbk fh)\<lparr>frame_ready_cb := b\<rparr>\<rparr>"

definition set_chunk_callback :: "bool \<Rightarrow> frame_handler \<Rightarrow> frame_handler" where
  "set_chunk_callback b fh = fh\<lparr>cbk := (cbk fh)\<lparr>chunk_cb := b\<rparr>\<rparr>"

definition set_frame_abort_callback :: "bool \<Rightarrow> frame_handler \<Rightarrow> frame_handler" where
  "set_frame_abort_callback b fh = fh\<lparr>cbk := (cbk fh)\<lparr>frame_abort_cb := b\<rparr>\<rparr>"

definition set_resync_callbacks :: "bool \<Rightarrow> bool \<Rightarrow> frame_handler \<Rightarrow> frame_handler" where
  "set_resync_callbacks g p fh = fh\<lparr>cbk := (cbk fh)\<lparr>resync_gap_cb := g, resync_point_cb := p\<rparr>\<rparr>"

definition set_stream_relatch_callback :: "bool \<Rightarrow> frame_handler \<Rightarrow> frame_handler" where
  "set_stream_relatch_callback b fh = fh\<lparr>cbk := (cbk fh)\<lparr>relatch_cb := b\<rparr>\<rparr>"

definition set_relatch_parse_fail_k :: "u32 \<Rightarrow> frame_handler \<Rightarrow> frame_handler" where
  "set_relatch_parse_fail_k k fh = fh\<lparr>relatch_k := k\<rparr>"

definition countup_lost_frames :: "frame_handler \<Rightarrow> frame_handler" where
  "countup_lost_frames fh = fh\<lparr>lost_frames := lost_frames fh + 1\<rparr>"

end
