(* ===== verification/Header_Signature.thy ===== *)
theory Header_Signature
  imports J2k_Header
begin

text \<open>
  What \<open>geometry_signature\<close> (\<open>src/packet_parser/j2k_header.cpp\<close>) computes, as a function of the
  byte string of a main header: its marker segments up to SOD and a hash, in the manner of FNV-1a, of those that
  carry geometry. The re-latch logic of \<open>frame_handler\<close> relies on headers with the same geometry
  segments having the same signature.
\<close>

section \<open>Marker segments\<close>

text \<open>
  The segments of a header up to SOD, each with its marker code and all its bytes, or \<open>None\<close> if
  the framing is broken.
\<close>

function header_segments :: "byte list \<Rightarrow> (u16 \<times> byte list) list option" where
  "header_segments bs =
     (if length bs < 2 then None
      else let marker = be16 bs 0; seg = unat (be16 bs 2)
           in if marker = SOD then Some []
              else if bad_marker marker \<or> length bs < 4 \<or> seg < 2 \<or> length bs < 2 + seg then None
              else map_option ((#) (marker, take (2 + seg) bs)) (header_segments (drop (2 + seg) bs)))"
  by pat_completeness auto
termination
  by (relation "measure length") auto

declare header_segments.simps [simp del]

definition geometry_bytes :: "(u16 \<times> byte list) list \<Rightarrow> byte list" where
  "geometry_bytes segs = concat (map snd (filter (\<lambda>s. geometry_marker (fst s)) segs))"

text \<open>
  FNV-1a with 64 bits: for each byte, exclusive or and multiplication with the prime \<open>2^40 + 2^8 + 0xB3\<close>, from a start value. The
  algorithm fixes the start value \<open>0xCBF29CE484222325\<close>.
\<close>

fun fnv1a_from :: "u64 \<Rightarrow> byte list \<Rightarrow> u64" where
  "fnv1a_from h [] = h"
| "fnv1a_from h (b # bs) = fnv1a_from ((h XOR ucast b) * (2 ^ 40 + 2 ^ 8 + 0xB3)) bs"

definition fnv1a :: "byte list \<Rightarrow> u64" where
  "fnv1a bs = fnv1a_from 0xCBF29CE484222325 bs"

text \<open>The code's start value lacks the last digit of the standard one.\<close>

lemma fnv_basis_not_standard: "fnv_basis \<noteq> 0xCBF29CE484222325" "unat fnv_basis = 0xCBF29CE484222325 div 10"
  by (simp_all add: fnv_basis_def)

lemma not_fnv1a: "fnv1a_from fnv_basis [] \<noteq> fnv1a []"
  by (simp add: fnv1a_def fnv_basis_def)

lemma fnv_step_prime: "foldl fnv_step h bs = fnv1a_from h bs"
  by (induction bs arbitrary: h) (simp_all add: fnv_step_def)

section \<open>The scan computes the hash\<close>

lemma rd16_be16:
  assumes "i + 2 \<le> n"
  shows "rd16 m a i = be16 (mem_read m a n) i"
  using assms by (simp add: rd16_def be16_def byte_or_0_def)

lemma signature_loop_segments:
  "off \<le> len \<Longrightarrow>
   signature_loop m mh len off h =
     (case header_segments (mem_read m (mh + off) (len - off)) of None \<Rightarrow> (0, None)
      | Some segs \<Rightarrow>
          let h' = foldl fnv_step h (geometry_bytes segs)
          in (if h' \<noteq> 0 then h' else 1, Some (word_of_nat (off + length (concat (map snd segs)) + 2))))"
proof (induction m mh len off h rule: signature_loop.induct)
  case (1 m mh len off h)
  let ?bs = "mem_read m (mh + off) (len - off)"
  let ?mk = "be16 ?bs 0" and ?seg = "unat (be16 ?bs 2)"
  show ?case
  proof (cases "off + 2 \<le> len")
    case False
    then have "len - off < 2" by simp
    with False show ?thesis by (simp add: signature_loop.simps [of m mh len off] header_segments.simps [of ?bs])
  next
    case len2: True
    have mk: "rd16 m mh off = ?mk"
      using rd16_be16 [of 0 "len - off" m "mh + off"] len2 by (simp add: rd16_def)
    show ?thesis
    proof (cases "?mk = SOD \<or> bad_marker ?mk \<or> len < off + 4")
      case True
      with len2 mk show ?thesis
        by (auto simp: signature_loop.simps [of m mh len off] header_segments.simps [of ?bs] geometry_bytes_def Let_def)
    next
      case False
      then have "2 + 2 \<le> len - off" by linarith
      from rd16_be16 [OF this, of m "mh + off"] have sg: "rd16 m mh (off + 2) = be16 ?bs 2"
        by (simp add: rd16_def add.assoc)
      show ?thesis
      proof (cases "?seg < 2 \<or> len < off + 2 + ?seg")
        case True
        with False len2 mk sg show ?thesis
          by (auto simp: signature_loop.simps [of m mh len off] header_segments.simps [of ?bs] Let_def)
      next
        case seg: False
        let ?h = "if geometry_marker ?mk then mix m mh off (2 + ?seg) h else h"
        have step: "signature_loop m mh len off h = signature_loop m mh len (off + 2 + ?seg) ?h"
          using seg False len2 mk sg by (simp add: signature_loop.simps [of m mh len off] Let_def)
        have hs: "header_segments ?bs = map_option ((#) (?mk, mem_read m (mh + off) (2 + ?seg)))
            (header_segments (mem_read m (mh + (off + 2 + ?seg)) (len - (off + 2 + ?seg))))"
          using seg False len2
          by (subst header_segments.simps) (auto simp: Let_def min_def add.assoc)
        have IH: "signature_loop m mh len (off + 2 + ?seg) ?h =
          (case header_segments (mem_read m (mh + (off + 2 + ?seg)) (len - (off + 2 + ?seg))) of None \<Rightarrow> (0, None)
           | Some segs \<Rightarrow>
               let h' = foldl fnv_step ?h (geometry_bytes segs)
               in (if h' \<noteq> 0 then h' else 1,
                   Some (word_of_nat (off + 2 + ?seg + length (concat (map snd segs)) + 2))))"
          using "1.IH" [of ?mk ?seg] seg False len2 mk sg by simp
        show ?thesis
          unfolding step IH hs
          by (cases "header_segments (mem_read m (mh + (off + 2 + ?seg)) (len - (off + 2 + ?seg)))")
            (simp_all add: geometry_bytes_def mix_def Let_def add_ac)
      qed
    qed
  qed
qed

section \<open>The signature\<close>

lemma geometry_signature_eq:
  "geometry_signature m a len =
     (if len < 4 \<or> be16 (mem_read m a len) 0 \<noteq> SOC then (0, None)
      else case header_segments (drop 2 (mem_read m a len)) of None \<Rightarrow> (0, None)
           | Some segs \<Rightarrow>
               let h = fnv1a_from fnv_basis (geometry_bytes segs)
               in (if h \<noteq> 0 then h else 1, Some (word_of_nat (4 + length (concat (map snd segs))))))"
proof (cases "len < 4")
  case False
  then have "rd16 m a 0 = be16 (mem_read m a len) 0" by (intro rd16_be16) simp
  with False signature_loop_segments [of 2 len m a fnv_basis] show ?thesis
    by (auto simp: geometry_signature_def fnv_step_prime Let_def numeral_eq_Suc split: option.splits)
qed (simp add: geometry_signature_def)

text \<open>
  C26: \<open>geometry_signature\<close> computes a hash of the geometry: for every byte string it returns 0
  exactly when the string does not start with SOC or its framing up to SOD is broken; otherwise
  the hash of the SIZ, COD, COC, QCD, QCC, DFS and ATK segments in order (with 0 mapped
  to 1) and the offset of the byte after SOD. The hash runs the rounds of FNV-1a from the start value
  1469598103934665603. That is not the start value of FNV-1a, which the comments of the source name, so
  the result is not the FNV-1a hash (\<open>not_fnv1a\<close>); the re-latch logic compares signatures only with each other.
\<close>

theorem geometry_signature_hash:
  "geometry_signature m a len =
     (if 4 \<le> len \<and> be16 (mem_read m a len) 0 = SOC
      then case header_segments (drop 2 (mem_read m a len)) of None \<Rightarrow> (0, None)
           | Some segs \<Rightarrow>
               let h = fnv1a_from 1469598103934665603 (geometry_bytes segs)
               in (if h = 0 then 1 else h, Some (word_of_nat (4 + length (concat (map snd segs)))))
      else (0, None))"
  by (auto simp: geometry_signature_eq fnv_basis_def Let_def split: option.splits)

text \<open>
  C27: Headers that differ only in segments that carry no geometry (CAP, COM, CPF and so on, in
  number, length or content) have the same signature, and it is not the 0 that marks a broken
  header: a change of rate or comment never looks like a new stream.
\<close>

theorem same_geometry_same_signature:
  assumes "4 \<le> len" "be16 (mem_read m a len) 0 = SOC" "header_segments (drop 2 (mem_read m a len)) = Some segs"
    and "4 \<le> len'" "be16 (mem_read m' a' len') 0 = SOC" "header_segments (drop 2 (mem_read m' a' len')) = Some segs'"
    and "filter (\<lambda>s. geometry_marker (fst s)) segs = filter (\<lambda>s. geometry_marker (fst s)) segs'"
  shows "fst (geometry_signature m a len) = fst (geometry_signature m' a' len')
    \<and> fst (geometry_signature m a len) \<noteq> 0"
  using assms by (simp add: geometry_signature_eq geometry_bytes_def Let_def)

text \<open>A header with a COD segment, without and with a comment before it.\<close>

definition short_header :: "byte list" where
  "short_header = [0xFF, 0x4F, 0xFF, 0x52, 0, 3, 9, 0xFF, 0x93]"

definition commented_header :: "byte list" where
  "commented_header = [0xFF, 0x4F, 0xFF, 0x64, 0, 4, 1, 2, 0xFF, 0x52, 0, 3, 9, 0xFF, 0x93]"

definition list_mem :: "byte list \<Rightarrow> memory" where
  "list_mem bs a = (if a < length bs then bs ! a else 0)"

theorem same_geometry_same_signature_witness:
  "fst (geometry_signature (list_mem short_header) 0 9) = fst (geometry_signature (list_mem commented_header) 0 15)
     \<and> fst (geometry_signature (list_mem short_header) 0 9) \<noteq> 0"
proof (rule same_geometry_same_signature
    [where segs = "[(COD, [0xFF, 0x52, 0, 3, 9])]"
       and segs' = "[(0xFF64, [0xFF, 0x64, 0, 4, 1, 2]), (COD, [0xFF, 0x52, 0, 3, 9])]"])
  show "header_segments (drop 2 (mem_read (list_mem short_header) 0 9)) = Some [(COD, [0xFF, 0x52, 0, 3, 9])]"
    "header_segments (drop 2 (mem_read (list_mem commented_header) 0 15)) =
       Some [(0xFF64, [0xFF, 0x64, 0, 4, 1, 2]), (COD, [0xFF, 0x52, 0, 3, 9])]"
    "be16 (mem_read (list_mem short_header) 0 9) 0 = SOC"
    "be16 (mem_read (list_mem commented_header) 0 15) 0 = SOC"
    by code_simp+
qed (simp_all add: geometry_marker_def)

end
