(* ===== verification/Frame_Contract.thy ===== *)
theory Frame_Contract
  imports Frame_Handler Header_Signature
begin

text \<open>
  What \<open>frame_handler\<close> promises to its consumers (the comments at \<open>ChunkCb\<close>, \<open>FrameAbortCb\<close>,
  \<open>FrameReadyCb\<close> and \<open>ReleaseSlabCb\<close> of \<open>src/frame_handler.hpp\<close>): an acceptor of the callbacks,
  the invariant that ties it to the handler's state, and the account of the slabs. The acceptor is
  the promise with one exception that the code makes, a frame that is aborted and then completed
  all the same; everything else it forbids never happens.
\<close>

section \<open>The consumer\<close>

text \<open>
  The consumer's view: no frame, a frame with the chunks received so far, or a frame that was just
  aborted for a parse failure. \<open>deliver\<close> accepts an event that may come next: chunks are contiguous
  (offsets are of type \<open>size_t\<close>) and a frame starts at offset 0; an abort hits an open frame; a completed
  frame was open and carries exactly the chunks delivered; slabs are released, and so their bytes
  given up, only while no frame is open; every other callback belongs to an open frame.

  The comment at \<open>ChunkCb\<close> says that a frame ends in \<open>frame_ready\<close> or in an abort, never in both. The
  exception is \<open>Failed\<close>: when the last packet of a frame fails to parse, the abort is directly followed by
  \<open>frame_ready\<close>, with the chunks delivered and not intact (\<open>abort_then_ready\<close> below).
\<close>

datatype consumer = Idle | Open "chunk list" | Failed "chunk list"

definition deliver :: "consumer \<Rightarrow> event \<Rightarrow> consumer option" where
  "deliver k ev = (case ev of
       Ev_Chunk off a n \<Rightarrow>
         let c = \<lparr>chunk_base = a, chunk_len = n\<rparr> in
         (case k of Open l \<Rightarrow> if off = word_of_nat (sum_list (map chunk_len l)) then Some (Open (l @ [c])) else None
          | _ \<Rightarrow> if off = 0 then Some (Open [c]) else None)
     | Ev_Abort r \<Rightarrow> (case k of Open l \<Rightarrow> Some (if r = kAbortParse then Failed l else Idle) | _ \<Rightarrow> None)
     | Ev_Ready l intact \<Rightarrow>
         (case k of Open l' \<Rightarrow> if l = l' then Some Idle else None
          | Failed l' \<Rightarrow> if l = l' \<and> \<not> intact then Some Idle else None
          | Idle \<Rightarrow> None)
     | Ev_Release i \<Rightarrow> (case k of Open l \<Rightarrow> None | _ \<Rightarrow> Some Idle)
     | Ev_Resync_Gap n \<Rightarrow>
         (case k of Open l \<Rightarrow> if n = word_of_nat (sum_list (map chunk_len l)) then Some k else None | _ \<Rightarrow> None)
     | _ \<Rightarrow> (case k of Open l \<Rightarrow> Some k | _ \<Rightarrow> None))"

fun closed :: "consumer \<Rightarrow> bool" where
  "closed Idle = True"
| "closed (Open l) = False"
| "closed (Failed l) = True"

lemma deliver_closed [simp]:
  "closed k \<Longrightarrow> deliver k (Ev_Release i) = Some Idle"
  "closed k \<Longrightarrow> deliver k (Ev_Chunk 0 a n) = Some (Open [\<lparr>chunk_base = a, chunk_len = n\<rparr>])"
  by (cases k; simp add: deliver_def)+

lemma deliver_open [simp]:
  "deliver (Open l) (Ev_Chunk off a n)
     = (if off = word_of_nat (sum_list (map chunk_len l)) then Some (Open (l @ [\<lparr>chunk_base = a, chunk_len = n\<rparr>])) else None)"
  "deliver (Open l) (Ev_Abort r) = Some (if r = kAbortParse then Failed l else Idle)"
  "deliver (Open l) (Ev_Ready l' b) = (if l' = l then Some Idle else None)"
  "deliver (Failed l) (Ev_Ready l' b) = (if l' = l \<and> \<not> b then Some Idle else None)"
  "deliver (Open l) (Ev_Release i) = None"
  "deliver (Open l) (Ev_Precinct ct) = Some (Open l)" "deliver (Open l) (Ev_Relatch w) = Some (Open l)"
  "deliver (Open l) (Ev_Resync_Point rb pd) = Some (Open l)"
  "deliver (Open l) (Ev_Resync_Gap seam) = (if seam = word_of_nat (sum_list (map chunk_len l)) then Some (Open l) else None)"
  by (simp_all add: deliver_def)

text \<open>
  The invariant between packets, for handlers with the three delivery callbacks registered.
\<close>

definition fh_inv :: "consumer \<Rightarrow> frame_handler \<Rightarrow> bool" where
  "fh_inv k fh \<longleftrightarrow>
     chunk_cb (cbk fh) \<and> frame_abort_cb (cbk fh) \<and> frame_ready_cb (cbk fh)
     \<and> chain_total_bytes fh = word_of_nat (cs_total (fh_cs fh))
     \<and> length (held_slabs fh) = length (cs_chunks (fh_cs fh))
     \<and> (abort_armed fh \<longleftrightarrow> is_passed_header fh \<and> \<not> is_parsing_failure fh)
     \<and> (held_slabs fh \<noteq> [] \<longleftrightarrow> is_passed_header fh \<or> is_parsing_failure fh)
     \<and> (if abort_armed fh then k = Open (cs_chunks (fh_cs fh)) else closed k)"

lemma observe_releases [simp]:
  "closed k \<Longrightarrow> observe deliver (map Ev_Release is) k = Some (if is = [] then k else Idle)"
  by (induction "is" arbitrary: k) auto

lemma observe_precincts [simp]: "observe deliver (map Ev_Precinct ps) (Open l) = Some (Open l)"
  by (induction ps) auto

lemma cs_total_clear [simp]: "cs_total (clear cs) = 0" "cs_chunks (clear cs) = []"
  by (simp_all add: clear_def cs_total_def)

lemma cs_append_chunk [simp]:
  "cs_total (append_chunk a n cs) = cs_total cs + n"
  "cs_chunks (append_chunk a n cs) = cs_chunks cs @ [\<lparr>chunk_base = a, chunk_len = n\<rparr>]"
  by (simp_all add: append_chunk_def cs_total_def)

lemma cs_total_keeps: "keeps cs cs' \<Longrightarrow> cs_chunks cs' = cs_chunks cs"
  by (simp add: keeps_def)

lemmas part_defs = fire_abort_def release_held_slabs_def restart_tiles_def end_frame_streak_def
  deliver_chunk_def append_data_def Let_def

lemma restart_frame:
  assumes "restart_tiles fh = Some fh'"
  obtains th where "fh' = fh\<lparr>tile_hndr := th\<rparr>"
  using assms by (auto simp: restart_tiles_def split: bind_splits)

section \<open>Each part keeps the contract\<close>

lemma on_gap_inv:
  assumes "fh_inv k fh" and "on_gap p fh = (fh', ev)"
  shows "\<exists>k'. observe deliver ev k = Some k' \<and> fh_inv k' fh'"
  using assms
  by (cases "abort_armed fh")
    (auto simp: on_gap_def fh_inv_def part_defs cs_total_def split: if_splits)

lemma on_slab_cap_inv:
  assumes "fh_inv k fh" and "on_slab_cap fh = Some (fh', ev)"
  shows "\<exists>k'. observe deliver ev k = Some k' \<and> fh_inv k' fh'"
  using assms
  by (cases "abort_armed fh")
    (auto simp: on_slab_cap_def fh_inv_def part_defs split: if_splits bind_splits)

lemma skip_body_inv:
  assumes "fh_inv k fh" and "\<not> is_passed_header fh \<or> is_parsing_failure fh"
    and "skip_body p fh = Some (fh', ev)"
  shows "\<exists>k'. observe deliver ev k = Some k' \<and> fh_inv k' fh'"
proof -
  have na: "\<not> abort_armed fh" "closed k" using assms(1,2) by (auto simp: fh_inv_def)
  show ?thesis
  proof (cases "marker p")
    case False
    with assms na show ?thesis by (cases "release_slab_cb (cbk fh)") (auto simp: skip_body_def fh_inv_def)
  next
    case True
    with assms na show ?thesis
      by (cases "is_parsing_failure fh \<or> is_passed_header fh")
        (auto simp: skip_body_def fh_inv_def part_defs split: bind_splits)
  qed
qed

text \<open>The state in which a main packet opens a frame.\<close>

definition fh_fresh :: "consumer \<Rightarrow> frame_handler \<Rightarrow> bool" where
  "fh_fresh k fh \<longleftrightarrow>
     chunk_cb (cbk fh) \<and> frame_abort_cb (cbk fh) \<and> frame_ready_cb (cbk fh)
     \<and> chain_total_bytes fh = 0 \<and> held_slabs fh = [] \<and> cs_chunks (fh_cs fh) = []
     \<and> \<not> is_passed_header fh \<and> closed k"

lemma drop_stale_inv:
  assumes "fh_inv k fh" and "drop_stale fh = Some (fh', ev)"
  shows "\<exists>k'. observe deliver ev k = Some k' \<and> fh_fresh k' fh'"
  using assms
  by (cases "abort_armed fh")
    (auto simp: drop_stale_def fh_inv_def fh_fresh_def part_defs cs_total_def
      split: if_splits bind_splits)

text \<open>A frame with one chunk, before its header is judged.\<close>

definition fh_started :: "consumer \<Rightarrow> frame_handler \<Rightarrow> bool" where
  "fh_started k fh \<longleftrightarrow>
     chunk_cb (cbk fh) \<and> frame_abort_cb (cbk fh) \<and> frame_ready_cb (cbk fh)
     \<and> chain_total_bytes fh = word_of_nat (cs_total (fh_cs fh))
     \<and> length (held_slabs fh) = length (cs_chunks (fh_cs fh)) \<and> held_slabs fh \<noteq> []
     \<and> abort_armed fh \<and> \<not> is_parsing_failure fh \<and> k = Open (cs_chunks (fh_cs fh))"

lemma start_frame:
  assumes "fh_fresh k fh"
  shows "\<exists>k'. observe deliver (snd (deliver_chunk (chain_total_bytes fh) a n
           (fh\<lparr>is_parsing_failure := False, frame_parse_failed := False\<rparr>))) k = Some k'
     \<and> fh_started k' (append_data a n s (fst (deliver_chunk (chain_total_bytes fh) a n
           (fh\<lparr>is_parsing_failure := False, frame_parse_failed := False\<rparr>))))"
  using assms by (auto simp: fh_fresh_def fh_started_def part_defs cs_total_def)

lemma started_failed:
  assumes "fh_started k fh" and "fire_abort kAbortParse fh = (fh', ev)"
  shows "\<exists>k'. observe deliver ev k = Some k' \<and> fh_inv k' (fh'\<lparr>is_parsing_failure := True\<rparr>)"
  using assms by (auto simp: fh_started_def fh_inv_def part_defs)

lemma check_geometry_started:
  assumes "fh_started k fh" and "check_geometry sig fh = Inr (rl, fh')"
  shows "fh_started k fh'"
proof -
  have "case check_geometry sig fh of Inl u \<Rightarrow> True | Inr r \<Rightarrow> fh_started k (snd r)"
    using assms(1) by (simp add: check_geometry_def fh_started_def Let_def)
  with assms(2) show ?thesis by simp
qed

lemma started_passed: "fh_started k fh \<Longrightarrow> fh_inv k (fh\<lparr>is_passed_header := True\<rparr>)"
  by (simp add: fh_started_def fh_inv_def)

lemma started_upd:
  assumes "fh_started k fh" and "keeps (fh_cs fh) cs"
  shows "fh_started k (fh\<lparr>fh_cs := cs\<rparr>)" "fh_started k (fh\<lparr>tile_hndr := th\<rparr>)"
    "fh_started k (fh\<lparr>start_SOD := v\<rparr>)"
  using assms keeps_total [OF assms(2)] cs_total_keeps [OF assms(2)] by (auto simp: fh_started_def)

lemma latch_header_inv:
  assumes st: "fh_started k fh" and lh: "latch_header m U sig rl fh = Some (cont, fh', ev)"
  shows "\<exists>k'. observe deliver ev k = Some k' \<and> fh_inv k' fh' \<and> (cont \<longrightarrow> is_passed_header fh' \<and> \<not> is_parsing_failure fh')"
proof -
  from lh obtain sod h cs where pm: "parse_main_header m (reset 0 (fh_cs fh)) (th_hdr (tile_hndr fh)) = Some (sod, h, cs)"
    by (auto simp: latch_header_def split: bind_splits)
  have k: "keeps (fh_cs fh) cs"
    using keeps_reset reads_keeps [OF reads_parse_main_header [OF pm]] by (rule keeps_trans)
  define fh1 where "fh1 = fh\<lparr>start_SOD := sod, fh_cs := cs, tile_hndr := (tile_hndr fh)\<lparr>th_hdr := h\<rparr>\<rparr>"
  have "fh_started k (fh1\<lparr>tile_hndr := th\<rparr>)" for th
    using st k keeps_total [OF k] cs_total_keeps [OF k] by (auto simp: fh1_def fh_started_def)
  note st1 = this
  from lh pm obtain ok th where eq:
    "(if \<not> ok then let (fh, ev) = fire_abort kAbortParse (fh1\<lparr>tile_hndr := th\<rparr>)
                in Some (False, fh\<lparr>is_parsing_failure := True\<rparr>, ev)
      else let fh = fh1\<lparr>tile_hndr := th\<rparr>\<lparr>is_passed_header := True, geom_sig := sig, parse_fail_streak := 0\<rparr>
           in Some (True, case rl of None \<Rightarrow> (fh, [])
                    | Some why \<Rightarrow> (fh\<lparr>relatches := relatches fh + 1\<rparr>,
                        if relatch_cb (cbk fh) then [Ev_Relatch why] else [])))
     = Some (cont, fh', ev)"
    unfolding latch_header_def fh1_def by (auto simp: Let_def split: bind_splits)
  show ?thesis
  proof (cases ok)
    case False
    with eq started_failed [OF st1 [of th]] show ?thesis by (auto simp: case_prod_beta Let_def)
  next
    case True
    with eq started_passed [OF st1 [of th]] st1 [of th] show ?thesis
      by (auto simp: Let_def fh_inv_def fh_started_def split: option.splits if_splits)
  qed
qed

lemma judge_header_inv:
  assumes st: "fh_started k fh" and mh: "2 \<le> pkt_MH m p"
    and jh: "judge_header m U p fh = Some (cont, fh', ev)"
  shows "\<exists>k'. observe deliver ev k = Some k' \<and> fh_inv k' fh' \<and> (cont \<longrightarrow> is_passed_header fh' \<and> \<not> is_parsing_failure fh')"
proof -
  define gs where "gs = geometry_signature m (payload p + 8) (psize p)"
  show ?thesis
  proof (cases "check_geometry (fst gs) fh")
    case (Inl u)
    with jh mh have "cont = False \<and> fh' = fst (fire_abort kAbortParse fh)\<lparr>is_parsing_failure := True\<rparr>
        \<and> ev = snd (fire_abort kAbortParse fh)"
      unfolding judge_header_def gs_def by (auto simp: Let_def case_prod_beta)
    with started_failed [OF st, of "fst (fire_abort kAbortParse fh)" "snd (fire_abort kAbortParse fh)"]
    show ?thesis by auto
  next
    case (Inr r)
    obtain rl fh3 where r: "r = (rl, fh3)" by (cases r)
    have st3: "fh_started k fh3" using check_geometry_started [OF st] Inr r by simp
    show ?thesis
    proof (cases "ready (tile_hndr fh3)")
      case False
      with jh mh Inr r have "latch_header m U (fst gs) rl fh3 = Some (cont, fh', ev)"
        unfolding judge_header_def gs_def by (simp add: Let_def case_prod_beta)
      with latch_header_inv [OF st3] show ?thesis by blast
    next
      case True
      define fh4 where "fh4 = (case snd gs of Some s \<Rightarrow> if s \<noteq> 0 then fh3\<lparr>start_SOD := s\<rparr> else fh3 | None \<Rightarrow> fh3)"
      have st4: "fh_started k fh4"
        using st3 by (auto simp: fh4_def fh_started_def split: option.splits)
      from started_passed [OF started_upd(1) [OF this keeps_reset]]
      have "fh_inv k (fh4\<lparr>fh_cs := reset (start_SOD fh4) (fh_cs fh4), is_passed_header := True\<rparr>)"
        by simp
      moreover from jh mh Inr r True
      have "cont \<and> fh' = fh4\<lparr>fh_cs := reset (start_SOD fh4) (fh_cs fh4), is_passed_header := True\<rparr> \<and> ev = []"
        unfolding judge_header_def gs_def fh4_def by (auto simp: Let_def case_prod_beta)
      ultimately show ?thesis using st4 by (auto simp: fh_started_def)
    qed
  qed
qed

lemma main_packet_cases:
  assumes "main_packet m U p fh = Some (cont, fh', ev)"
  obtains fh0 ev1 dc ev3 where "drop_stale fh = Some (fh0, ev1)"
    "dc = deliver_chunk (chain_total_bytes fh0) (payload p + 8) (psize p)
       (fh0\<lparr>is_parsing_failure := False, frame_parse_failed := False\<rparr>)"
    "judge_header m U p (append_data (payload p + 8) (psize p) (slab_idx p) (fst dc)) = Some (cont, fh', ev3)"
    "ev = ev1 @ snd dc @ ev3"
proof -
  from assms obtain fh0 ev1 where ds: "drop_stale fh = Some (fh0, ev1)"
    by (auto simp: main_packet_def split: bind_splits)
  define dc where "dc = deliver_chunk (chain_total_bytes fh0) (payload p + 8) (psize p)
       (fh0\<lparr>is_parsing_failure := False, frame_parse_failed := False\<rparr>)"
  from assms ds obtain ev3 where
    "judge_header m U p (append_data (payload p + 8) (psize p) (slab_idx p) (fst dc)) = Some (cont, fh', ev3)"
    "ev = ev1 @ snd dc @ ev3"
    unfolding main_packet_def dc_def by (auto simp: case_prod_beta Let_def split: bind_splits)
  with ds dc_def show thesis by (rule that)
qed

lemma main_packet_inv:
  assumes inv: "fh_inv k fh" and mh: "2 \<le> pkt_MH m p"
    and mp: "main_packet m U p fh = Some (cont, fh', ev)"
  shows "\<exists>k'. observe deliver ev k = Some k' \<and> fh_inv k' fh' \<and> (cont \<longrightarrow> is_passed_header fh' \<and> \<not> is_parsing_failure fh')"
proof -
  from mp obtain fh0 ev1 dc ev3 where ds: "drop_stale fh = Some (fh0, ev1)"
    and dc: "dc = deliver_chunk (chain_total_bytes fh0) (payload p + 8) (psize p)
         (fh0\<lparr>is_parsing_failure := False, frame_parse_failed := False\<rparr>)"
    and jh: "judge_header m U p (append_data (payload p + 8) (psize p) (slab_idx p) (fst dc)) = Some (cont, fh', ev3)"
    and ev: "ev = ev1 @ snd dc @ ev3"
    by (rule main_packet_cases)
  from drop_stale_inv [OF inv ds] obtain k0 where k0: "observe deliver ev1 k = Some k0" "fh_fresh k0 fh0"
    by blast
  from start_frame [OF k0(2), of "payload p + 8" "psize p" "slab_idx p", folded dc]
    judge_header_inv [OF _ mh jh] k0(1) ev
  show ?thesis by fastforce
qed

lemma parse_keeps_chunks:
  assumes "parse m th cs = Some r \<or> flush m th cs = Some r"
  shows "cs_chunks (fst (snd (snd r))) = cs_chunks cs" and "cs_total (fst (snd (snd r))) = cs_total cs"
proof -
  have "keeps cs (fst (snd (snd r)))"
    using assms keeps_parse keeps_flush by (metis prod.collapse)
  then show "cs_chunks (fst (snd (snd r))) = cs_chunks cs" "cs_total (fst (snd (snd r))) = cs_total cs"
    by (rule cs_total_keeps, rule keeps_total)
qed

text \<open>
  A body packet in normal form: the packet arrives, a resync point it carries is recorded and offered, and
  the tiles are walked if nothing stands against it.
\<close>

definition signalled :: "memory \<Rightarrow> packet \<Rightarrow> frame_handler \<Rightarrow> frame_handler" where
  "signalled m p fh =
     (let rb = ucast (chain_total_bytes fh) + pkt_POS m p;
          fh = append_data (j2k_payload p) (psize p) (slab_idx p) (fh\<lparr>abort_armed := True\<rparr>)
      in if pkt_ORDB m p \<and> is_passed_header fh
         then let fh = fh\<lparr>tile_hndr := append_signal rb (pkt_PID m p) (tile_hndr fh)\<rparr>
              in if resync_armed fh \<and> resync_point_cb (cbk fh) \<and> accept_point p then fh\<lparr>resync_armed := False\<rparr> else fh
         else fh)"

definition arrival_events :: "memory \<Rightarrow> packet \<Rightarrow> frame_handler \<Rightarrow> event list" where
  "arrival_events m p fh =
     (if chunk_cb (cbk fh) then [Ev_Chunk (chain_total_bytes fh) (j2k_payload p) (psize p)] else []) @
     (if pkt_ORDB m p \<and> is_passed_header fh \<and> resync_armed fh \<and> resync_point_cb (cbk fh)
      then [Ev_Resync_Point (ucast (chain_total_bytes fh) + pkt_POS m p) (pkt_PID m p)] else [])"

definition walks :: "memory \<Rightarrow> packet \<Rightarrow> frame_handler \<Rightarrow> bool" where
  "walks m p fh \<longleftrightarrow> pkt_ORDB m p \<and> is_passed_header fh \<and> \<not> is_parsing_failure fh \<and> \<not> resync_soft fh"

definition after_walk :: "bool \<times> tile_handler \<times> codestream \<times> crp_status list \<Rightarrow> frame_handler \<Rightarrow> frame_handler \<times> event list" where
  "after_walk r fh =
     (let (fh, ev3) = action r fh; (fh, ev4) = (if is_parsing_failure fh then fire_abort kAbortParse fh else (fh, []))
      in (fh, ev3 @ ev4))"

lemma signalled_fields [simp]:
  "held_slabs (signalled m p fh) = held_slabs fh @ [slab_idx p]" "cbk (signalled m p fh) = cbk fh"
  "chain_total_bytes (signalled m p fh) = chain_total_bytes fh + word_of_nat (psize p)" "abort_armed (signalled m p fh)"
  "fh_cs (signalled m p fh) = append_chunk (payload p + 8) (psize p) (fh_cs fh)" "is_passed_header (signalled m p fh) = is_passed_header fh"
  "is_parsing_failure (signalled m p fh) = is_parsing_failure fh" "resync_soft (signalled m p fh) = resync_soft fh"
  "total_frames (signalled m p fh) = total_frames fh"
  by (simp_all add: signalled_def append_data_def Let_def)

lemma body_packet_eq:
  "body_packet m p fh =
     (if walks m p fh
      then do { r \<leftarrow> parse m (tile_hndr (signalled m p fh)) (fh_cs (signalled m p fh));
                Some (fst (after_walk r (signalled m p fh)), arrival_events m p fh @ snd (after_walk r (signalled m p fh))) }
      else Some (signalled m p fh, arrival_events m p fh))"
proof -
  define fh0 where "fh0 = fh\<lparr>abort_armed := True\<rparr>"
  define ce where "ce = (if chunk_cb (cbk fh) then [Ev_Chunk (chain_total_bytes fh) (j2k_payload p) (psize p)] else [])"
  define rb where "rb = ucast (chain_total_bytes fh) + pkt_POS m p"
  define fh1 where "fh1 = append_data (j2k_payload p) (psize p) (slab_idx p) fh0"
  define fh2 where "fh2 = fh1\<lparr>tile_hndr := append_signal rb (pkt_PID m p) (tile_hndr fh1)\<rparr>"
  define fh3 where "fh3 = (if resync_armed fh2 \<and> resync_point_cb (cbk fh2) \<and> accept_point p then fh2\<lparr>resync_armed := False\<rparr> else fh2)"
  have dc: "deliver_chunk (chain_total_bytes fh) (j2k_payload p) (psize p) fh = (fh0, ce)" "chain_total_bytes fh0 = chain_total_bytes fh"
    by (simp_all add: deliver_chunk_def fh0_def ce_def)
  have f: "is_passed_header fh1 = is_passed_header fh" "resync_armed fh2 = resync_armed fh" "cbk fh2 = cbk fh"
    "is_parsing_failure fh3 = is_parsing_failure fh" "resync_soft fh3 = resync_soft fh"
    by (simp_all add: fh3_def fh2_def fh1_def fh0_def append_data_def)
  have s: "signalled m p fh = (if pkt_ORDB m p \<and> is_passed_header fh1 then fh3 else fh1)"
    by (simp only: signalled_def Let_def fh0_def [symmetric] rb_def [symmetric] fh1_def [symmetric] fh2_def [symmetric] fh3_def)
  have a: "arrival_events m p fh = ce @ (if pkt_ORDB m p \<and> is_passed_header fh1 \<and> resync_armed fh2 \<and> resync_point_cb (cbk fh2)
      then [Ev_Resync_Point rb (pkt_PID m p)] else [])"
    by (simp only: arrival_events_def ce_def rb_def f)
  have b: "body_packet m p fh =
     (if pkt_ORDB m p \<and> is_passed_header fh1
      then if \<not> is_parsing_failure fh3 \<and> \<not> resync_soft fh3
           then do { r \<leftarrow> parse m (tile_hndr fh3) (fh_cs fh3);
                     Some (fst (after_walk r fh3), arrival_events m p fh @ snd (after_walk r fh3)) }
           else Some (fh3, arrival_events m p fh)
      else Some (fh1, ce))"
    unfolding body_packet_def dc prod.case Let_def rb_def [symmetric] fh1_def [symmetric] fh2_def [symmetric] conj_assoc fh3_def [symmetric] a
    by (cases "pkt_ORDB m p \<and> is_passed_header fh1") (simp_all add: after_walk_def case_prod_unfold Let_def cong: if_cong)
  show ?thesis unfolding b s walks_def f by (auto simp: a f)
qed

text \<open>The consumer when a frame may end: it knows the chunks of the frame, aborted or not.\<close>

definition at_end :: "consumer \<Rightarrow> frame_handler \<Rightarrow> bool" where
  "at_end k fh \<longleftrightarrow> (if abort_armed fh then k = Open (cs_chunks (fh_cs fh)) else k = Failed (cs_chunks (fh_cs fh)))"

lemma body_packet_inv:
  assumes inv: "fh_inv k fh" and st: "is_passed_header fh" "\<not> is_parsing_failure fh"
    and bp: "body_packet m p fh = Some (fh', ev)"
  shows "\<exists>k'. observe deliver ev k = Some k' \<and> fh_inv k' fh' \<and> at_end k' fh'"
proof -
  let ?s = "signalled m p fh" and ?c = "\<lparr>chunk_base = payload p + 8, chunk_len = psize p\<rparr>"
  have fh: "chunk_cb (cbk fh)" "frame_abort_cb (cbk fh)" "chain_total_bytes fh = word_of_nat (cs_total (fh_cs fh))"
    "abort_armed fh" "k = Open (cs_chunks (fh_cs fh))"
    using inv st by (auto simp: fh_inv_def)
  have o: "observe deliver (arrival_events m p fh) k = Some (Open (cs_chunks (fh_cs fh) @ [?c]))"
    using fh by (simp add: arrival_events_def cs_total_def)
  have i: "fh_inv (Open (cs_chunks (fh_cs fh) @ [?c])) ?s"
    using inv st by (simp add: fh_inv_def)
  show ?thesis
  proof (cases "walks m p fh")
    case False
    with bp o i show ?thesis by (auto simp: body_packet_eq at_end_def)
  next
    case True
    with bp obtain r where r: "parse m (tile_hndr ?s) (fh_cs ?s) = Some r" "fh' = fst (after_walk r ?s)"
      "ev = arrival_events m p fh @ snd (after_walk r ?s)"
      by (auto simp: body_packet_eq split: bind_splits)
    obtain ok th cs ps where rr: "r = (ok, th, cs, ps)" by (metis prod.exhaust)
    have k: "cs_chunks cs = cs_chunks (fh_cs ?s)" "cs_total cs = cs_total (fh_cs ?s)"
      using parse_keeps_chunks r(1) rr by fastforce+
    have "\<exists>k'. observe deliver (snd (after_walk r ?s)) (Open (cs_chunks (fh_cs fh) @ [?c])) = Some k'
        \<and> fh_inv k' (fst (after_walk r ?s)) \<and> at_end k' (fst (after_walk r ?s))"
      using i k st fh by (cases ok) (auto simp: rr after_walk_def action_def fire_abort_def fh_inv_def at_end_def)
    with o r show ?thesis by auto
  qed
qed

lemma end_of_frame_inv:
  assumes inv: "fh_inv k fh" and st: "at_end k fh" and ef: "end_of_frame m fh = Some (fh', ev)"
  shows "\<exists>k'. observe deliver ev k = Some k' \<and> fh_inv k' fh'"
proof (cases "abort_armed fh")
  case True
  with assms parse_keeps_chunks show ?thesis
    by (fastforce simp: end_of_frame_def fh_inv_def part_defs action_def at_end_def case_prod_beta
        split: if_splits bind_splits)
next
  case False
  with assms show ?thesis
    by (auto simp: end_of_frame_def fh_inv_def part_defs at_end_def case_prod_beta
        split: if_splits bind_splits)
qed

lemma fh_inv_live: "fh_inv k fh \<Longrightarrow> is_passed_header fh \<Longrightarrow> \<not> is_parsing_failure fh \<Longrightarrow> at_end k fh"
  by (auto simp: fh_inv_def at_end_def)

text \<open>The parts of one call.\<close>

lemma pull_data_cases:
  assumes "pull_data m U p fh = Some (fh', ev)"
  obtains (skipped) fh1 ev1 fh2 ev2 ev3 where "on_gap p fh = (fh1, ev1)" "on_slab_cap fh1 = Some (fh2, ev2)"
      "pkt_MH m p = 0" "\<not> is_passed_header fh2 \<or> is_parsing_failure fh2"
      "skip_body p fh2 = Some (fh', ev3)" "ev = ev1 @ ev2 @ ev3"
    | (main) fh1 ev1 fh2 ev2 fh3 ev3 ev4 cont where "on_gap p fh = (fh1, ev1)" "on_slab_cap fh1 = Some (fh2, ev2)"
      "1 \<le> pkt_MH m p" "main_packet m U p fh2 = Some (cont, fh3, ev3)"
      "if cont \<and> marker p then end_of_frame m fh3 = Some (fh', ev4) else fh' = fh3 \<and> ev4 = []"
      "ev = ev1 @ ev2 @ ev3 @ ev4"
    | (body) fh1 ev1 fh2 ev2 fh3 ev3 ev4 where "on_gap p fh = (fh1, ev1)" "on_slab_cap fh1 = Some (fh2, ev2)"
      "pkt_MH m p = 0" "is_passed_header fh2" "\<not> is_parsing_failure fh2"
      "body_packet m p fh2 = Some (fh3, ev3)"
      "if marker p then end_of_frame m fh3 = Some (fh', ev4) else fh' = fh3 \<and> ev4 = []"
      "ev = ev1 @ ev2 @ ev3 @ ev4"
proof -
  obtain fh1 ev1 where og: "on_gap p fh = (fh1, ev1)" by fastforce
  from assms og obtain fh2 ev2 where sc: "on_slab_cap fh1 = Some (fh2, ev2)"
    by (auto simp: pull_data_def split: bind_splits)
  show thesis
  proof (cases "pkt_MH m p = 0 \<and> (\<not> is_passed_header fh2 \<or> is_parsing_failure fh2)")
    case True
    with assms og sc obtain ev3 where "skip_body p fh2 = Some (fh', ev3)" "ev = ev1 @ ev2 @ ev3"
      by (auto simp: pull_data_def split: bind_splits)
    with True og sc show thesis by (intro skipped) auto
  next
    case False
    with assms og sc obtain cont fh3 ev3 where
      step: "(if 1 \<le> pkt_MH m p then main_packet m U p fh2
              else do { (fh, ev) \<leftarrow> body_packet m p fh2; Some (True, fh, ev) }) = Some (cont, fh3, ev3)"
      and rest: "(if cont \<and> marker p then do { (fh, ev4) \<leftarrow> end_of_frame m fh3; Some (fh, ev1 @ ev2 @ ev3 @ ev4) }
                  else Some (fh3, ev1 @ ev2 @ ev3)) = Some (fh', ev)"
      by (auto simp: pull_data_def split: bind_splits)
    from rest obtain ev4 where
      "if cont \<and> marker p then end_of_frame m fh3 = Some (fh', ev4) else fh' = fh3 \<and> ev4 = []"
      "ev = ev1 @ ev2 @ ev3 @ ev4"
      by (auto split: if_splits bind_splits)
    with step False og sc show thesis
      by (cases "1 \<le> pkt_MH m p") (auto intro: main body split: bind_splits)
  qed
qed

lemma pull_data_inv:
  assumes inv: "fh_inv k fh" and mh: "pkt_MH m p \<noteq> 1" and pd: "pull_data m U p fh = Some (fh', ev)"
  shows "\<exists>k'. observe deliver ev k = Some k' \<and> fh_inv k' fh'"
proof -
  have pre: "\<exists>k2. observe deliver (ev1 @ ev2) k = Some k2 \<and> fh_inv k2 fh2"
    if "on_gap p fh = (fh1, ev1)" "on_slab_cap fh1 = Some (fh2, ev2)" for fh1 ev1 fh2 ev2
    using on_gap_inv [OF inv that(1)] on_slab_cap_inv [OF _ that(2)] by fastforce
  from pd show ?thesis
  proof (cases rule: pull_data_cases)
    case (skipped fh1 ev1 fh2 ev2 ev3)
    from pre [OF skipped(1,2)] obtain k2 where
      k2: "observe deliver (ev1 @ ev2) k = Some k2" "fh_inv k2 fh2" by blast
    from skip_body_inv [OF k2(2) skipped(4,5)] k2(1) show ?thesis
      unfolding skipped(6) append_assoc [symmetric] observe_append by auto
  next
    case (main fh1 ev1 fh2 ev2 fh3 ev3 ev4 cont)
    from main(3) mh have mh2: "2 \<le> pkt_MH m p" by simp
    from pre [OF main(1,2)] obtain k2 where
      k2: "observe deliver (ev1 @ ev2) k = Some k2" "fh_inv k2 fh2" by blast
    from main_packet_inv [OF k2(2) mh2 main(4)] obtain k3 where
      k3: "observe deliver ev3 k2 = Some k3" "fh_inv k3 fh3" "cont \<longrightarrow> at_end k3 fh3"
      using fh_inv_live by blast
    have "\<exists>k'. observe deliver ev4 k3 = Some k' \<and> fh_inv k' fh'"
      using main(5) end_of_frame_inv [OF k3(2)] k3 by (auto split: if_splits)
    with k2 k3 show ?thesis
      unfolding main(6) append_assoc [symmetric] observe_append by auto
  next
    case (body fh1 ev1 fh2 ev2 fh3 ev3 ev4)
    from pre [OF body(1,2)] obtain k2 where
      k2: "observe deliver (ev1 @ ev2) k = Some k2" "fh_inv k2 fh2" by blast
    from body_packet_inv [OF k2(2) body(4,5,6)] obtain k3 where
      k3: "observe deliver ev3 k2 = Some k3" "fh_inv k3 fh3" "at_end k3 fh3" by blast
    have "\<exists>k'. observe deliver ev4 k3 = Some k' \<and> fh_inv k' fh'"
      using body(7) end_of_frame_inv [OF k3(2,3)] k3 by (auto split: if_splits)
    with k2 k3 show ?thesis
      unfolding body(8) append_assoc [symmetric] observe_append by auto
  qed
qed

section \<open>Slabs\<close>

definition releases :: "event list \<Rightarrow> nat multiset" where
  "releases ev = mset (concat (map (\<lambda>e. case e of Ev_Release i \<Rightarrow> [i] | _ \<Rightarrow> []) ev))"

lemma releases_simps [simp]:
  "releases [] = {#}"
  "releases (e # ev) = (case e of Ev_Release i \<Rightarrow> {#i#} | _ \<Rightarrow> {#}) + releases ev"
  "releases (ev @ ev') = releases ev + releases ev'"
  by (auto simp: releases_def split: event.splits)

lemma releases_map [simp]:
  "releases (map Ev_Release is) = mset is" "releases (map Ev_Precinct ps) = {#}"
  by (induction "is") (auto, induction ps, auto)

lemma fire_abort_slabs [simp]:
  "held_slabs (fst (fire_abort r fh)) = held_slabs fh" "releases (snd (fire_abort r fh)) = {#}"
  "cbk (fst (fire_abort r fh)) = cbk fh"
  by (simp_all add: part_defs)

lemma on_gap_slabs:
  assumes "on_gap p fh = (fh', ev)"
  shows "mset (held_slabs fh) = mset (held_slabs fh') + releases ev" and "cbk fh' = cbk fh"
  using assms by (auto simp: on_gap_def part_defs split: if_splits)

lemma on_slab_cap_slabs:
  assumes "on_slab_cap fh = Some (fh', ev)" and "release_slab_cb (cbk fh)"
  shows "mset (held_slabs fh) = mset (held_slabs fh') + releases ev" and "cbk fh' = cbk fh"
    and "length (held_slabs fh') < 3072"
  using assms by (auto simp: on_slab_cap_def part_defs split: if_splits bind_splits)

lemma skip_body_slabs:
  assumes "skip_body p fh = Some (fh', ev)" and "release_slab_cb (cbk fh)"
  shows "mset (held_slabs fh) + {#slab_idx p#} = mset (held_slabs fh') + releases ev" and "cbk fh' = cbk fh"
    and "length (held_slabs fh') \<le> length (held_slabs fh)"
  using assms by (auto simp: skip_body_def part_defs split: if_splits bind_splits)

lemma drop_stale_slabs:
  assumes "drop_stale fh = Some (fh', ev)" and "release_slab_cb (cbk fh)"
  shows "mset (held_slabs fh) = mset (held_slabs fh') + releases ev" and "cbk fh' = cbk fh"
    and "held_slabs fh' = []"
  using assms by (auto simp: drop_stale_def part_defs split: if_splits bind_splits)

lemma latch_header_slabs:
  assumes "latch_header m U sig rl fh = Some (cont, fh', ev)"
  shows "held_slabs fh' = held_slabs fh" and "releases ev = {#}" and "cbk fh' = cbk fh"
  using assms by (auto simp: latch_header_def part_defs split: if_splits bind_splits option.splits)

lemma check_geometry_slabs:
  assumes "check_geometry sig fh = Inr (rl, fh')"
  shows "held_slabs fh' = held_slabs fh" and "cbk fh' = cbk fh"
proof -
  have "case check_geometry sig fh of Inl u \<Rightarrow> True
      | Inr r \<Rightarrow> held_slabs (snd r) = held_slabs fh \<and> cbk (snd r) = cbk fh"
    by (simp add: check_geometry_def Let_def)
  with assms show "held_slabs fh' = held_slabs fh" "cbk fh' = cbk fh" by auto
qed

lemma judge_header_slabs:
  assumes jh: "judge_header m U p fh = Some (cont, fh', ev)"
  shows "held_slabs fh' = held_slabs fh" and "releases ev = {#}" and "cbk fh' = cbk fh"
proof -
  let ?gs = "if 2 \<le> pkt_MH m p then geometry_signature m (payload p + 8) (psize p) else (0, None)"
  let ?v = "if 2 \<le> pkt_MH m p then check_geometry (fst ?gs) fh else Inr (None, fh)"
  have "held_slabs fh' = held_slabs fh \<and> releases ev = {#} \<and> cbk fh' = cbk fh"
  proof (cases ?v)
    case (Inl u)
    with jh show ?thesis by (auto simp: judge_header_def Let_def case_prod_beta)
  next
    case (Inr r)
    then have r: "held_slabs (snd r) = held_slabs fh" "cbk (snd r) = cbk fh"
      using check_geometry_slabs [of "fst ?gs" fh "fst r" "snd r"] by (auto split: if_splits)
    show ?thesis
    proof (cases "ready (tile_hndr (snd r)) \<or> pkt_MH m p < 2")
      case True
      with jh Inr r show ?thesis
        by (auto simp: judge_header_def Let_def case_prod_beta split: if_splits option.splits)
    next
      case False
      with jh Inr have "latch_header m U (fst ?gs) (fst r) (snd r) = Some (cont, fh', ev)"
        by (simp add: judge_header_def Let_def case_prod_beta)
      with latch_header_slabs r show ?thesis by metis
    qed
  qed
  then show "held_slabs fh' = held_slabs fh" "releases ev = {#}" "cbk fh' = cbk fh" by simp_all
qed

lemma main_packet_slabs:
  assumes mp: "main_packet m U p fh = Some (cont, fh', ev)" and cb: "release_slab_cb (cbk fh)"
  shows "mset (held_slabs fh) + {#slab_idx p#} = mset (held_slabs fh') + releases ev" and "cbk fh' = cbk fh"
    and "length (held_slabs fh') = 1"
proof -
  from mp obtain fh0 ev1 dc ev3 where ds: "drop_stale fh = Some (fh0, ev1)"
    and dc: "dc = deliver_chunk (chain_total_bytes fh0) (payload p + 8) (psize p)
         (fh0\<lparr>is_parsing_failure := False, frame_parse_failed := False\<rparr>)"
    and jh: "judge_header m U p (append_data (payload p + 8) (psize p) (slab_idx p) (fst dc)) = Some (cont, fh', ev3)"
    and ev: "ev = ev1 @ snd dc @ ev3"
    by (rule main_packet_cases)
  from drop_stale_slabs [OF ds cb] judge_header_slabs [OF jh] dc ev
  show "mset (held_slabs fh) + {#slab_idx p#} = mset (held_slabs fh') + releases ev" "cbk fh' = cbk fh"
    "length (held_slabs fh') = 1"
    by (simp_all add: deliver_chunk_def append_data_def)
qed

lemma body_packet_slabs:
  assumes "body_packet m p fh = Some (fh', ev)"
  shows "held_slabs fh' = held_slabs fh @ [slab_idx p]" and "releases ev = {#}" and "cbk fh' = cbk fh"
  using assms
  by (auto simp: body_packet_eq arrival_events_def after_walk_def action_def fire_abort_def Let_def case_prod_beta split: if_splits bind_splits)

lemma end_of_frame_slabs:
  assumes "end_of_frame m fh = Some (fh', ev)" and "release_slab_cb (cbk fh)"
  shows "mset (held_slabs fh) = mset (held_slabs fh') + releases ev" and "cbk fh' = cbk fh"
    and "held_slabs fh' = []"
  using assms
  by (auto simp: end_of_frame_def part_defs action_def case_prod_beta split: if_splits bind_splits)

lemma pull_data_slabs:
  assumes pd: "pull_data m U p fh = Some (fh', ev)" and cb: "release_slab_cb (cbk fh)"
  shows "mset (held_slabs fh) + {#slab_idx p#} = mset (held_slabs fh') + releases ev \<and> cbk fh' = cbk fh
    \<and> length (held_slabs fh') \<le> 3072"
  using pd
proof (cases rule: pull_data_cases)
  case (skipped fh1 ev1 fh2 ev2 ev3)
  from on_gap_slabs [OF skipped(1)] on_slab_cap_slabs [OF skipped(2)] skip_body_slabs [OF skipped(5)] cb skipped(6)
  show ?thesis by auto
next
  case (main fh1 ev1 fh2 ev2 fh3 ev3 ev4 cont)
  have "mset (held_slabs fh3) = mset (held_slabs fh') + releases ev4 \<and> cbk fh' = cbk fh3 \<and> length (held_slabs fh') \<le> length (held_slabs fh3)"
    using main(5) end_of_frame_slabs main_packet_slabs(2) [OF main(4)] on_slab_cap_slabs(2) [OF main(2)] on_gap_slabs(2) [OF main(1)] cb
    by (auto split: if_splits)
  with on_gap_slabs [OF main(1)] on_slab_cap_slabs [OF main(2)] main_packet_slabs [OF main(4)] cb main(6)
  show ?thesis by auto
next
  case (body fh1 ev1 fh2 ev2 fh3 ev3 ev4)
  have "mset (held_slabs fh3) = mset (held_slabs fh') + releases ev4 \<and> cbk fh' = cbk fh3 \<and> length (held_slabs fh') \<le> length (held_slabs fh3)"
    using body(7) end_of_frame_slabs body_packet_slabs(3) [OF body(6)] on_slab_cap_slabs(2) [OF body(2)] on_gap_slabs(2) [OF body(1)] cb
    by (auto split: if_splits)
  with on_gap_slabs [OF body(1)] on_slab_cap_slabs [OF body(2)] body_packet_slabs [OF body(6)] cb body(8)
  show ?thesis by auto
qed

section \<open>Aborts\<close>

text \<open>Between packets a failed frame has already told its consumer.\<close>

definition failure_told :: "frame_handler \<Rightarrow> bool" where
  "failure_told fh \<longleftrightarrow> (is_parsing_failure fh \<longrightarrow> \<not> abort_armed fh)"

definition not_damaged_EOC :: "unit \<Rightarrow> event \<Rightarrow> unit option" where
  "not_damaged_EOC u e = (if e = Ev_Abort kAbortDamagedEOC then None else Some ())"

lemma observe_not_damaged_EOC:
  "observe not_damaged_EOC ev u = (if Ev_Abort kAbortDamagedEOC \<in> set ev then None else Some ())"
  by (induction ev arbitrary: u) (auto simp: not_damaged_EOC_def)

lemma fire_abort_armed [simp]: "\<not> abort_armed (fst (fire_abort r fh))"
  and fire_abort_events: "set (snd (fire_abort r fh)) \<subseteq> {Ev_Abort r}"
  by (auto simp: fire_abort_def Let_def)

lemma on_gap_told:
  "failure_told fh \<Longrightarrow> on_gap p fh = (fh', ev) \<Longrightarrow> failure_told fh' \<and> Ev_Abort kAbortDamagedEOC \<notin> set ev"
  by (auto simp: on_gap_def failure_told_def part_defs split: if_splits)

lemma on_slab_cap_told:
  "failure_told fh \<Longrightarrow> on_slab_cap fh = Some (fh', ev) \<Longrightarrow> failure_told fh' \<and> Ev_Abort kAbortDamagedEOC \<notin> set ev"
  by (auto simp: on_slab_cap_def failure_told_def part_defs split: if_splits bind_splits)

lemma skip_body_told:
  "failure_told fh \<Longrightarrow> \<not> is_passed_header fh \<or> is_parsing_failure fh \<Longrightarrow> skip_body p fh = Some (fh', ev) \<Longrightarrow>
     failure_told fh' \<and> Ev_Abort kAbortDamagedEOC \<notin> set ev"
  by (auto simp: skip_body_def failure_told_def part_defs split: if_splits bind_splits)

lemma drop_stale_told:
  "drop_stale fh = Some (fh', ev) \<Longrightarrow> Ev_Abort kAbortDamagedEOC \<notin> set ev"
  by (auto simp: drop_stale_def part_defs split: if_splits bind_splits)

lemma latch_header_told:
  assumes "latch_header m U sig rl fh = Some (cont, fh', ev)" and "\<not> is_parsing_failure fh"
  shows "failure_told fh' \<and> Ev_Abort kAbortDamagedEOC \<notin> set ev"
  using assms
  by (auto simp: latch_header_def failure_told_def part_defs split: if_splits bind_splits option.splits)

lemma judge_header_told:
  assumes jh: "judge_header m U p fh = Some (cont, fh', ev)" and nf: "\<not> is_parsing_failure fh"
  shows "failure_told fh' \<and> Ev_Abort kAbortDamagedEOC \<notin> set ev"
proof -
  let ?gs = "if 2 \<le> pkt_MH m p then geometry_signature m (payload p + 8) (psize p) else (0, None)"
  let ?v = "if 2 \<le> pkt_MH m p then check_geometry (fst ?gs) fh else Inr (None, fh)"
  have v: "case ?v of Inl u \<Rightarrow> True | Inr r \<Rightarrow> \<not> is_parsing_failure (snd r)"
    using nf by (simp add: check_geometry_def Let_def)
  show ?thesis
  proof (cases ?v)
    case (Inl u)
    with jh have "fh' = fst (fire_abort kAbortParse fh)\<lparr>is_parsing_failure := True\<rparr>" "ev = snd (fire_abort kAbortParse fh)"
      by (simp_all add: judge_header_def Let_def case_prod_beta)
    then show ?thesis using fire_abort_events [of kAbortParse fh] by (auto simp: failure_told_def)
  next
    case (Inr r)
    with v have r: "\<not> is_parsing_failure (snd r)" by simp
    show ?thesis
    proof (cases "ready (tile_hndr (snd r)) \<or> pkt_MH m p < 2")
      case True
      with jh Inr r show ?thesis
        by (auto simp: judge_header_def Let_def case_prod_beta failure_told_def split: if_splits option.splits)
    next
      case False
      with jh Inr have "latch_header m U (fst ?gs) (fst r) (snd r) = Some (cont, fh', ev)"
        by (simp add: judge_header_def Let_def case_prod_beta)
      with latch_header_told r show ?thesis by blast
    qed
  qed
qed

lemma main_packet_told:
  assumes mp: "main_packet m U p fh = Some (cont, fh', ev)"
  shows "failure_told fh' \<and> Ev_Abort kAbortDamagedEOC \<notin> set ev"
  using mp
proof (cases rule: main_packet_cases)
  case (1 fh0 ev1 dc ev3)
  then have "\<not> is_parsing_failure (append_data (payload p + 8) (psize p) (slab_idx p) (fst dc))"
    by (simp add: append_data_def deliver_chunk_def)
  from judge_header_told [OF 1(3) this] drop_stale_told [OF 1(1)] 1(2,4) show ?thesis
    by (auto simp: deliver_chunk_def)
qed

lemma body_packet_told:
  assumes "\<not> is_parsing_failure fh" and "body_packet m p fh = Some (fh', ev)"
  shows "failure_told fh' \<and> Ev_Abort kAbortDamagedEOC \<notin> set ev"
  using assms
  by (auto simp: body_packet_eq arrival_events_def after_walk_def action_def fire_abort_def failure_told_def Let_def case_prod_beta
      split: if_splits bind_splits)

lemma end_of_frame_told:
  assumes "end_of_frame m fh = Some (fh', ev)"
  shows "failure_told fh' \<and> Ev_Abort kAbortDamagedEOC \<notin> set ev"
  using assms
  by (auto simp: end_of_frame_def part_defs action_def failure_told_def case_prod_beta split: if_splits bind_splits)

lemma pull_data_told:
  assumes told: "failure_told fh" and pd: "pull_data m U p fh = Some (fh', ev)"
  shows "failure_told fh' \<and> Ev_Abort kAbortDamagedEOC \<notin> set ev"
  using pd
proof (cases rule: pull_data_cases)
  case (skipped fh1 ev1 fh2 ev2 ev3)
  from on_gap_told [OF told skipped(1)] have 1: "failure_told fh1" "Ev_Abort kAbortDamagedEOC \<notin> set ev1" by auto
  from on_slab_cap_told [OF 1(1) skipped(2)] have 2: "failure_told fh2" "Ev_Abort kAbortDamagedEOC \<notin> set ev2" by auto
  from skip_body_told [OF 2(1) skipped(4,5)] 1 2 skipped(6) show ?thesis by auto
next
  case (main fh1 ev1 fh2 ev2 fh3 ev3 ev4 cont)
  have "failure_told fh' \<and> Ev_Abort kAbortDamagedEOC \<notin> set ev4"
    using main(5) end_of_frame_told main_packet_told [OF main(4)] by (auto split: if_splits)
  with main(6) on_gap_told [OF told main(1)] on_slab_cap_told [OF _ main(2)] main_packet_told [OF main(4)]
  show ?thesis by auto
next
  case (body fh1 ev1 fh2 ev2 fh3 ev3 ev4)
  have "failure_told fh' \<and> Ev_Abort kAbortDamagedEOC \<notin> set ev4"
    using body(7) end_of_frame_told body_packet_told [OF body(5,6)] by (auto split: if_splits)
  with body(8) on_gap_told [OF told body(1)] on_slab_cap_told [OF _ body(2)] body_packet_told [OF body(5,6)]
  show ?thesis by auto
qed

section \<open>Runs\<close>

definition whole_header :: "memory \<times> uninit \<times> packet \<Rightarrow> bool" where
  "whole_header i \<longleftrightarrow> pkt_MH (fst i) (snd (snd i)) \<noteq> 1"

definition in_slab :: "memory \<times> uninit \<times> packet \<Rightarrow> nat multiset" where
  "in_slab i = {#slab_idx (snd (snd i))#}"

interpretation frames: observed_machine pull_step whole_header deliver fh_inv
  using pull_data_inv by unfold_locales (auto simp: pull_step_def whole_header_def)

interpretation told: observed_machine pull_step "\<lambda>_. True" not_damaged_EOC "\<lambda>_. failure_told"
proof
  fix k s i s' ev
  assume "failure_told s" and "pull_step i s = Some (s', ev)"
  then show "\<exists>k'. observe not_damaged_EOC ev k = Some k' \<and> failure_told s'"
    unfolding pull_step_def observe_not_damaged_EOC by (auto dest: pull_data_told)
qed

interpretation slabs: ledger_machine pull_step
  "\<lambda>fh. release_slab_cb (cbk fh) \<and> length (held_slabs fh) \<le> 3072"
  "\<lambda>fh. mset (held_slabs fh)" in_slab releases
proof
  fix s i s' ev
  assume "release_slab_cb (cbk s) \<and> length (held_slabs s) \<le> 3072" and "pull_step i s = Some (s', ev)"
  with pull_data_slabs [of "fst i" "fst (snd i)" "snd (snd i)" s s' ev]
  show "(release_slab_cb (cbk s') \<and> length (held_slabs s') \<le> 3072)
      \<and> mset (held_slabs s) + in_slab i = mset (held_slabs s') + releases ev"
    by (simp add: pull_step_def in_slab_def)
qed simp_all

section \<open>The contract\<close>

text \<open>A handler between frames, with its consumer callbacks registered.\<close>

definition between_frames :: "frame_handler \<Rightarrow> bool" where
  "between_frames fh \<longleftrightarrow>
     chunk_cb (cbk fh) \<and> frame_abort_cb (cbk fh) \<and> frame_ready_cb (cbk fh) \<and> release_slab_cb (cbk fh)
     \<and> held_slabs fh = [] \<and> chain_total_bytes fh = 0 \<and> cs_chunks (fh_cs fh) = []
     \<and> \<not> abort_armed fh \<and> \<not> is_passed_header fh \<and> \<not> is_parsing_failure fh"

lemma between_frames_inv: "between_frames fh \<Longrightarrow> fh_inv Idle fh"
  by (simp add: between_frames_def fh_inv_def cs_total_def)

text \<open>A latched stream without precincts, a packet with a bare main header and a last body packet.\<close>

definition all_callbacks :: callbacks where
  "all_callbacks = \<lparr>release_slab_cb = True, frame_ready_cb = True, chunk_cb = True, frame_abort_cb = True,
     resync_gap_cb = False, resync_point_cb = False, relatch_cb = True\<rparr>"

definition empty_tile :: tile where
  "empty_tile = \<lparr>tcomps = [], tile_idx = 0, tile_coord = \<lparr>gx0 = 0, gy0 = 0, gx1 = 0, gy1 = 0\<rparr>,
     num_components = 0, tile_progression = 3, crp = [], crp_idx = 0, is_crp_complete = True\<rparr>"

definition latched_handler :: frame_handler where
  "latched_handler = frame_handler_init\<lparr>cbk := all_callbacks,
     tile_hndr := tile_handler_init\<lparr>ready := True, tiles := [empty_tile]\<rparr>\<rparr>"

definition plain_packet :: "addr \<Rightarrow> nat \<Rightarrow> bool \<Rightarrow> nat \<Rightarrow> packet" where
  "plain_packet a n eoc slab = \<lparr>payload = a, psize = n, marker = eoc, slab_idx = slab, gap = False,
     accept_gap = False, accept_point = False\<rparr>"

definition frame_mem :: memory where
  "frame_mem a = (if a = 0 then 0x80 else if a = 8 then 0xFF else if a = 9 then 0x4F
     else if a = 10 then 0xFF else if a = 11 then 0x93 else 0)"

definition no_storage :: uninit where
  "no_storage = \<lparr>u_tcomps = [], u_blk = (\<lambda>_. blk_zero), u_node = (\<lambda>_. node_zero)\<rparr>"

definition frame_packets :: "(memory \<times> uninit \<times> packet) list" where
  "frame_packets = [(frame_mem, no_storage, plain_packet 0 4 False 7),
     (frame_mem, no_storage, plain_packet 100 3 True 8)]"

lemma run_frame_packets:
  "map_option snd (run pull_step frame_packets latched_handler)
     = Some [Ev_Chunk 0 8 4, Ev_Chunk 4 108 3,
         Ev_Ready [\<lparr>chunk_base = 8, chunk_len = 4\<rparr>, \<lparr>chunk_base = 108, chunk_len = 3\<rparr>] True,
         Ev_Release 7, Ev_Release 8]"
  by code_simp

lemma latched_handler_between: "between_frames latched_handler"
  by code_simp

lemma frame_packets_whole: "list_all whole_header frame_packets"
  by code_simp

text \<open>
  C1: The delivery contract, as far as the code keeps it. Take any sequence of packets in which no main header is split over
  packets (\<open>MH = 1\<close>), fed to a handler between frames. The callbacks it fires are accepted by the
  consumer: chunk offsets are contiguous from 0 in every frame; only an open frame is aborted, so at most
  once; no chunk, precinct or resync callback comes between the end of a frame and the next main packet;
  \<open>frame_ready\<close> always carries exactly the chunks delivered for its frame; no slab is released
  while the frame that holds it is open; and \<open>frame_ready\<close> follows an abort only directly after
  \<open>kAbortParse\<close>, with the same frame, not intact. (The comment at \<open>ChunkCb\<close> excludes that, too.)
  The handler's state and the consumer's view still agree at the end.
\<close>

theorem delivery_contract:
  assumes "between_frames fh" and "list_all whole_header ps" and "run pull_step ps fh = Some (fh', ev)"
  shows "\<exists>k. observe deliver ev Idle = Some k \<and> fh_inv k fh'"
  using between_frames_inv [OF assms(1)] assms(2,3) by (rule frames.run_observed)

theorem delivery_contract_witness:
  "\<exists>fh' ev k. run pull_step frame_packets latched_handler = Some (fh', ev)
     \<and> length ev = 5 \<and> observe deliver ev Idle = Some k \<and> fh_inv k fh'"
proof -
  obtain fh' ev where r: "run pull_step frame_packets latched_handler = Some (fh', ev)" "length ev = 5"
    using run_frame_packets by auto
  with delivery_contract [OF latched_handler_between frame_packets_whole r(1)] show ?thesis by blast
qed

text \<open>
  C2: No slab is lost or released twice. Over any sequence of packets, split headers included,
  the slabs handed in with the packets are exactly, with multiplicity, those released through
  \<open>release_slab\<close> and those still held; and never more than 3072 are held, so the cap keeps a
  frame whose end is lost from exhausting the ring.
\<close>

theorem slab_conservation:
  assumes "between_frames fh" and "run pull_step ps fh = Some (fh', ev)"
  shows "mset (map (slab_idx \<circ> snd \<circ> snd) ps) = mset (held_slabs fh') + releases ev
    \<and> length (held_slabs fh') \<le> 3072"
proof -
  have "sum_list (map in_slab ps) = mset (map (slab_idx \<circ> snd \<circ> snd) ps)"
    by (induction ps) (auto simp: in_slab_def)
  with slabs.run_ledger [OF _ assms(2)] assms(1) show ?thesis
    by (auto simp: between_frames_def)
qed

theorem slab_conservation_witness:
  "\<exists>fh' ev. run pull_step frame_packets latched_handler = Some (fh', ev)
     \<and> mset [7, 8] = mset (held_slabs fh') + releases ev \<and> length (held_slabs fh') \<le> 3072"
proof -
  obtain fh' ev where r: "run pull_step frame_packets latched_handler = Some (fh', ev)"
    using run_frame_packets by auto
  have "map (slab_idx \<circ> snd \<circ> snd) frame_packets = [7, 8]" by code_simp
  with slab_conservation [OF latched_handler_between r] r show ?thesis by auto
qed

text \<open>
  C32: The abort at the EOC of a damaged frame (\<open>kAbortDamagedEOC\<close>) never fires: whenever the
  handler meets the EOC of a failed frame, the consumer was told at the point of damage.
\<close>

theorem damaged_EOC_never_fires:
  assumes "failure_told fh" and "run pull_step ps fh = Some (fh', ev)"
  shows "Ev_Abort kAbortDamagedEOC \<notin> set ev \<and> failure_told fh'"
  using told.run_observed [OF assms(1) _ assms(2), of "()"]
  by (auto simp: observe_not_damaged_EOC list_all_iff split: if_splits)

text \<open>A frame whose body never comes: the main packet, then a body packet after a loss, with the EOC.\<close>

definition lossy_packets :: "(memory \<times> uninit \<times> packet) list" where
  "lossy_packets = [(frame_mem, no_storage, plain_packet 0 4 False 7),
     (frame_mem, no_storage, (plain_packet 100 3 True 8)\<lparr>gap := True\<rparr>)]"

lemma run_lossy_packets:
  "map_option snd (run pull_step lossy_packets latched_handler)
     = Some [Ev_Chunk 0 8 4, Ev_Abort kAbortGap, Ev_Release 8, Ev_Release 7]"
  by code_simp

theorem damaged_EOC_never_fires_witness:
  "\<exists>fh' ev. run pull_step lossy_packets latched_handler = Some (fh', ev) \<and> length ev = 4
     \<and> Ev_Abort kAbortDamagedEOC \<notin> set ev \<and> failure_told fh'"
proof -
  obtain fh' ev where r: "run pull_step lossy_packets latched_handler = Some (fh', ev)" "length ev = 4"
    using run_lossy_packets by auto
  have "failure_told latched_handler" by code_simp
  from damaged_EOC_never_fires [OF this r(1)] r show ?thesis by blast
qed

section \<open>Gaps and split headers\<close>

text \<open>
  C30: A gap with a frame in flight ends the frame at once. A body packet that arrives after a
  loss, with no consumer accepting the gap, adds nothing to the chain: the consumer is told
  \<open>kAbortGap\<close>, the packet's slab goes back, and the handler waits for the next main packet.
\<close>

theorem gap_ends_frame:
  assumes "gap p" "pkt_MH m p = 0" "\<not> marker p"
    and "is_passed_header fh" "\<not> is_parsing_failure fh" "abort_armed fh" "length (held_slabs fh) < 3072"
    and "frame_abort_cb (cbk fh)" "release_slab_cb (cbk fh)" "\<not> (resync_gap_cb (cbk fh) \<and> accept_gap p)"
  shows "pull_data m U p fh =
    Some (fh\<lparr>resync_armed := False, resync_soft := False, abort_armed := False, is_parsing_failure := True\<rparr>,
      (if resync_gap_cb (cbk fh) then [Ev_Resync_Gap (chain_total_bytes fh)] else [])
        @ [Ev_Abort kAbortGap, Ev_Release (slab_idx p)])"
  using assms by (auto simp: pull_data_def on_gap_def on_slab_cap_def skip_body_def fire_abort_def Let_def)

definition handler_in_frame :: frame_handler where
  "handler_in_frame = latched_handler\<lparr>is_passed_header := True, abort_armed := True, held_slabs := [7],
     chain_total_bytes := 4, fh_cs := append_chunk 8 4 codestream_init\<rparr>"

theorem gap_ends_frame_witness:
  "pull_data frame_mem no_storage ((plain_packet 100 3 False 8)\<lparr>gap := True\<rparr>) handler_in_frame
     = Some (handler_in_frame\<lparr>resync_armed := False, resync_soft := False, abort_armed := False,
         is_parsing_failure := True\<rparr>, [Ev_Abort kAbortGap, Ev_Release 8])"
  using gap_ends_frame [of "(plain_packet 100 3 False 8)\<lparr>gap := True\<rparr>" frame_mem handler_in_frame no_storage]
  by (simp add: handler_in_frame_def latched_handler_def plain_packet_def frame_mem_def pkt_MH_def all_callbacks_def
      frame_handler_init_def)





text \<open>The first packet of a split header on a stream that is not latched.\<close>

definition half_header :: "packet \<Rightarrow> frame_handler \<Rightarrow> frame_handler" where
  "half_header p fh = (append_data (j2k_payload p) (psize p) (slab_idx p)
     (fh\<lparr>is_parsing_failure := False, frame_parse_failed := False, abort_armed := True\<rparr>))
       \<lparr>start_SOD := start_SOD fh + word_of_nat (psize p)\<rparr>"

lemma split_header_first:
  assumes "between_frames fh" "\<not> ready (tile_hndr fh)" "pkt_MH m p = 1" "\<not> gap p" "\<not> marker p"
  shows "pull_step (m, U, p) fh = Some (half_header p fh, [Ev_Chunk 0 (payload p + 8) (psize p)])"
  using assms
  by (simp add: pull_step_def pull_data_def on_gap_def on_slab_cap_def main_packet_def drop_stale_def
      judge_header_def append_data_def deliver_chunk_def between_frames_def half_header_def Let_def)



text \<open>
  A header really split over several packets is not assembled either: the second main packet aborts the frame
  that the first one opened, gives its slab back and starts a frame of its own.
\<close>

lemma second_header_packet_aborts:
  assumes "between_frames fh" "\<not> ready (tile_hndr fh)" "tiles (tile_hndr fh) = []"
    and "pkt_MH m p = 1" "\<not> gap p" "\<not> marker p" "1 \<le> pkt_MH m' q" "\<not> gap q"
    and "run pull_step [(m, U, p), (m', U', q)] fh = Some (fh', ev)"
  shows "\<exists>ev'. ev = [Ev_Chunk 0 (payload p + 8) (psize p), Ev_Abort kAbortMissedEOC, Ev_Release (slab_idx p),
      Ev_Chunk 0 (payload q + 8) (psize q)] @ ev'"
proof -
  let ?h = "half_header p fh"
  have h: "\<not> is_passed_header ?h" "\<not> is_parsing_failure ?h" "held_slabs ?h = [slab_idx p]" "release_slab_cb (cbk ?h)"
    "tiles (tile_hndr ?h) = []" "abort_armed ?h" "chunk_cb (cbk ?h)" "frame_abort_cb (cbk ?h)"
    using assms(1,3) by (simp_all add: half_header_def append_data_def between_frames_def)
  from assms(9) split_header_first [OF assms(1,2,4-6)] obtain ev2 where
    ev: "pull_data m' U' q ?h = Some (fh', ev2)" "ev = Ev_Chunk 0 (payload p + 8) (psize p) # ev2"
    by (auto simp: pull_step_def split: bind_splits)
  from ev(1) have "\<exists>ev'. ev2 = [Ev_Abort kAbortMissedEOC, Ev_Release (slab_idx p), Ev_Chunk 0 (payload q + 8) (psize q)] @ ev'"
  proof (cases rule: pull_data_cases)
    case (main fh1 ev1 fh2 ev2 fh3 ev3 ev4 cont)
    have 12: "fh2 = ?h" "ev1 = []" "ev2 = []"
      using main(1,2) assms(8) h(3) by (auto simp: on_gap_def on_slab_cap_def)
    from main(4) [unfolded 12(1)] obtain fh0 e1 dc e3 where "drop_stale ?h = Some (fh0, e1)"
      and dc: "dc = deliver_chunk (chain_total_bytes fh0) (payload q + 8) (psize q) (fh0\<lparr>is_parsing_failure := False, frame_parse_failed := False\<rparr>)"
      and e3: "ev3 = e1 @ snd dc @ e3"
      by (rule main_packet_cases)
    then have "e1 = [Ev_Abort kAbortMissedEOC, Ev_Release (slab_idx p)]" "chain_total_bytes fh0 = 0" "chunk_cb (cbk fh0)"
      using h by (auto simp: drop_stale_def fire_abort_def release_held_slabs_def restart_tiles_def restart_def Let_def)
    with dc e3 12 main(6) show ?thesis by (simp add: deliver_chunk_def)
  qed (use assms(7) in auto)
  with ev(2) show ?thesis by auto
qed

text \<open>
  The last packet of a frame carries a resync point, and the parse it triggers fails: the same call reports
  the abort and then the completed frame.
\<close>

lemma abort_then_ready:
  assumes pd: "pull_data m U p fh = Some (fh', ev)"
    and p: "pkt_MH m p = 0" "marker p" "\<not> gap p" "pkt_ORDB m p"
    and fh: "is_passed_header fh" "\<not> is_parsing_failure fh" "\<not> resync_soft fh" "\<not> resync_armed fh" "length (held_slabs fh) < 3072"
      "cbk fh = all_callbacks"
    and pa: "parse m (append_signal (ucast (chain_total_bytes fh) + pkt_POS m p) (pkt_PID m p) (tile_hndr fh))
      (append_chunk (payload p + 8) (psize p) (fh_cs fh)) = Some (False, th, cs, ps)"
  shows "ev = [Ev_Chunk (chain_total_bytes fh) (payload p + 8) (psize p)] @ map Ev_Precinct ps
      @ [Ev_Abort kAbortParse, Ev_Ready (cs_chunks cs) False] @ map Ev_Release (held_slabs fh @ [slab_idx p])"
  using assms
  by (auto simp: pull_data_def on_gap_def on_slab_cap_def body_packet_def deliver_chunk_def append_data_def action_def
      fire_abort_def end_of_frame_def end_frame_streak_def release_held_slabs_def restart_tiles_def all_callbacks_def Let_def
      split: bind_splits)

section \<open>Verifying and re-latching the stream\<close>

text \<open>The parse-failure escape hatch of the re-latch guard.\<close>

definition hatch_open :: "frame_handler \<Rightarrow> bool" where
  "hatch_open fh \<longleftrightarrow> relatch_k fh \<noteq> 0 \<and> relatch_k fh \<le> parse_fail_streak fh"

text \<open>
  C29: A main header with the latched geometry reuses the latched structure: with a verified
  signature and the escape hatch closed, the tile handler is untouched, no re-latch is reported,
  and the reader is put right after SOD of the new header, wherever that lies now.
\<close>

theorem same_geometry_reuses_latch:
  assumes "2 \<le> pkt_MH m p" "ready (tile_hndr fh)"
    and "geometry_signature m (payload p + 8) (psize p) = (sig, Some sod)" "sig \<noteq> 0" "sod \<noteq> 0"
    and "geom_sig fh = 0 \<or> geom_sig fh = sig" "\<not> hatch_open fh"
  shows "judge_header m U p fh =
    Some (True, fh\<lparr>geom_sig := sig, start_SOD := sod, fh_cs := reset sod (fh_cs fh), is_passed_header := True\<rparr>, [])"
proof -
  have "check_geometry sig fh = Inr (None, fh\<lparr>geom_sig := sig\<rparr>)"
  proof (cases "geom_sig fh = 0")
    case True
    with assms(2,4,7) show ?thesis by (simp add: check_geometry_def hatch_open_def Let_def)
  next
    case False
    with assms(6) have g: "sig = geom_sig fh" by simp
    have "check_geometry sig fh = Inr (None, fh)"
      using assms(2,7) False unfolding g by (auto simp: check_geometry_def hatch_open_def Let_def)
    then show ?thesis unfolding g by simp
  qed
  with assms(1,2,3,5) show ?thesis by (simp add: judge_header_def)
qed

theorem same_geometry_reuses_latch_witness:
  "judge_header frame_mem no_storage (plain_packet 0 4 False 7) latched_handler =
     Some (True, latched_handler\<lparr>geom_sig := fnv_basis, start_SOD := 4,
       fh_cs := reset 4 (fh_cs latched_handler), is_passed_header := True\<rparr>, [])"
proof (rule same_geometry_reuses_latch)
  show "geometry_signature frame_mem (payload (plain_packet 0 4 False 7) + 8) (psize (plain_packet 0 4 False 7))
      = (fnv_basis, Some 4)"
    by code_simp
  show "2 \<le> pkt_MH frame_mem (plain_packet 0 4 False 7)" by code_simp
qed (simp_all add: latched_handler_def hatch_open_def frame_handler_init_def fnv_basis_def)

text \<open>
  C28: A clean main header with another geometry re-latches the stream, and so does any clean
  main header once the escape hatch is open (\<open>relatch_k\<close> frames in a row died in the parser): the
  header is parsed from scratch, the tile structure is rebuilt from it, the new signature is
  latched, the failure streak restarts, and the consumer is told the reason, after the new
  structure is live.
\<close>

theorem new_geometry_relatches:
  assumes "2 \<le> pkt_MH m p" "ready (tile_hndr fh)"
    and "geometry_signature m (payload p + 8) (psize p) = (sig, so)" "sig \<noteq> 0"
    and "hatch_open fh \<or> geom_sig fh \<noteq> 0 \<and> geom_sig fh \<noteq> sig"
    and "parse_main_header m (reset 0 (fh_cs fh)) (th_hdr (tile_hndr fh)) = Some (sod, h, cs)" "sod \<noteq> 0"
    and "create U ((tile_hndr fh)\<lparr>ready := False, th_hdr := h\<rparr>) = Some (True, th)"
  shows "\<exists>fh'. judge_header m U p fh = Some (True, fh', if relatch_cb (cbk fh)
        then [Ev_Relatch (if hatch_open fh then kRelatchParseFail else kRelatchGeometry)] else [])
    \<and> tile_hndr fh' = th \<and> geom_sig fh' = sig \<and> start_SOD fh' = sod \<and> fh_cs fh' = cs
    \<and> parse_fail_streak fh' = 0 \<and> relatches fh' = Suc (relatches fh) \<and> is_passed_header fh'"
  using assms
  by (auto simp: judge_header_def check_geometry_def latch_header_def hatch_open_def invalidate_def Let_def)

text \<open>A stream of pictures without samples, whose header has a SIZ segment only.\<close>

definition empty_picture_header :: "byte list" where
  "empty_picture_header = [0xFF, 0x4F,
     0xFF, 0x51, 0, 47, 0, 0, 0, 0, 0, 0, 0, 0, 0, 0, 0, 0, 0, 0, 0, 0, 0, 0,
       0, 0, 0, 8, 0, 0, 0, 8, 0, 0, 0, 0, 0, 0, 0, 0, 0, 3, 7, 1, 1, 7, 1, 1, 7, 1, 1,
     0xFF, 0x93]"

definition picture_mem :: memory where
  "picture_mem = list_mem ([0x80, 0, 0, 0, 0, 0, 0, 0] @ empty_picture_header)"

definition failing_handler :: frame_handler where
  "failing_handler = latched_handler\<lparr>parse_fail_streak := 4, fh_cs := append_chunk 8 55 codestream_init\<rparr>"

theorem new_geometry_relatches_witness:
  "\<exists>fh'. judge_header picture_mem no_storage (plain_packet 0 55 False 7) failing_handler
     = Some (True, fh', [Ev_Relatch kRelatchParseFail]) \<and> relatches fh' = 1"
proof -
  obtain sig so where sg: "geometry_signature picture_mem 8 55 = (sig, so)" by fastforce
  have "fst (geometry_signature picture_mem 8 55) \<noteq> 0"
  proof -
    have "header_segments (drop 2 (mem_read picture_mem 8 55)) \<noteq> None" "be16 (mem_read picture_mem 8 55) 0 = SOC"
      by code_simp+
    then show ?thesis by (auto simp: geometry_signature_eq Let_def split: option.splits)
  qed
  with sg have s0: "sig \<noteq> 0" by simp
  have "case parse_main_header picture_mem (reset 0 (fh_cs failing_handler)) (th_hdr (tile_hndr failing_handler)) of
      None \<Rightarrow> False
    | Some (sod, h, cs) \<Rightarrow> sod \<noteq> 0
        \<and> map_option fst (create no_storage ((tile_hndr failing_handler)\<lparr>ready := False, th_hdr := h\<rparr>)) = Some True"
    by code_simp
  then obtain sod h cs th where
    "parse_main_header picture_mem (reset 0 (fh_cs failing_handler)) (th_hdr (tile_hndr failing_handler)) = Some (sod, h, cs)"
    "sod \<noteq> 0" "create no_storage ((tile_hndr failing_handler)\<lparr>ready := False, th_hdr := h\<rparr>) = Some (True, th)"
    by (auto split: option.splits)
  moreover have "2 \<le> pkt_MH picture_mem (plain_packet 0 55 False 7)" by code_simp
  moreover have "ready (tile_hndr failing_handler)" "hatch_open failing_handler" "relatch_cb (cbk failing_handler)"
    "relatches failing_handler = 0"
    by code_simp+
  ultimately show ?thesis
    using new_geometry_relatches [of picture_mem "plain_packet 0 55 False 7" failing_handler sig so sod h cs
        no_storage th] sg s0
    by (auto simp: plain_packet_def)
qed

end
