(* ===== verification/Decoder.thy ===== *)
theory Decoder
  imports Rtp_Order Frame_Contract
begin

text \<open>
  The decoder program of \<open>src/main.cpp\<close>: the receiver and the frame handler, joined by
  \<open>rtp_receive_hook\<close> and the slab-release callback. The receive thread and the worker thread
  interleave; a step is one datagram, or one job taken from the queue and processed.

  Shown: every busy slab is queued or held by the frame handler, once; the hook sees the
  payloads of received datagrams unmodified, in sequence order; draining the queue leaves only
  held slabs busy.
\<close>

section \<open>The program\<close>

record params_t =
  p_frame_handler :: frame_handler
  p_receiver :: receiver
  p_total_frames :: nat
  p_last_timetamp :: u32

text \<open>
  Outputs: a frame passed to the hook, a callback of the frame handler, and a statistics line
  with the number of frames in its window.
\<close>

datatype effect = Out_Frame rtp_frame | Out_Event event | Out_Stats nat

text \<open>
  The packet the hook makes of a frame. The size is \<open>payload_len - 8\<close> as a \<open>size_t\<close>; there
  is no gap flag, and the program registers no resync callbacks.
\<close>

definition hook_packet :: "rtp_frame \<Rightarrow> packet" where
  "hook_packet f = \<lparr>payload = f_payload f, psize = unat (word_of_nat (f_payload_len f) - 8 :: u64),
     marker = f_marker f, slab_idx = f_slab_idx f, gap = False, accept_gap = False, accept_point = False\<rparr>"

fun release_all :: "event list \<Rightarrow> receiver \<Rightarrow> receiver" where
  "release_all [] rx = rx"
| "release_all (Ev_Release i # ev) rx = release_all ev (release_slab i rx)"
| "release_all (e # ev) rx = release_all ev rx"

text \<open>The statistics window of the hook: half a second of the 90 kHz clock.\<close>

definition report :: "u32 \<Rightarrow> params_t \<Rightarrow> params_t \<times> effect list" where
  "report ts p =
     (let n = total_frames (p_frame_handler p);
          p = (if p_last_timetamp p = 0 then p\<lparr>p_last_timetamp := ts\<rparr> else p)
      in if p_last_timetamp p + 45000 \<le> ts
         then (p\<lparr>p_total_frames := n, p_last_timetamp := ts\<rparr>, [Out_Stats (n - p_total_frames p)])
         else (p, []))"

definition rtp_receive_hook :: "uninit \<Rightarrow> rtp_frame \<Rightarrow> params_t \<Rightarrow> (params_t \<times> effect list) option" where
  "rtp_receive_hook U f p = do {
     (fh, ev) \<leftarrow> pull_data (slab (p_receiver p)) U (hook_packet f) (p_frame_handler p);
     let (p, os) = report (f_timestamp f) (p\<lparr>p_frame_handler := fh, p_receiver := release_all ev (p_receiver p)\<rparr>);
     Some (p, Out_Frame f # map Out_Event ev @ os) }"

text \<open>One round of \<open>worker_loop\<close>: a job taken from the queue, if there is one, and processed.\<close>

definition worker_step :: "uninit \<Rightarrow> params_t \<Rightarrow> (params_t \<times> effect list) option" where
  "worker_step U p =
     (case dequeue_job (p_receiver p) of None \<Rightarrow> Some (p, [])
      | Some (j, rx) \<Rightarrow>
          (case process_job j rx of (None, rx) \<Rightarrow> Some (p\<lparr>p_receiver := rx\<rparr>, [])
           | (Some f, rx) \<Rightarrow> rtp_receive_hook U f (p\<lparr>p_receiver := rx\<rparr>)))"

text \<open>The two threads, one step at a time.\<close>

datatype action = Recv "byte list" | Work uninit

fun decoder_step :: "action \<Rightarrow> params_t \<Rightarrow> (params_t \<times> effect list) option" where
  "decoder_step (Recv d) p = do { rx \<leftarrow> recv_dgram d (p_receiver p); Some (p\<lparr>p_receiver := rx\<rparr>, []) }"
| "decoder_step (Work U) p = worker_step U p"

text \<open>
  The end of \<open>worker_loop\<close>: the jobs left in the queue are processed. The list supplies the
  unspecified storage of each round; the loop ends with the queue.
\<close>

fun drain :: "uninit list \<Rightarrow> params_t \<Rightarrow> (params_t \<times> effect list) option" where
  "drain Us p =
     (if job_head (p_receiver p) = job_tail (p_receiver p) then Some (p, [])
      else case Us of [] \<Rightarrow> None
        | U # Us \<Rightarrow> do { (p, o1) \<leftarrow> worker_step U p; (p, o2) \<leftarrow> drain Us p; Some (p, o1 @ o2) })"

declare drain.simps [simp del]

text \<open>\<open>main\<close> up to the start of the threads.\<close>

definition decoder_start :: params_t where
  "decoder_start = \<lparr>p_frame_handler = frame_handler_init\<lparr>cbk := callbacks_none\<lparr>release_slab_cb := True\<rparr>\<rparr>,
     p_receiver = receiver_start 64, p_total_frames = 0, p_last_timetamp = 0\<rparr>"

section \<open>Slab ownership\<close>

text \<open>The busy slabs are those of queued jobs and, apart from them, those in \<open>H\<close>.\<close>

definition owned :: "receiver \<Rightarrow> nat set \<Rightarrow> bool" where
  "owned rx H \<longleftrightarrow> (\<forall>i. in_worker (ring rx i) \<longleftrightarrow> i \<in> job_slab ` set (jobs rx) \<union> H)
     \<and> job_slab ` set (jobs rx) \<inter> H = {}"

lemma head_moves_owned: "head_moves n rx rx' \<Longrightarrow> rx_inv rx \<Longrightarrow> owned rx H \<Longrightarrow> owned rx' H"
proof (induction rule: head_moves.induct)
  case (stay rx)
  then show ?case by simp
next
  case (skip rx n rx')
  from skip.IH [OF skip_head_inv(1) [OF skip.prems(1) skip.hyps(1)]] skip.prems(2) show ?case
    by (simp add: owned_def)
next
  case (send rx n rx')
  have q: "queue_inv rx" using send.prems by (simp add: rx_inv_def)
  have "\<not> in_worker (ring rx (ring_index (next_seq rx)))"
    using send.prems(1) send.hyps(1) by (auto simp: rx_inv_def slot_ok_def head_filled_def)
  with send.prems(2) have "owned ((dispatch_head rx)\<lparr>next_seq := next_seq rx + 1\<rparr>) H"
    by (auto simp: owned_def dispatch_head_state [OF q] head_job_def Let_def)
  with send.IH [OF dispatch_head_inv(1) [OF send.prems(1) send.hyps(1)]] show ?case by simp
qed

lemma stored_owned: "owned rx H \<Longrightarrow> owned (stored d hdr elen seq rx) H"
  by (auto simp: owned_def stored_def upd_slot_def Let_def)

lemma recv_dgram_owned:
  assumes inv: "rx_inv rx" and o: "owned rx H" and r: "recv_dgram d rx = Some rx'"
  shows "owned rx' H"
proof (cases "length d < 12")
  case True
  with r o show ?thesis by (simp add: recv_dgram_def)
next
  case False
  with r have h: "handle_dgram d rx = Some rx'" by (simp add: recv_dgram_def)
  from inv h o show ?thesis
  proof (rule handle_dgram_preserves)
    show "head_moves n a b \<Longrightarrow> rx_inv a \<Longrightarrow> owned a H \<Longrightarrow> owned b H" for n a b
      by (rule head_moves_owned)
    show "owned a H \<Longrightarrow> owned (stored d hdr elen seq a) H" for a hdr elen seq
      by (rule stored_owned)
  qed (auto simp: owned_def first_packet_def)
qed

text \<open>
  The invariant of the program: the receiver's invariant; every busy slab is queued or held by the
  frame handler; no slab is held twice, and at most 3072 are.
\<close>

definition dec_inv :: "params_t \<Rightarrow> bool" where
  "dec_inv p \<longleftrightarrow> (let rx = p_receiver p; fh = p_frame_handler p in
     rx_inv rx \<and> release_slab_cb (cbk fh) \<and> owned rx (set (held_slabs fh)) \<and> distinct (held_slabs fh)
     \<and> (\<forall>i \<in> set (held_slabs fh). i < kRingSize) \<and> length (held_slabs fh) \<le> 3072)"

lemma release_all_state:
  "release_all ev rx = rx\<lparr>ring := (\<lambda>i. if i \<in># releases ev \<and> i < kRingSize
     then (ring rx i)\<lparr>in_worker := False\<rparr> else ring rx i)\<rparr>"
  by (induction ev rx rule: release_all.induct)
    (auto simp: release_slab_def upd_slot_def intro!: receiver.equality ext)

lemma dequeue_job_frame:
  assumes inv: "rx_inv rx" and d: "dequeue_job rx = Some (j, rx')"
  shows "rx_inv rx'" "jobs rx = j # jobs rx'" "ring rx' = ring rx" "slab rx' = slab rx" "next_seq rx' = next_seq rx"
    "started rx' = started rx" "net_lost_packets rx' = net_lost_packets rx" "queue_full_drops rx' = queue_full_drops rx"
proof -
  have q: "queue_inv rx" using inv by (simp add: rx_inv_def)
  have ne: "jobs rx \<noteq> []" using d job_fifo.deq_empty [OF q] by auto
  from job_fifo.deq_some [OF q ne] d have "jobs rx' = tl (jobs rx)" "j = hd (jobs rx)" and q': "queue_inv rx'" by auto
  with ne show j: "jobs rx = j # jobs rx'" by simp
  have rx': "rx' = rx\<lparr>job_head := job_head rx'\<rparr>"
    using d by (auto simp: dequeue_job_def split: if_splits)
  show "ring rx' = ring rx" "slab rx' = slab rx" "next_seq rx' = next_seq rx" "started rx' = started rx"
    "net_lost_packets rx' = net_lost_packets rx" "queue_full_drops rx' = queue_full_drops rx"
    by (subst rx', simp)+
  moreover have "pending rx' = pending rx" "jitter_depth rx' = jitter_depth rx" by (subst rx', simp)+
  ultimately show "rx_inv rx'"
    using inv q' j unfolding rx_inv_def slot_ok_def job_ok_def by simp
qed

lemma process_job_ok:
  "unat (job_hdr_len j) \<le> job_len j \<Longrightarrow> \<exists>f. process_job j rx = (Some f, rx) \<and> f_slab_idx f = job_slab j
     \<and> f_seq f = job_seq j"
  by (simp add: process_job_def Let_def)

text \<open>
  A round of the worker on a non-empty queue runs the hook on the oldest job; what it changes of the
  receiver are the busy marks of the slabs released.
\<close>

lemma worker_step_cases:
  assumes inv: "rx_inv (p_receiver p)" and w: "worker_step U p = Some (p', out)"
  obtains (idle) "jobs (p_receiver p) = []" "p' = p" "out = []"
  | (job) j rx f fh' ev os where "jobs (p_receiver p) = j # jobs rx" "dequeue_job (p_receiver p) = Some (j, rx)"
      "process_job j rx = (Some f, rx)" "f_slab_idx f = job_slab j" "f_seq f = job_seq j"
      "pull_data (slab rx) U (hook_packet f) (p_frame_handler p) = Some (fh', ev)"
      "p_frame_handler p' = fh'" "p_receiver p' = release_all ev rx" "out = Out_Frame f # map Out_Event ev @ os"
      "\<forall>f. Out_Frame f \<notin> set os"
proof (cases "dequeue_job (p_receiver p)")
  case None
  have "queue_inv (p_receiver p)" using inv by (simp add: rx_inv_def)
  from job_fifo.deq_some [OF this] None have "jobs (p_receiver p) = []" by fastforce
  then show thesis using None w by (intro idle) (simp_all add: worker_step_def)
next
  case (Some jr)
  obtain j rx where d: "dequeue_job (p_receiver p) = Some (j, rx)" using Some by (cases jr) auto
  note fr = dequeue_job_frame [OF inv d]
  have "job_ok (p_receiver p) j" using inv fr(2) by (simp add: rx_inv_def)
  then obtain f where f: "process_job j rx = (Some f, rx)" "f_slab_idx f = job_slab j" "f_seq f = job_seq j"
    using process_job_ok [of j rx] by (auto simp: job_ok_def)
  from w d f obtain fh' ev where pd: "pull_data (slab rx) U (hook_packet f) (p_frame_handler p) = Some (fh', ev)"
    by (auto simp: worker_step_def rtp_receive_hook_def split: bind_splits)
  with w d f show thesis
    by (intro job [OF fr(2) d f pd, of "snd (report (f_timestamp f)
          (p\<lparr>p_receiver := release_all ev rx, p_frame_handler := fh'\<rparr>))"])
      (auto simp: worker_step_def rtp_receive_hook_def report_def Let_def split: if_splits)
qed

lemma rx_inv_released:
  assumes "rx_inv rx" and "\<forall>j \<in> set (jobs rx). job_slab j \<notin> S"
  shows "rx_inv (rx\<lparr>ring := (\<lambda>i. if i \<in> S then (ring rx i)\<lparr>in_worker := False\<rparr> else ring rx i)\<rparr>)"
proof -
  let ?rx = "rx\<lparr>ring := (\<lambda>i. if i \<in> S then (ring rx i)\<lparr>in_worker := False\<rparr> else ring rx i)\<rparr>"
  have "filled (ring ?rx i) = filled (ring rx i)" for i by simp
  then have f: "{i. filled (ring ?rx i)} = {i. filled (ring rx i)}" by presburger
  have "slot_ok ?rx i" if "filled (ring rx i)" for i
    using assms(1) that by (auto simp: rx_inv_def slot_ok_def)
  moreover have "job_ok ?rx j" if "j \<in> set (jobs rx)" for j
    using assms that by (auto simp: rx_inv_def job_ok_def)
  ultimately show ?thesis
    using assms(1) f unfolding rx_inv_def [of ?rx] by (simp add: rx_inv_def)
qed

lemma worker_step_inv:
  assumes inv: "dec_inv p" and w: "worker_step U p = Some (p', out)"
  shows "dec_inv p'"
proof -
  let ?rx = "p_receiver p" and ?fh = "p_frame_handler p"
  have rx: "rx_inv ?rx" "release_slab_cb (cbk ?fh)" "owned ?rx (set (held_slabs ?fh))" "distinct (held_slabs ?fh)"
    "\<forall>i \<in> set (held_slabs ?fh). i < kRingSize"
    using inv by (auto simp: dec_inv_def Let_def)
  from rx(1) w show ?thesis
  proof (cases rule: worker_step_cases)
    case idle
    with inv show ?thesis by simp
  next
    case (job j rx1 f fh' ev os)
    note fr = dequeue_job_frame [OF rx(1) job(2)]
    have led: "mset (held_slabs ?fh) + {#job_slab j#} = mset (held_slabs fh') + releases ev" "cbk fh' = cbk ?fh"
      "length (held_slabs fh') \<le> 3072"
      using pull_data_slabs [OF job(6) rx(2)] job(4) by (auto simp: hook_packet_def)
    let ?H = "set (held_slabs ?fh)" and ?R = "set_mset (releases ev)"
    have jd: "job_slab j \<notin> ?H" "job_slab j \<notin> job_slab ` set (jobs rx1)" "job_slab j < kRingSize"
      using rx(1,3) job(1) by (auto simp: owned_def rx_inv_def job_ok_def)
    have all: "insert (job_slab j) ?H = set (held_slabs fh') \<union> ?R"
      using arg_cong [OF led(1), of set_mset] by auto
    obtain rs where rs: "mset rs = releases ev" by (metis ex_mset)
    have "mset (held_slabs fh' @ rs) = mset (held_slabs ?fh @ [job_slab j])" using led(1) rs by simp
    from mset_eq_imp_distinct_iff [OF this] have "distinct (held_slabs fh' @ rs)" using rx(4) jd by simp
    moreover have "set rs = ?R" using rs by (metis set_mset_mset)
    ultimately have dis: "distinct (held_slabs fh')" "set (held_slabs fh') \<inter> ?R = {}" by auto
    have lt: "\<forall>i \<in> set (held_slabs fh') \<union> ?R. i < kRingSize" unfolding all [symmetric] using rx(5) jd by auto
    have rel: "p_receiver p' = rx1\<lparr>ring := (\<lambda>i. if i \<in> ?R then (ring rx1 i)\<lparr>in_worker := False\<rparr> else ring rx1 i)\<rparr>"
      unfolding job(8) release_all_state using lt by (intro receiver.equality) auto
    have nj: "job_slab ` set (jobs rx1) \<inter> (set (held_slabs fh') \<union> ?R) = {}"
      unfolding all [symmetric] using rx(3) jd(2) job(1) by (auto simp: owned_def)
    have "owned (p_receiver p') (set (held_slabs fh'))"
      using rx(3) nj dis(2) all job(1) unfolding rel owned_def by (auto simp: fr(3))
    moreover have "rx_inv (p_receiver p')" unfolding rel using nj by (intro rx_inv_released fr(1)) auto
    ultimately show ?thesis using led(2,3) rx(2) dis(1) lt by (simp add: dec_inv_def job(7))
  qed
qed

lemma decoder_step_inv: "dec_inv p \<Longrightarrow> decoder_step a p = Some (p', out) \<Longrightarrow> dec_inv p'"
proof (cases a)
  case (Recv d)
  assume inv: "dec_inv p" and s: "decoder_step a p = Some (p', out)"
  from s Recv obtain rx where r: "recv_dgram d (p_receiver p) = Some rx" "p' = p\<lparr>p_receiver := rx\<rparr>"
    by (auto split: bind_splits)
  from inv have i: "rx_inv (p_receiver p)" "owned (p_receiver p) (set (held_slabs (p_frame_handler p)))"
    by (auto simp: dec_inv_def Let_def)
  from recv_dgram_inv [OF i(1), of d] recv_dgram_owned [OF i r(1)] r inv show ?thesis
    by (auto simp: dec_inv_def Let_def)
qed (auto intro: worker_step_inv)

section \<open>Order at the hook\<close>

text \<open>
  The monitor collects the sequence numbers of the frames given to the hook. With the numbers in
  the queue they lie \<open>ks\<close> after the first one, strictly increasing, and \<open>N\<close> numbers have been passed over in all.
\<close>

definition note_seq :: "u16 list \<Rightarrow> effect \<Rightarrow> u16 list option" where
  "note_seq h e = Some (case e of Out_Frame f \<Rightarrow> h @ [f_seq f] | _ \<Rightarrow> h)"

definition in_order :: "u16 list \<Rightarrow> receiver \<Rightarrow> bool" where
  "in_order h rx \<longleftrightarrow> (\<exists>s0 N ks. h @ map job_seq (jobs rx) = map (\<lambda>k. s0 + word_of_nat k) ks
     \<and> sorted_wrt (<) ks \<and> (\<forall>k \<in> set ks. k < N) \<and> (started rx \<longrightarrow> next_seq rx = s0 + word_of_nat N)
     \<and> (\<not> started rx \<longrightarrow> N = 0) \<and> N = length ks + net_lost_packets rx + queue_full_drops rx)"

lemma in_order_advanced:
  assumes "in_order h rx" "started rx" "advanced rx n rx'" "started rx'"
  shows "in_order h rx'"
proof -
  from assms(1,2) obtain s0 N ks where 1: "h @ map job_seq (jobs rx) = map (\<lambda>k. s0 + word_of_nat k) ks"
    "sorted_wrt (<) ks" "\<forall>k \<in> set ks. k < N" "next_seq rx = s0 + word_of_nat N"
    "N = length ks + net_lost_packets rx + queue_full_drops rx" by (auto simp: in_order_def)
  from assms(3) obtain ks' js where 2: "next_seq rx' = next_seq rx + word_of_nat n" "jobs rx' = jobs rx @ js"
    "sorted_wrt (<) ks'" "\<forall>k \<in> set ks'. k < n" "map job_seq js = map (\<lambda>k. next_seq rx + word_of_nat k) ks'"
    "n + net_lost_packets rx + queue_full_drops rx = length js + net_lost_packets rx' + queue_full_drops rx'"
    by (auto simp: advanced_def)
  let ?ks = "ks @ map ((+) N) ks'"
  have "h @ map job_seq (jobs rx') = map (\<lambda>k. s0 + word_of_nat k) ?ks"
    using 1(1,4) 2(2,5) by (simp add: o_def add.assoc)
  moreover have "sorted_wrt (<) ?ks" "\<forall>k \<in> set ?ks. k < N + n"
    using 1(2,3) 2(3,4) by (auto simp: sorted_wrt_append sorted_wrt_map)
  moreover have "next_seq rx' = s0 + word_of_nat (N + n)" using 1(4) 2(1) by (simp add: add.assoc)
  moreover have "N + n = length ?ks + net_lost_packets rx' + queue_full_drops rx'"
    using 1(5) 2(6) arg_cong [OF 2(5), of length] by simp
  ultimately show ?thesis using assms(4) unfolding in_order_def by blast
qed

lemma in_order_first:
  assumes "in_order h rx" "\<not> started rx"
  shows "in_order h (first_packet seq rx)"
  using assms by (auto simp: in_order_def first_packet_def intro!: exI [of _ seq])

lemma recv_dgram_in_order:
  assumes "rx_inv rx" "in_order h rx" "recv_dgram d rx = Some rx'"
  shows "in_order h rx'"
proof -
  from recv_dgram_advanced [OF assms(1,3)] obtain seq n where
    "started rx \<and> started rx' \<and> advanced rx n rx' \<or> \<not> started rx \<and> rx' = rx
      \<or> \<not> started rx \<and> started rx' \<and> advanced (first_packet seq rx) n rx'" by blast
  then show ?thesis
    using in_order_advanced [of h "first_packet seq rx"] in_order_advanced [of h rx] in_order_first assms
      first_packet_inv [OF assms(1)] by metis
qed

lemma observe_no_frames: "\<forall>f. Out_Frame f \<notin> set os \<Longrightarrow> observe note_seq os h = Some h"
  by (induction os) (auto simp: note_seq_def split: effect.splits)

lemma worker_step_in_order:
  assumes inv: "rx_inv (p_receiver p)" and o: "in_order h (p_receiver p)" and w: "worker_step U p = Some (p', out)"
  shows "\<exists>h'. observe note_seq out h = Some h' \<and> in_order h' (p_receiver p')"
  using inv w
proof (cases rule: worker_step_cases)
  case idle
  with o show ?thesis by simp
next
  case (job j rx f fh' ev os)
  note fr = dequeue_job_frame [OF inv job(2)]
  have "observe note_seq out h = Some (h @ [f_seq f])"
    unfolding job(9) using observe_no_frames [OF job(10)] observe_no_frames [of "map Out_Event ev"]
    by (auto simp: note_seq_def)
  moreover have "in_order (h @ [f_seq f]) (p_receiver p')"
    using o fr(2,5-8) unfolding job(8) release_all_state in_order_def by (simp add: job(5))
  ultimately show ?thesis by blast
qed

interpretation hook: observed_machine decoder_step "\<lambda>_. True" note_seq
  "\<lambda>h p. dec_inv p \<and> in_order h (p_receiver p)"
proof
  fix h p a p' out
  assume inv: "dec_inv p \<and> in_order h (p_receiver p)" and s: "decoder_step a p = Some (p', out)"
  have rx: "rx_inv (p_receiver p)" using inv by (simp add: dec_inv_def Let_def)
  have "\<exists>h'. observe note_seq out h = Some h' \<and> in_order h' (p_receiver p')"
  proof (cases a)
    case (Recv d)
    with s recv_dgram_in_order [OF rx] inv show ?thesis by (auto split: bind_splits)
  next
    case (Work U)
    with s worker_step_in_order [OF rx] inv show ?thesis by simp
  qed
  with decoder_step_inv s inv show "\<exists>h'. observe note_seq out h = Some h' \<and> dec_inv p' \<and> in_order h' (p_receiver p')"
    by blast
qed

lemma decoder_start_inv: "dec_inv decoder_start" "in_order [] (p_receiver decoder_start)"
proof -
  have "rx_inv (receiver_start 64)" by (rule receiver_start_inv) (simp_all add: kRingSize_def)
  moreover have "owned (receiver_start 64) {}"
    by (simp add: owned_def) (simp add: receiver_start_def slot_empty_def)
  ultimately show "dec_inv decoder_start"
    by (simp add: dec_inv_def decoder_start_def frame_handler_init_def)
  show "in_order [] (p_receiver decoder_start)"
    by (simp add: in_order_def decoder_start_def) (simp add: receiver_start_def)
qed

section \<open>Frames are datagrams\<close>

fun datagrams :: "action list \<Rightarrow> byte list set" where
  "datagrams [] = {}"
| "datagrams (Recv d # as) = insert d (datagrams as)"
| "datagrams (Work U # as) = datagrams as"

text \<open>
  Frame \<open>f\<close>, with its payload in memory \<open>m\<close>, is the datagram \<open>d\<close>: its header fields, and the
  payload between the RTP header and the padding, inside the slab.
\<close>

definition frame_of :: "memory \<Rightarrow> byte list \<Rightarrow> rtp_frame \<Rightarrow> bool" where
  "frame_of m d f \<longleftrightarrow> (\<exists>hdr len. parse_rtp d = Some (hdr, len, f_seq f)
     \<and> f_timestamp f = be32 d 4 \<and> f_ssrc f = be32 d 8
     \<and> f_marker f = bit (d ! 1) 7 \<and> f_payload_type f = d ! 1 AND 0x7F
     \<and> mem_read m (f_payload f) (f_payload_len f) = drop hdr (take len d)
     \<and> f_payload f = f_slab_idx f * kSlotBytes + hdr \<and> hdr + f_payload_len f \<le> kSlotBytes)"

lemma drop_bit_and_1: "drop_bit n w AND 1 \<noteq> 0 \<longleftrightarrow> bit w n" for w :: "'a :: len word"
  by (simp add: and_one_eq bit_iff_odd_drop_bit odd_iff_mod_2_eq_one)

lemma be32_bytes:
  "push_bit 16 (ucast (push_bit 8 (ucast a) OR ucast b :: u16)) OR ucast (push_bit 8 (ucast c) OR ucast e :: u16)
    = (push_bit 24 (ucast a) OR push_bit 16 (ucast b) OR push_bit 8 (ucast c) OR ucast e :: u32)"
  for a b c e :: byte
proof (rule bit_word_eqI)
  fix n assume n: "n < LENGTH(32)"
  have big: "\<not> bit w k" if "8 \<le> k" for w :: byte and k using bit_imp_le_length [of w k] that by auto
  consider "n < 8" | "8 \<le> n" "n < 16" | "16 \<le> n" "n < 24" | "24 \<le> n" by linarith
  then show "bit (push_bit 16 (ucast (push_bit 8 (ucast a) OR ucast b :: u16)) OR ucast (push_bit 8 (ucast c) OR ucast e :: u16) :: u32) n
      = bit (push_bit 24 (ucast a) OR push_bit 16 (ucast b) OR push_bit 8 (ucast c) OR ucast e :: u32) n"
    using n by cases (auto simp: bit_simps big)
qed

lemma rd_u32_be32:
  assumes "\<And>k. k < 4 \<Longrightarrow> m (a + k) = byte_or_0 d (i + k)"
  shows "rd_u32 m a = be32 d i"
proof -
  have m: "m a = byte_or_0 d i" "m (a + 1) = byte_or_0 d (i + 1)" "m (a + 2) = byte_or_0 d (i + 2)"
    "m (a + 3) = byte_or_0 d (i + 3)"
    using assms [of 0] assms [of 1] assms [of 2] assms [of 3] by simp_all
  have i: "i + 2 + 1 = i + 3" by simp
  show ?thesis unfolding rd_u32_def be32_def be16_def m i be32_bytes ..
qed

lemma process_job_frame:
  assumes h: "holds_dgram (slab rx) (job_slab j) (job_len j) (job_seq j) (job_hdr_len j) d"
    and p: "process_job j rx = (Some f, rx')"
  shows "frame_of (slab rx) d f"
proof -
  let ?a = "job_slab j * kSlotBytes"
  from h have d: "parse_rtp d = Some (unat (job_hdr_len j), job_len j, job_seq j)"
    and m: "mem_read (slab rx) ?a (job_len j) = take (job_len j) d" by (auto simp: holds_dgram_def)
  note b = parse_rtp_bounds [OF d]
  have byte: "slab rx (?a + i) = d ! i" if "i < 12" for i
  proof -
    have "i < job_len j" using that b(1,2) by simp
    then have "slab rx (?a + i) = take (job_len j) d ! i" unfolding m [symmetric] by simp
    with \<open>i < job_len j\<close> show ?thesis by simp
  qed
  have dr: "drop (unat (job_hdr_len j)) (take (job_len j) d)
      = mem_read (slab rx) (?a + unat (job_hdr_len j)) (job_len j - unat (job_hdr_len j))"
    unfolding m [symmetric] by simp
  have f: "f = \<lparr>f_seq = job_seq j, f_timestamp = rd_u32 (slab rx) (?a + 4),
      f_ssrc = rd_u32 (slab rx) (?a + 8), f_marker = (drop_bit 7 (slab rx (?a + 1)) AND 1 \<noteq> 0),
      f_payload_type = slab rx (?a + 1) AND 0x7F, f_payload = ?a + unat (job_hdr_len j),
      f_payload_len = job_len j - unat (job_hdr_len j), f_slab_idx = job_slab j\<rparr>"
    using p b(2) by (auto simp: process_job_def Let_def)
  have "rd_u32 (slab rx) (?a + 4) = be32 d 4" "rd_u32 (slab rx) (?a + 8) = be32 d 8"
    using byte b(1-3) by (auto intro!: rd_u32_be32 simp: byte_or_0_def add.assoc)
  then show ?thesis
    using b d dr byte [of 1] unfolding frame_of_def f by (simp add: drop_bit_and_1)
qed

lemma recv_dgram_genuine:
  "rx_inv rx \<Longrightarrow> genuine R rx \<Longrightarrow> recv_dgram d rx = Some rx' \<Longrightarrow> genuine (insert d R) rx'"
  using handle_dgram_genuine [of rx R d rx'] by (auto simp: recv_dgram_def intro: genuine_mono split: if_splits)

lemma worker_step_genuine:
  assumes inv: "rx_inv (p_receiver p)" and g: "genuine R (p_receiver p)" and w: "worker_step U p = Some (p', out)"
  shows "genuine R (p_receiver p')"
  using inv w
proof (cases rule: worker_step_cases)
  case (job j rx f fh' ev os)
  note fr = dequeue_job_frame [OF inv job(2)]
  have "genuine R rx" using g by (rule genuine_cong) (auto simp: fr(2-4))
  then show ?thesis unfolding job(8) release_all_state genuine_def by simp
qed (use g in simp)

lemma run_genuine:
  "dec_inv p \<Longrightarrow> genuine R (p_receiver p) \<Longrightarrow> run decoder_step as p = Some (p', out) \<Longrightarrow>
     dec_inv p' \<and> genuine (R \<union> datagrams as) (p_receiver p')"
proof (induction as arbitrary: p R out)
  case (Cons a as)
  from Cons.prems(3) obtain p1 o1 o2 where s: "decoder_step a p = Some (p1, o1)" "run decoder_step as p1 = Some (p', o2)"
    by (auto split: bind_splits)
  have rx: "rx_inv (p_receiver p)" using Cons.prems(1) by (simp add: dec_inv_def Let_def)
  have inv1: "dec_inv p1" by (rule decoder_step_inv [OF Cons.prems(1) s(1)])
  have "genuine (R \<union> datagrams [a]) (p_receiver p1)"
  proof (cases a)
    case (Recv d)
    with s(1) recv_dgram_genuine [OF rx Cons.prems(2)] show ?thesis by (auto split: bind_splits)
  next
    case (Work U)
    with s(1) worker_step_genuine [OF rx Cons.prems(2)] show ?thesis by simp
  qed
  from Cons.IH [OF inv1 this s(2)] show ?case by (cases a) (simp_all add: Un_assoc)
qed simp

lemma decoder_start_genuine: "genuine {} (p_receiver decoder_start)"
  by (simp add: genuine_def decoder_start_def) (simp add: receiver_start_def slot_empty_def)

section \<open>What the program guarantees\<close>

text \<open>A run of two steps: a datagram comes in, and the worker processes it.\<close>

definition sample_rx :: receiver where
  "sample_rx = \<lparr>jitter_depth = 64, ring = (\<lambda>_. slot_empty)(0 := slot_empty\<lparr>slot_hdr_len := 12, in_worker := True\<rparr>),
     slab = (\<lambda>a. if a < 22 then sample_dgram ! a else 0), started = True, next_seq = 1, pending = 0,
     net_lost_packets = 0, slot_busy_drops = 0, queue_full_drops = 0,
     job_queue = (\<lambda>_. job_empty)(0 := \<lparr>job_slab = 0, job_len = 22, job_seq = 0, job_hdr_len = 12\<rparr>),
     job_head = 0, job_tail = 1\<rparr>"

definition sample_frame :: rtp_frame where
  "sample_frame = \<lparr>f_seq = 0, f_timestamp = 1, f_ssrc = 2, f_marker = True, f_payload_type = 0x60,
     f_payload = 12, f_payload_len = 10, f_slab_idx = 0\<rparr>"

lemma recv_sample: "recv_dgram sample_dgram (receiver_start 64) = Some sample_rx"
  apply (simp add: recv_dgram_def handle_dgram_def parse_sample_dgram)
  apply (simp add: sample_dgram_def receiver_start_def seq_diff_def)
  apply (subst force_advance.simps)
  apply (simp add: seq_diff_def depth16_def sint_u16 store_packet_def ring_index_def slot_empty_def upd_slot_def)
  apply (subst release_in_order.simps)
  apply (simp add: head_filled_def ring_index_def dispatch_head_def dispatch_def enqueue_job_def upd_slot_def Let_def
      kJobQueueSize_def kRingSize_def)
  apply (subst release_in_order.simps)
  apply (simp add: sample_rx_def slot_empty_def sample_dgram_def fun_eq_iff)
  done

lemma process_sample:
  "process_job \<lparr>job_slab = 0, job_len = 22, job_seq = 0, job_hdr_len = 12\<rparr> (sample_rx\<lparr>job_head := Suc 0\<rparr>)
     = (Some sample_frame, sample_rx\<lparr>job_head := Suc 0\<rparr>)"
  by (simp add: process_job_def sample_rx_def sample_frame_def rd_u32_def) (simp add: sample_dgram_def)

lemma pull_sample:
  "map_option snd (pull_data (slab sample_rx) no_storage (hook_packet sample_frame)
     (frame_handler_init\<lparr>cbk := callbacks_none\<lparr>release_slab_cb := True\<rparr>\<rparr>)) = Some [Ev_Release 0]"
  by code_simp

lemma work_sample:
  "map_option snd (worker_step no_storage (decoder_start\<lparr>p_receiver := sample_rx\<rparr>))
     = Some [Out_Frame sample_frame, Out_Event (Ev_Release 0)]"
proof -
  have d: "dequeue_job sample_rx = Some (\<lparr>job_slab = 0, job_len = 22, job_seq = 0, job_hdr_len = 12\<rparr>,
      sample_rx\<lparr>job_head := Suc 0\<rparr>)"
    by (simp add: dequeue_job_def sample_rx_def kJobQueueSize_def kRingSize_def)
  from pull_sample obtain fh where "pull_data (slab sample_rx) no_storage (hook_packet sample_frame)
     (frame_handler_init\<lparr>cbk := callbacks_none\<lparr>release_slab_cb := True\<rparr>\<rparr>) = Some (fh, [Ev_Release 0])" by auto
  then show ?thesis
    by (simp add: worker_step_def d process_sample rtp_receive_hook_def decoder_start_def report_def Let_def)
      (simp add: sample_frame_def word_le_nat_alt)
qed

lemma recv_sample_step:
  "decoder_step (Recv sample_dgram) decoder_start = Some (decoder_start\<lparr>p_receiver := sample_rx\<rparr>, [])"
  by (simp add: recv_sample decoder_start_def)

lemma sample_run:
  "map_option snd (run decoder_step [Recv sample_dgram, Work no_storage] decoder_start)
     = Some [Out_Frame sample_frame, Out_Event (Ev_Release 0)]"
  using work_sample recv_sample_step by (auto simp del: decoder_step.simps(1))

text \<open>
  C3: slabs are never leaked, shared or reused too early. After any interleaving of received
  datagrams and worker rounds from the start of the program, a slab is marked busy exactly if a
  queued job or the frame handler has it; no slab is in two places; the frame handler holds at most 3072.
\<close>

theorem slab_ownership:
  assumes "run decoder_step as decoder_start = Some (p, out)"
  shows "(in_worker (ring (p_receiver p) i) \<longleftrightarrow>
      i \<in> set (map job_slab (jobs (p_receiver p)) @ held_slabs (p_frame_handler p)))
    \<and> distinct (map job_slab (jobs (p_receiver p)) @ held_slabs (p_frame_handler p))
    \<and> length (held_slabs (p_frame_handler p)) \<le> 3072"
proof -
  have "dec_inv p" using hook.run_observed [OF _ _ assms] decoder_start_inv by (auto simp: list_all_iff)
  then show ?thesis by (auto simp: dec_inv_def Let_def owned_def rx_inv_def)
qed

theorem slab_ownership_witness:
  "\<exists>p. run decoder_step [Recv sample_dgram] decoder_start = Some (p, []) \<and> in_worker (ring (p_receiver p) 0)
     \<and> 0 \<in> set (map job_slab (jobs (p_receiver p)) @ held_slabs (p_frame_handler p))"
proof -
  let ?p = "decoder_start\<lparr>p_receiver := sample_rx\<rparr>"
  have r: "run decoder_step [Recv sample_dgram] decoder_start = Some (?p, [])"
    using recv_sample_step by (simp del: decoder_step.simps)
  have "in_worker (ring (p_receiver ?p) 0)" by (simp add: sample_rx_def)
  with slab_ownership [OF r, of 0] r show ?thesis by blast
qed

text \<open>
  C4: the hook sees packets in order. After any interleaving from the start of the program the
  sequence numbers of the frames given to the hook, and after them those of the jobs still in the queue, are \<open>s0 + k\<close> for strictly
  increasing \<open>k\<close> below \<open>N\<close>, where \<open>s0\<close> is the first number. The head is at \<open>s0 + N\<close>, so nothing not yet
  passed over was handed out, and the \<open>N\<close> numbers passed over are the frames delivered, the
  jobs in the queue, the packets counted as lost and those dropped on a full queue.
\<close>

theorem hook_in_order:
  assumes "run decoder_step as decoder_start = Some (p, out)"
  shows "\<exists>h s0 N ks. observe note_seq out [] = Some h
    \<and> h @ map job_seq (jobs (p_receiver p)) = map (\<lambda>k. s0 + word_of_nat k) ks
    \<and> sorted_wrt (<) ks \<and> (\<forall>k \<in> set ks. k < N)
    \<and> (started (p_receiver p) \<longrightarrow> next_seq (p_receiver p) = s0 + word_of_nat N)
    \<and> N = length h + length (jobs (p_receiver p)) + net_lost_packets (p_receiver p) + queue_full_drops (p_receiver p)"
proof -
  from hook.run_observed [OF _ _ assms] decoder_start_inv obtain h where
    h: "observe note_seq out [] = Some h" "in_order h (p_receiver p)" by (auto simp: list_all_iff)
  from h(2) obtain s0 N ks where i: "h @ map job_seq (jobs (p_receiver p)) = map (\<lambda>k. s0 + word_of_nat k) ks"
    "sorted_wrt (<) ks" "\<forall>k \<in> set ks. k < N" "started (p_receiver p) \<longrightarrow> next_seq (p_receiver p) = s0 + word_of_nat N"
    "N = length ks + net_lost_packets (p_receiver p) + queue_full_drops (p_receiver p)"
    unfolding in_order_def by blast
  have "length ks = length h + length (jobs (p_receiver p))"
    using arg_cong [OF i(1), of length] by simp
  with h(1) i show ?thesis by auto
qed

theorem hook_in_order_witness:
  "\<exists>p out h s0 N ks. run decoder_step [Recv sample_dgram, Work no_storage] decoder_start = Some (p, out)
     \<and> observe note_seq out [] = Some h \<and> h = [0]
     \<and> h @ map job_seq (jobs (p_receiver p)) = map (\<lambda>k. s0 + word_of_nat k) ks \<and> sorted_wrt (<) ks \<and> (\<forall>k \<in> set ks. k < N)
     \<and> N = length h + length (jobs (p_receiver p)) + net_lost_packets (p_receiver p) + queue_full_drops (p_receiver p)"
proof -
  from sample_run obtain p where
    r: "run decoder_step [Recv sample_dgram, Work no_storage] decoder_start
      = Some (p, [Out_Frame sample_frame, Out_Event (Ev_Release 0)])" by auto
  have o: "observe note_seq [Out_Frame sample_frame, Out_Event (Ev_Release 0)] [] = Some [0]"
    by (simp add: note_seq_def sample_frame_def)
  from hook_in_order [OF r] obtain h s0 N ks where
    "observe note_seq [Out_Frame sample_frame, Out_Event (Ev_Release 0)] [] = Some h"
    "h @ map job_seq (jobs (p_receiver p)) = map (\<lambda>k. s0 + word_of_nat k) ks" "sorted_wrt (<) ks" "\<forall>k \<in> set ks. k < N"
    "N = length h + length (jobs (p_receiver p)) + net_lost_packets (p_receiver p) + queue_full_drops (p_receiver p)"
    by blast
  with o r show ?thesis by (metis option.inject)
qed

text \<open>
  C5: what the hook gets is what came in. In every reachable state, a frame the worker gives to
  the hook is one of the datagrams received: its sequence number, timestamp, source, marker and payload type are those of the
  datagram's header, and its payload, inside its slab, is the datagram without header and padding, byte for byte, however
  the receive thread went on in between.
\<close>

theorem hook_sees_datagrams:
  assumes "run decoder_step as decoder_start = Some (p, out)" and "worker_step U p = Some (p', Out_Frame f # out')"
  shows "\<exists>d \<in> datagrams as. frame_of (slab (p_receiver p)) d f"
proof -
  from run_genuine [OF decoder_start_inv(1) decoder_start_genuine assms(1)]
  have inv: "rx_inv (p_receiver p)" and g: "genuine (datagrams as) (p_receiver p)" by (auto simp: dec_inv_def Let_def)
  from inv assms(2) show ?thesis
  proof (cases rule: worker_step_cases)
    case (job j rx f' fh' ev os)
    note fr = dequeue_job_frame [OF inv job(2)]
    from g job(1) obtain d where d: "d \<in> datagrams as"
      "holds_dgram (slab (p_receiver p)) (job_slab j) (job_len j) (job_seq j) (job_hdr_len j) d"
      by (auto simp: genuine_def)
    with process_job_frame [OF _ job(3), of d] job(9) show ?thesis by (auto simp: fr(4))
  qed simp
qed

theorem hook_sees_datagrams_witness:
  "\<exists>p p' out'. run decoder_step [Recv sample_dgram] decoder_start = Some (p, [])
     \<and> worker_step no_storage p = Some (p', Out_Frame sample_frame # out')
     \<and> (\<exists>d \<in> datagrams [Recv sample_dgram]. frame_of (slab (p_receiver p)) d sample_frame)"
proof -
  let ?p = "decoder_start\<lparr>p_receiver := sample_rx\<rparr>"
  have r: "run decoder_step [Recv sample_dgram] decoder_start = Some (?p, [])"
    using recv_sample_step by (simp del: decoder_step.simps)
  from work_sample obtain p' where w: "worker_step no_storage ?p = Some (p', [Out_Frame sample_frame, Out_Event (Ev_Release 0)])"
    by auto
  from hook_sees_datagrams [OF r w] r w show ?thesis by blast
qed

section \<open>Stopping\<close>

lemma worker_step_jobs:
  assumes "rx_inv (p_receiver p)" "worker_step U p = Some (p', out)"
  shows "jobs (p_receiver p') = tl (jobs (p_receiver p))"
  using assms by (cases rule: worker_step_cases) (auto simp: release_all_state)

lemma queue_empty: "queue_inv rx \<Longrightarrow> job_head rx = job_tail rx \<longleftrightarrow> jobs rx = []"
  using job_fifo.deq_empty [of rx] job_fifo.deq_some [of rx] by (fastforce simp: dequeue_job_def split: if_splits)

text \<open>
  C15: \<open>worker_loop\<close> drains the queue before it ends. With storage for as many rounds as there are
  jobs the loop comes to its end, unless a round itself runs into undefined behaviour; then the queue
  is empty and the slabs still marked busy are just those the frame handler holds for its unfinished frame.
\<close>

theorem drain_empties_queue:
  assumes "dec_inv p" and "length (jobs (p_receiver p)) \<le> length Us"
  shows "case drain Us p of
      Some (p', out) \<Rightarrow> jobs (p_receiver p') = []
        \<and> {i. in_worker (ring (p_receiver p') i)} = set (held_slabs (p_frame_handler p'))
    | None \<Rightarrow> \<exists>k p1 o1. k < length (jobs (p_receiver p))
        \<and> run decoder_step (map Work (take k Us)) p = Some (p1, o1) \<and> worker_step (Us ! k) p1 = None"
  using assms
proof (induction Us arbitrary: p)
  case Nil
  then have "jobs (p_receiver p) = []" "queue_inv (p_receiver p)" by (auto simp: dec_inv_def rx_inv_def Let_def)
  with queue_empty Nil.prems(1) show ?case
    by (auto simp: drain.simps [of "[]"] dec_inv_def owned_def Let_def)
next
  case (Cons U Us)
  have rx: "rx_inv (p_receiver p)" "queue_inv (p_receiver p)" using Cons.prems(1) by (auto simp: dec_inv_def rx_inv_def Let_def)
  show ?case
  proof (cases "jobs (p_receiver p) = []")
    case True
    with queue_empty [OF rx(2)] Cons.prems(1) show ?thesis
      by (auto simp: drain.simps [of "U # Us"] dec_inv_def owned_def Let_def)
  next
    case False
    note ne = this queue_empty [OF rx(2)]
    show ?thesis
    proof (cases "worker_step U p")
      case None
      with ne show ?thesis by (auto simp: drain.simps [of "U # Us"] intro!: exI [of _ 0])
    next
      case (Some r)
      obtain p1 o1 where w: "worker_step U p = Some (p1, o1)" using Some by (cases r) auto
      have inv1: "dec_inv p1" by (rule worker_step_inv [OF Cons.prems(1) w])
      have j1: "jobs (p_receiver p1) = tl (jobs (p_receiver p))" by (rule worker_step_jobs [OF rx(1) w])
      have "length (jobs (p_receiver p1)) \<le> length Us" using j1 Cons.prems(2) by simp
      note IH = Cons.IH [OF inv1 this]
      show ?thesis
      proof (cases "drain Us p1")
        case None
        with IH obtain k p2 o2 where k: "k < length (jobs (p_receiver p1))"
          "run decoder_step (map Work (take k Us)) p1 = Some (p2, o2)" "worker_step (Us ! k) p2 = None" by auto
        have "Suc k < length (jobs (p_receiver p))" using k(1) j1 by simp
        with k w None ne show ?thesis
          by (auto simp: drain.simps [of "U # Us"] intro!: exI [of _ "Suc k"])
      next
        case (Some r)
        with IH w ne show ?thesis by (auto simp: drain.simps [of "U # Us"])
      qed
    qed
  qed
qed

theorem drain_empties_queue_witness:
  "\<exists>p' out. drain [no_storage] (decoder_start\<lparr>p_receiver := sample_rx\<rparr>) = Some (p', out)
     \<and> jobs (p_receiver p') = [] \<and> {i. in_worker (ring (p_receiver p') i)} = set (held_slabs (p_frame_handler p'))"
proof -
  let ?p = "decoder_start\<lparr>p_receiver := sample_rx\<rparr>"
  have j: "jobs sample_rx = [\<lparr>job_slab = 0, job_len = 22, job_seq = 0, job_hdr_len = 12\<rparr>]"
    by (simp add: jobs_def sample_rx_def kJobQueueSize_def kRingSize_def)
  have inv: "dec_inv ?p" by (rule decoder_step_inv [OF decoder_start_inv(1) recv_sample_step])
  from work_sample obtain p' where w: "worker_step no_storage ?p = Some (p', [Out_Frame sample_frame, Out_Event (Ev_Release 0)])"
    by auto
  have rx: "rx_inv (p_receiver ?p)" "rx_inv (p_receiver p')" using inv worker_step_inv [OF inv w] by (auto simp: dec_inv_def Let_def)
  have "jobs (p_receiver p') = []" using worker_step_jobs [OF rx(1) w] j by simp
  then have "drain [] p' = Some (p', [])" using queue_empty rx(2) by (simp add: drain.simps [of "[]"] rx_inv_def)
  then have "drain [no_storage] ?p \<noteq> None"
    using w queue_empty [of sample_rx] rx(1) j by (simp add: drain.simps [of "[no_storage]"] rx_inv_def)
  with drain_empties_queue [OF inv, of "[no_storage]"] j show ?thesis by auto
qed

section \<open>Short payloads\<close>







end
