(* ===== verification/Cpp_Text.thy ===== *)
theory Cpp_Text
  imports Prelude
begin

text \<open>
  The text functions of the C++ standard library that \<open>src/main.cpp\<close> uses, on strings as lists of
  characters in the C locale: character classes, decimal output, \<open>std::stoi\<close> and \<open>std::stoul\<close>,
  extraction of an \<open>int\<close> and of a \<open>char\<close> from a stream, \<open>std::string::find\<close> and \<open>std::getline\<close>.
  A number that was written is read back, whatever follows it.
\<close>

section \<open>Characters\<close>

definition code :: "char \<Rightarrow> nat" where
  "code c = of_char c"

definition isdigit :: "char \<Rightarrow> bool" where
  "isdigit c \<longleftrightarrow> 48 \<le> code c \<and> code c \<le> 57"

definition isalnum :: "char \<Rightarrow> bool" where
  "isalnum c \<longleftrightarrow> isdigit c \<or> (65 \<le> code c \<and> code c \<le> 90) \<or> (97 \<le> code c \<and> code c \<le> 122)"

definition isspace :: "char \<Rightarrow> bool" where
  "isspace c \<longleftrightarrow> code c = 32 \<or> (9 \<le> code c \<and> code c \<le> 13)"

definition digit_char :: "nat \<Rightarrow> char" where
  "digit_char d = char_of (48 + d)"

lemma code_digit_char [simp]: "d < 10 \<Longrightarrow> code (digit_char d) = 48 + d"
  by (simp add: code_def digit_char_def of_char_of)

lemma digit_char_class: "d < 10 \<Longrightarrow> isdigit (digit_char d)"
  by (simp add: isdigit_def)

lemma isdigit_not_space: "isdigit c \<Longrightarrow> \<not> isspace c"
  by (simp add: isdigit_def isspace_def)

section \<open>Decimal output\<close>

fun show_nat :: "nat \<Rightarrow> string" where
  "show_nat n = (if n < 10 then [digit_char n] else show_nat (n div 10) @ [digit_char (n mod 10)])"

declare show_nat.simps [simp del]

definition show_int :: "int \<Rightarrow> string" where
  "show_int i = (if i < 0 then CHR ''-'' # show_nat (nat (- i)) else show_nat (nat i))"

definition digits_val :: "string \<Rightarrow> nat" where
  "digits_val ds = foldl (\<lambda>n c. 10 * n + (code c - 48)) 0 ds"

lemma show_nat_digits: "list_all isdigit (show_nat n)" "show_nat n \<noteq> []" "digits_val (show_nat n) = n"
proof (induction n rule: show_nat.induct)
  case (1 n)
  {
    case 1 then show ?case using "1.IH" by (subst show_nat.simps) (simp add: digit_char_class)
  next
    case 2 then show ?case by (subst show_nat.simps) simp
  next
    case 3 then show ?case using "1.IH" by (subst show_nat.simps) (simp add: digits_val_def)
  }
qed

section \<open>Reading numbers\<close>

definition skip_ws :: "string \<Rightarrow> string" where
  "skip_ws s = dropWhile isspace s"

text \<open>A sign and digits after white space; \<open>None\<close> without a digit.\<close>

definition read_sign :: "string \<Rightarrow> bool \<times> string" where
  "read_sign s = (case s of [] \<Rightarrow> (False, []) | c # cs \<Rightarrow>
     if c = CHR ''-'' then (True, cs) else if c = CHR ''+'' then (False, cs) else (False, s))"

definition read_decimal :: "string \<Rightarrow> (bool \<times> nat \<times> string) option" where
  "read_decimal s =
     (let (neg, s) = read_sign (skip_ws s); ds = takeWhile isdigit s
      in if ds = [] then None else Some (neg, digits_val ds, dropWhile isdigit s))"

definition int_in_range :: "int \<Rightarrow> bool" where
  "int_in_range i \<longleftrightarrow> - (2 ^ 31) \<le> i \<and> i < 2 ^ 31"

datatype cpp_exception = Invalid_Argument | Out_Of_Range

text \<open>\<open>std::stoi\<close> ignores what follows the number.\<close>

definition stoi :: "string \<Rightarrow> cpp_exception + int" where
  "stoi s = (case read_decimal s of None \<Rightarrow> Inl Invalid_Argument
     | Some (neg, n, _) \<Rightarrow> let i = (if neg then - int n else int n) in if int_in_range i then Inr i else Inl Out_Of_Range)"

text \<open>\<open>std::stoul\<close> on a 64-bit \<open>unsigned long\<close>: a minus sign negates in the unsigned type.\<close>

definition stoul :: "string \<Rightarrow> cpp_exception + u64" where
  "stoul s = (case read_decimal s of None \<Rightarrow> Inl Invalid_Argument
     | Some (neg, n, _) \<Rightarrow> if 2 ^ 64 \<le> n then Inl Out_Of_Range
         else Inr (if neg then - word_of_nat n else word_of_nat n))"

text \<open>\<open>stream >> int\<close> and \<open>stream >> char\<close>: \<open>None\<close> when the stream fails.\<close>

definition extract_int :: "string \<Rightarrow> (int \<times> string) option" where
  "extract_int s = do { (neg, n, r) \<leftarrow> read_decimal s;
     let i = (if neg then - int n else int n) in if int_in_range i then Some (i, r) else None }"

definition extract_char :: "string \<Rightarrow> (char \<times> string) option" where
  "extract_char s = (case skip_ws s of [] \<Rightarrow> None | c # cs \<Rightarrow> Some (c, cs))"

text \<open>A number printed, white space before it and anything but a digit behind it, is read back.\<close>

lemma takeWhile_stop: "list_all P xs \<Longrightarrow> (r = [] \<or> \<not> P (hd r)) \<Longrightarrow> takeWhile P (xs @ r) = xs \<and> dropWhile P (xs @ r) = r"
  by (induction xs) (cases r, auto)

lemma skip_ws_stop: "list_all isspace ws \<Longrightarrow> s = [] \<or> \<not> isspace (hd s) \<Longrightarrow> skip_ws (ws @ s) = s"
  unfolding skip_ws_def using takeWhile_stop by blast

lemma digit_not_sign: "isdigit c \<Longrightarrow> c \<noteq> CHR ''-'' \<and> c \<noteq> CHR ''+''"
  by (auto simp: isdigit_def code_def)

lemma minus_not_space: "\<not> isspace CHR ''-''"
  by (simp add: isspace_def code_def)

lemma show_nat_Cons: "\<exists>c cs. show_nat n = c # cs \<and> isdigit c"
  using show_nat_digits(1,2) [of n] by (cases "show_nat n") auto

lemma read_decimal_show:
  assumes "list_all isspace ws" "r = [] \<or> \<not> isdigit (hd r)"
  shows "read_decimal (ws @ show_int i @ r) = Some (i < 0, nat \<bar>i\<bar>, r)"
proof -
  obtain c cs where c: "show_nat (nat \<bar>i\<bar>) = c # cs" "isdigit c" using show_nat_Cons by blast
  have sk: "skip_ws (ws @ show_int i @ r) = show_int i @ r"
    by (rule skip_ws_stop [OF assms(1)]) (use c isdigit_not_space minus_not_space in \<open>auto simp: show_int_def\<close>)
  have "read_sign (show_int i @ r) = (i < 0, show_nat (nat \<bar>i\<bar>) @ r)"
    using c digit_not_sign by (auto simp: show_int_def read_sign_def)
  moreover have "takeWhile isdigit (show_nat (nat \<bar>i\<bar>) @ r) = show_nat (nat \<bar>i\<bar>)
      \<and> dropWhile isdigit (show_nat (nat \<bar>i\<bar>) @ r) = r"
    using takeWhile_stop [OF show_nat_digits(1) assms(2)] .
  ultimately show ?thesis unfolding read_decimal_def sk by (simp add: show_nat_digits)
qed

lemma signed_nat_abs: "(if i < 0 then - int (nat \<bar>i\<bar>) else int (nat \<bar>i\<bar>)) = i"
  by simp

lemma stoi_show: "int_in_range i \<Longrightarrow> stoi (show_int i) = Inr i"
  using read_decimal_show [of "[]" "[]" i] by (simp add: stoi_def Let_def signed_nat_abs)

lemma stoul_show: "0 \<le> i \<Longrightarrow> i < 2 ^ 64 \<Longrightarrow> stoul (show_int i) = Inr (word_of_int i)"
  using read_decimal_show [of "[]" "[]" i] by (simp add: stoul_def nat_less_iff not_le)

lemma extract_int_show:
  "int_in_range i \<Longrightarrow> list_all isspace ws \<Longrightarrow> r = [] \<or> \<not> isdigit (hd r) \<Longrightarrow> extract_int (ws @ show_int i @ r) = Some (i, r)"
  using read_decimal_show [of ws r i] by (simp add: extract_int_def Let_def signed_nat_abs)

section \<open>Strings and files\<close>

definition occurs_at :: "string \<Rightarrow> string \<Rightarrow> nat \<Rightarrow> bool" where
  "occurs_at s sub p \<longleftrightarrow> p + length sub \<le> length s \<and> take (length sub) (drop p s) = sub"

text \<open>\<open>s.find(sub, pos)\<close>; \<open>None\<close> is \<open>npos\<close>.\<close>

definition find_from :: "string \<Rightarrow> string \<Rightarrow> nat \<Rightarrow> nat option" where
  "find_from s sub pos = List.find (occurs_at s sub) [pos..<Suc (length s)]"

lemma find_from_Some:
  "find_from s sub pos = Some p \<Longrightarrow> pos \<le> p \<and> occurs_at s sub p \<and> (\<forall>q. pos \<le> q \<and> q < p \<longrightarrow> \<not> occurs_at s sub q)"
proof -
  assume "find_from s sub pos = Some p"
  then obtain i where i: "i < length [pos..<Suc (length s)]" "occurs_at s sub ([pos..<Suc (length s)] ! i)"
    "p = [pos..<Suc (length s)] ! i" "\<forall>j < i. \<not> occurs_at s sub ([pos..<Suc (length s)] ! j)"
    unfolding find_from_def find_Some_iff by blast
  from i(1) have li: "i < Suc (length s) - pos" by (simp del: upt_Suc)
  then have p: "p = pos + i" using i(3) by (simp del: upt_Suc)
  moreover have "\<not> occurs_at s sub q" if "pos \<le> q" "q < p" for q
    using i(4) [rule_format, of "q - pos"] li p that by (simp del: upt_Suc)
  ultimately show ?thesis using i(2,3) by auto
qed

lemma find_from_None: "find_from s sub pos = None \<Longrightarrow> pos \<le> q \<Longrightarrow> \<not> occurs_at s sub q"
  unfolding find_from_def find_None_iff by (auto simp: occurs_at_def simp del: upt_Suc)

text \<open>The lines \<open>std::getline\<close> returns until it fails: a last line without a line feed counts, an empty rest does not.\<close>

function split_lines :: "string \<Rightarrow> string list" where
  "split_lines s = (if s = [] then []
     else takeWhile (\<lambda>c. code c \<noteq> 10) s # split_lines (drop (Suc (length (takeWhile (\<lambda>c. code c \<noteq> 10) s))) s))"
  by pat_completeness auto
termination by (relation "measure length") auto

declare split_lines.simps [simp del]

end
