(* ===== verification/Nic_Affinity.thy ===== *)
theory Nic_Affinity
  imports Cpp_Text
begin

text \<open>
  The check of \<open>src/main.cpp\<close> that the network card's interrupt does not share a CPU with the
  receive or the worker thread: \<open>find_iface_for_bind\<close>, \<open>line_mentions_iface\<close>, \<open>find_irq_for_iface\<close>,
  \<open>read_smp_affinity\<close> and \<open>check_nic_irq_affinity\<close>.

  The operating system is a parameter: address parsing, the list of interfaces and the contents
  of files.
\<close>

section \<open>The operating system\<close>

text \<open>An entry of \<open>getifaddrs\<close>; \<open>ifa_inet\<close> is its IPv4 address, if it has one.\<close>

record ifaddr =
  ifa_name :: string
  ifa_loopback :: bool
  ifa_inet :: "u32 option"

record os =
  inet_pton :: "string \<Rightarrow> u32 option"
  getifaddrs :: "ifaddr list option"
  files :: "string \<Rightarrow> string option"

section \<open>The interface and its interrupt\<close>

definition iface_matches :: "u32 option \<Rightarrow> ifaddr \<Rightarrow> bool" where
  "iface_matches target it \<longleftrightarrow> (case ifa_inet it of None \<Rightarrow> False
     | Some a \<Rightarrow> \<not> ifa_loopback it \<and> (target = None \<or> target = Some a))"

definition find_iface_for_bind :: "os \<Rightarrow> string \<Rightarrow> string" where
  "find_iface_for_bind env bind_addr =
     (let match_any = (bind_addr = ''0.0.0.0''); target = (if match_any then None else inet_pton env bind_addr)
      in if \<not> match_any \<and> target = None then []
         else case getifaddrs env of None \<Rightarrow> []
              | Some ifs \<Rightarrow> (case List.find (iface_matches target) ifs of None \<Rightarrow> [] | Some it \<Rightarrow> ifa_name it))"

definition start_ok :: "string \<Rightarrow> nat \<Rightarrow> bool" where
  "start_ok line pos \<longleftrightarrow> pos = 0 \<or> \<not> isalnum (line ! (pos - 1))"

definition end_ok :: "string \<Rightarrow> nat \<Rightarrow> bool" where
  "end_ok line e \<longleftrightarrow> e = length line \<or> line ! e = CHR '','' \<or> isspace (line ! e)"

text \<open>The search goes on behind a rejected match; with an empty name it would stay where it is.\<close>

partial_function (option) mentions_from :: "string \<Rightarrow> string \<Rightarrow> nat \<Rightarrow> bool option" where
  "mentions_from line iface pos =
     (case find_from line iface pos of None \<Rightarrow> Some False
      | Some p \<Rightarrow> if start_ok line p \<and> end_ok line (p + length iface) then Some True
                  else mentions_from line iface (p + length iface))"

declare mentions_from.simps [code]

definition line_mentions_iface :: "string \<Rightarrow> string \<Rightarrow> bool option" where
  "line_mentions_iface line iface = mentions_from line iface 0"

definition irq_of_line :: "string \<Rightarrow> int option" where
  "irq_of_line line = do { (irq, r) \<leftarrow> extract_int line; (colon, _) \<leftarrow> extract_char r;
     if colon = CHR '':'' then Some irq else None }"

primrec find_irq_in :: "string \<Rightarrow> string list \<Rightarrow> int option" where
  "find_irq_in iface [] = Some (- 1)"
| "find_irq_in iface (line # lines) =
     do { m \<leftarrow> line_mentions_iface line iface;
          if \<not> m then find_irq_in iface lines
          else case irq_of_line line of Some irq \<Rightarrow> Some irq | None \<Rightarrow> find_irq_in iface lines }"

definition find_irq_for_iface :: "os \<Rightarrow> string \<Rightarrow> int option" where
  "find_irq_for_iface env iface =
     (case files env ''/proc/interrupts'' of None \<Rightarrow> Some (- 1) | Some s \<Rightarrow> find_irq_in iface (split_lines s))"

section \<open>The affinity mask\<close>

definition hex_val :: "char \<Rightarrow> nat option" where
  "hex_val c =
     (if 48 \<le> code c \<and> code c \<le> 57 then Some (code c - 48)
      else if 97 \<le> code c \<and> code c \<le> 102 then Some (code c - 97 + 10)
      else if 65 \<le> code c \<and> code c \<le> 70 then Some (code c - 65 + 10)
      else None)"

primrec hex_mask :: "string \<Rightarrow> u64 \<Rightarrow> u64" where
  "hex_mask [] aff = aff"
| "hex_mask (c # cs) aff = (case hex_val c of None \<Rightarrow> 0 | Some v \<Rightarrow> hex_mask cs (push_bit 4 aff OR word_of_nat v))"

definition low_hex :: "string \<Rightarrow> string" where
  "low_hex s = (let hex = filter (\<lambda>c. c \<noteq> CHR '','') s in if 16 < length hex then drop (length hex - 16) hex else hex)"

definition read_smp_affinity :: "os \<Rightarrow> int \<Rightarrow> u64" where
  "read_smp_affinity env irq =
     (case files env (''/proc/irq/'' @ show_int irq @ ''/smp_affinity'') of None \<Rightarrow> 0
      | Some s \<Rightarrow> (case split_lines s of [] \<Rightarrow> 0 | line # _ \<Rightarrow> hex_mask (low_hex line) 0))"

section \<open>The report\<close>

record nic_report =
  nic_iface :: string
  nic_irq :: int
  nic_cpus :: "nat list"
  recv_conflict :: bool
  worker_conflict :: bool

text \<open>\<open>cpu >= 0 && (mask & (1ULL << cpu))\<close>: undefined for a shift by 64 or more.\<close>

definition cpu_conflict :: "u64 \<Rightarrow> int \<Rightarrow> bool option" where
  "cpu_conflict aff cpu = (if cpu < 0 then Some False else if 64 \<le> cpu then None
     else Some (aff AND push_bit (nat cpu) 1 \<noteq> 0))"

definition check_nic_irq_affinity :: "os \<Rightarrow> string \<Rightarrow> int \<Rightarrow> int \<Rightarrow> nic_report option option" where
  "check_nic_irq_affinity env bind_addr recv_cpu worker_cpu =
     (let iface = find_iface_for_bind env bind_addr
      in if iface = [] then Some None
         else do { irq \<leftarrow> find_irq_for_iface env iface;
                   if irq < 0 then Some None
                   else let aff = read_smp_affinity env irq
                        in if aff = 0 then Some None
                           else do { rc \<leftarrow> cpu_conflict aff recv_cpu;
                                     wc \<leftarrow> cpu_conflict aff worker_cpu;
                                     Some (Some \<lparr>nic_iface = iface, nic_irq = irq,
                                       nic_cpus = filter (\<lambda>c. aff AND push_bit c 1 \<noteq> 0) [0..<64],
                                       recv_conflict = rc, worker_conflict = wc\<rparr>) } })"

text \<open>The line it prints.\<close>

fun join_cpus :: "nat list \<Rightarrow> string" where
  "join_cpus [] = []"
| "join_cpus [c] = show_nat c"
| "join_cpus (c # cs) = show_nat c @ '','' @ join_cpus cs"

definition nic_banner :: "nic_report \<Rightarrow> string" where
  "nic_banner r = ''NIC '' @ nic_iface r @ '': IRQ '' @ show_int (nic_irq r) @ '' on CPU '' @ join_cpus (nic_cpus r)
     @ (if recv_conflict r \<or> worker_conflict r
        then ''  <-- WARNING: shares CPU with ''
           @ (if recv_conflict r \<and> worker_conflict r then ''recv+worker'' else if recv_conflict r then ''recv'' else ''worker'')
           @ ''; pin to a different CPU (see scripts/pin-nic-irq.sh) for high-bitrate stability''
        else [])"

section \<open>Whole names\<close>

definition whole_name :: "string \<Rightarrow> string \<Rightarrow> nat \<Rightarrow> bool" where
  "whole_name line iface p \<longleftrightarrow> occurs_at line iface p \<and> start_ok line p \<and> end_ok line (p + length iface)"

text \<open>
  A name that two overlapping occurrences share only behind a letter or digit: then the second of them
  does not start a word. All alphanumeric names are of this kind, and all names that do not overlap themselves.
\<close>

definition no_overlap :: "string \<Rightarrow> bool" where
  "no_overlap s \<longleftrightarrow> (\<forall>k \<in> {1..<length s}. take (length s - k) s = drop k s \<longrightarrow> isalnum (s ! (k - 1)))"

lemma alnum_no_overlap: "list_all isalnum s \<Longrightarrow> no_overlap s"
  by (auto simp: no_overlap_def list_all_length)

lemma occurs_at_nth: "occurs_at s sub p \<Longrightarrow> i < length sub \<Longrightarrow> s ! (p + i) = sub ! i"
  unfolding occurs_at_def by (metis add_leD1 nth_drop nth_take)

lemma overlap_not_start:
  assumes n: "no_overlap iface" and p: "occurs_at line iface p" and q: "occurs_at line iface q"
    and pq: "p < q" "q < p + length iface"
  shows "\<not> start_ok line q"
proof -
  define k where "k = q - p"
  have k: "q = p + k" "k \<in> {1..<length iface}" using pq by (auto simp: k_def)
  have "iface ! i = iface ! (k + i)" if "i < length iface - k" for i
    using occurs_at_nth [OF q, of i] occurs_at_nth [OF p, of "k + i"] that by (simp add: k(1) add.assoc)
  then have "take (length iface - k) iface = drop k iface" by (intro nth_equalityI) auto
  with n k(2) have "isalnum (iface ! (k - 1))" by (simp add: no_overlap_def)
  moreover have "line ! (q - 1) = iface ! (k - 1)" using occurs_at_nth [OF p, of "k - 1"] k(2) by (simp add: k(1) less_imp_diff_less)
  ultimately show ?thesis using k by (auto simp: start_ok_def)
qed

text \<open>The search returns, is right when it finds something, and finds whatever starts at or after its position.\<close>

lemma mentions_from_correct:
  assumes ne: "iface \<noteq> []"
  shows "\<exists>b. mentions_from line iface pos = Some b \<and> (b \<longrightarrow> (\<exists>p. whole_name line iface p))
    \<and> (no_overlap iface \<and> (\<exists>p \<ge> pos. whole_name line iface p) \<longrightarrow> b)"
proof (induction "Suc (length line) - pos" arbitrary: pos rule: less_induct)
  case less
  show ?case
  proof (cases "find_from line iface pos")
    case None
    then have "\<not> whole_name line iface p" if "pos \<le> p" for p using find_from_None that by (auto simp: whole_name_def)
    moreover have "mentions_from line iface pos = Some False" using None by (simp add: mentions_from.simps)
    ultimately show ?thesis by blast
  next
    case (Some p)
    note f = find_from_Some [OF Some]
    show ?thesis
    proof (cases "start_ok line p \<and> end_ok line (p + length iface)")
      case True
      with Some have "mentions_from line iface pos = Some True" by (simp add: mentions_from.simps)
      moreover have "whole_name line iface p" using True f by (simp add: whole_name_def)
      ultimately show ?thesis by blast
    next
      case False
      let ?pos = "p + length iface"
      have "Suc (length line) - ?pos < Suc (length line) - pos"
        using f ne by (cases iface) (auto simp: occurs_at_def)
      from less [OF this] obtain b where b: "mentions_from line iface ?pos = Some b"
        "b \<longrightarrow> (\<exists>p. whole_name line iface p)" "no_overlap iface \<and> (\<exists>q \<ge> ?pos. whole_name line iface q) \<longrightarrow> b" by blast
      have "b" if n: "no_overlap iface" and q: "pos \<le> q" "whole_name line iface q" for q
      proof (cases "?pos \<le> q")
        case True
        with b(3) n q show ?thesis by blast
      next
        case out: False
        have "\<not> q < p" using f q by (auto simp: whole_name_def)
        moreover have "q \<noteq> p" using q False by (auto simp: whole_name_def)
        ultimately have "p < q" by simp
        with overlap_not_start [OF n, of line p q] f q out show ?thesis by (simp add: whole_name_def)
      qed
      moreover have "mentions_from line iface pos = Some b"
        using Some False b(1) by (subst mentions_from.simps) auto
      ultimately show ?thesis using b(2) by blast
    qed
  qed
qed

lemma line_mentions_defined: "iface \<noteq> [] \<Longrightarrow> \<exists>b. line_mentions_iface line iface = Some b"
  using mentions_from_correct [of iface line 0] by (auto simp: line_mentions_iface_def)

lemma find_irq_defined: "iface \<noteq> [] \<Longrightarrow> \<exists>irq. find_irq_for_iface env iface = Some irq"
proof -
  assume ne: "iface \<noteq> []"
  have "\<exists>irq. find_irq_in iface lines = Some irq" for lines
  proof (induction lines)
    case (Cons line lines)
    obtain b where "line_mentions_iface line iface = Some b" using line_mentions_defined [OF ne] by blast
    with Cons show ?case by (cases b) (auto split: option.splits)
  qed simp
  then show ?thesis by (simp add: find_irq_for_iface_def split: option.splits)
qed

text \<open>
  \<open>line_mentions_iface\<close> returns for every line and every non-empty name; it says yes only if the name stands in the line as a
  whole word, and, for a name whose overlapping occurrences do not begin words (all alphanumeric names), whenever it does.
\<close>

theorem line_mentions_iface_correct:
  assumes "iface \<noteq> []"
  shows "\<exists>b. line_mentions_iface line iface = Some b \<and> (b \<longrightarrow> (\<exists>p. whole_name line iface p))
    \<and> (no_overlap iface \<longrightarrow> b = (\<exists>p. whole_name line iface p))"
  using mentions_from_correct [OF assms, of line 0] by (auto simp: line_mentions_iface_def)

theorem line_mentions_iface_correct_witness:
  "line_mentions_iface '' 24: 7 GIC eth0x, eth0'' ''eth0'' = Some (\<exists>p. whole_name '' 24: 7 GIC eth0x, eth0'' ''eth0'' p)
     \<and> line_mentions_iface '' 24: 7 GIC eth0x, eth0'' ''eth0'' = Some True"
proof -
  have "no_overlap ''eth0''" by (rule alnum_no_overlap) code_simp
  moreover have "line_mentions_iface '' 24: 7 GIC eth0x, eth0'' ''eth0'' = Some True" by code_simp
  ultimately show ?thesis using line_mentions_iface_correct [of "''eth0''" "'' 24: 7 GIC eth0x, eth0''"] by auto
qed

text \<open>A name that overlaps itself can be missed: the second occurrence is a whole word.\<close>

lemma overlapping_name_missed:
  "line_mentions_iface ''24: a-a-a'' ''a-a'' = Some False" "whole_name ''24: a-a-a'' ''a-a'' 6"
  by code_simp+

section \<open>The mask that the kernel prints\<close>

text \<open>Eight lower-case hexadecimal digits for every 32 bits, high to low, with commas between them.\<close>

definition hex_char :: "nat \<Rightarrow> char" where
  "hex_char d = (if d < 10 then char_of (48 + d) else char_of (87 + d))"

primrec hex_digits :: "nat \<Rightarrow> nat \<Rightarrow> string" where
  "hex_digits 0 n = []"
| "hex_digits (Suc k) n = hex_digits k (n div 16) @ [hex_char (n mod 16)]"

fun affinity_text :: "u32 list \<Rightarrow> string" where
  "affinity_text [] = []"
| "affinity_text [w] = hex_digits 8 (unat w)"
| "affinity_text (w # ws) = hex_digits 8 (unat w) @ '','' @ affinity_text ws"

definition affinity_value :: "u32 list \<Rightarrow> nat" where
  "affinity_value ws = foldl (\<lambda>n w. n * 2 ^ 32 + unat w) 0 ws"

definition hex_fold :: "nat \<Rightarrow> string \<Rightarrow> nat" where
  "hex_fold n ds = foldl (\<lambda>n c. 16 * n + the (hex_val c)) n ds"

lemma hex_char_val: "d < 16 \<Longrightarrow> hex_val (hex_char d) = Some d"
  by (auto simp: hex_char_def hex_val_def code_def of_char_of)

lemma hex_char_other: "d < 16 \<Longrightarrow> hex_char d \<noteq> CHR '','' \<and> code (hex_char d) \<noteq> 10"
  using hex_char_val [of d] by (auto simp: hex_val_def code_def)

lemma hex_digits_chars: "\<forall>c \<in> set (hex_digits k n). hex_val c \<noteq> None \<and> c \<noteq> CHR '','' \<and> code c \<noteq> 10"
  by (induction k arbitrary: n) (auto simp: hex_char_val hex_char_other)

lemma length_hex_digits [simp]: "length (hex_digits k n) = k"
  by (induction k arbitrary: n) auto

lemma hex_fold_append: "hex_fold n (xs @ ys) = hex_fold (hex_fold n xs) ys"
  by (simp add: hex_fold_def)

lemma hex_fold_digits: "hex_fold m (hex_digits k n) = m * 16 ^ k + n mod 16 ^ k"
proof (induction k arbitrary: n)
  case (Suc k)
  have "hex_fold m (hex_digits (Suc k) n) = 16 * (m * 16 ^ k + n div 16 mod 16 ^ k) + n mod 16"
    using Suc [of "n div 16"] by (simp add: hex_fold_append) (simp add: hex_fold_def hex_char_val)
  then show ?case by (simp add: mod_mult2_eq algebra_simps)
qed (simp add: hex_fold_def)

lemma hex_fold_start: "hex_fold n ds = n * 16 ^ length ds + hex_fold 0 ds"
proof (induction ds arbitrary: n)
  case (Cons c ds)
  have "hex_fold n (c # ds) = hex_fold (16 * n + the (hex_val c)) ds" for n by (simp add: hex_fold_def)
  with Cons [of "16 * n + the (hex_val c)"] Cons [of "the (hex_val c)"] show ?case by (simp add: algebra_simps)
qed (simp add: hex_fold_def)

lemma shift_or_hex: "v < 16 \<Longrightarrow> push_bit 4 (word_of_nat n) OR word_of_nat v = (word_of_nat (16 * n + v) :: u64)"
proof -
  assume v: "v < 16"
  have "push_bit 4 (word_of_nat n :: u64) AND word_of_nat v = 0"
  proof (rule bit_word_eqI)
    fix i
    have "\<not> bit v i" if "4 \<le> i"
    proof -
      have "v < 2 ^ i" using v power_increasing [OF that, of "2 :: nat"] by simp
      then show ?thesis by (simp add: bit_iff_odd)
    qed
    then show "bit (push_bit 4 (word_of_nat n :: u64) AND word_of_nat v) i = bit (0 :: u64) i"
      by (auto simp: bit_simps)
  qed
  from disjunctive_add_eq_or [OF this] show ?thesis by (simp add: push_bit_eq_mult mult.commute)
qed

lemma hex_mask_fold:
  "\<forall>c \<in> set cs. hex_val c \<noteq> None \<Longrightarrow> hex_mask cs (word_of_nat n) = word_of_nat (hex_fold n cs)"
proof (induction cs arbitrary: n)
  case (Cons c cs)
  then obtain v where v: "hex_val c = Some v" by auto
  then have "v < 16" by (auto simp: hex_val_def split: if_splits)
  with Cons.IH [of "16 * n + v"] Cons.prems v show ?case
    by (simp only: hex_mask.simps option.case shift_or_hex) (simp add: hex_fold_def)
qed (simp add: hex_fold_def)

lemma word_of_low_digits:
  assumes "16 < length hex"
  shows "(word_of_nat (hex_fold 0 (drop (length hex - 16) hex)) :: u64) = word_of_nat (hex_fold 0 hex)"
proof -
  let ?n = "hex_fold 0 (take (length hex - 16) hex)"
  have l: "length (drop (length hex - 16) hex) = 16" using assms by simp
  have "hex_fold 0 hex = hex_fold ?n (drop (length hex - 16) hex)"
    by (metis append_take_drop_id hex_fold_append)
  also have "\<dots> = ?n * 2 ^ 64 + hex_fold 0 (drop (length hex - 16) hex)"
    unfolding hex_fold_start [of ?n] l by simp
  finally have e: "hex_fold 0 hex = ?n * 2 ^ 64 + hex_fold 0 (drop (length hex - 16) hex)" .
  have "(word_of_nat (2 ^ 64) :: u64) = 0" by simp
  then have "(word_of_nat (?n * 2 ^ 64) :: u64) = 0" by (simp only: of_nat_mult mult_zero_right)
  then show ?thesis unfolding e by (simp only: of_nat_add add_0_left)
qed

lemma affinity_text_hex:
  "filter (\<lambda>c. c \<noteq> CHR '','') (affinity_text ws) = concat (map (\<lambda>w. hex_digits 8 (unat w)) ws)"
proof -
  have f: "filter (\<lambda>c. c \<noteq> CHR '','') (hex_digits k n) = hex_digits k n" for k n
    using hex_digits_chars by (simp add: filter_id_conv)
  show ?thesis by (induction ws rule: affinity_text.induct) (simp_all add: f del: hex_digits.simps)
qed

lemma hex_fold_chunks:
  fixes ws :: "u32 list"
  shows "hex_fold n (concat (map (\<lambda>w. hex_digits 8 (unat w)) ws)) = foldl (\<lambda>n w. n * 2 ^ 32 + unat w) n ws"
proof (induction ws arbitrary: n)
  case (Cons w ws)
  have "unat w < 16 ^ 8" using unsigned_less [of w] by simp
  with Cons show ?case by (simp add: hex_fold_append hex_fold_digits del: hex_digits.simps)
qed (simp add: hex_fold_def)

lemma affinity_text_chars: "\<forall>c \<in> set (affinity_text ws). code c \<noteq> 10"
  by (induction ws rule: affinity_text.induct) (use hex_digits_chars in \<open>auto simp: code_def simp del: hex_digits.simps\<close>)

lemma affinity_text_mask: "hex_mask (low_hex (affinity_text ws)) 0 = word_of_nat (affinity_value ws)"
proof -
  let ?hex = "concat (map (\<lambda>w. hex_digits 8 (unat w)) ws)"
  have h: "\<forall>c \<in> set ?hex. hex_val c \<noteq> None" using hex_digits_chars by fastforce
  have "hex_mask (if 16 < length ?hex then drop (length ?hex - 16) ?hex else ?hex) (word_of_nat 0)
      = word_of_nat (hex_fold 0 (if 16 < length ?hex then drop (length ?hex - 16) ?hex else ?hex))"
    by (rule hex_mask_fold) (use h set_drop_subset [of "length ?hex - 16" ?hex] in \<open>auto simp del: set_concat set_map\<close>)
  also have "\<dots> = word_of_nat (hex_fold 0 ?hex)"
    using word_of_low_digits [of ?hex] by (simp split: if_splits)
  finally show ?thesis by (simp add: low_hex_def affinity_text_hex Let_def affinity_value_def hex_fold_chunks)
qed

lemma first_line: "\<forall>c \<in> set s. code c \<noteq> 10 \<Longrightarrow> s \<noteq> [] \<Longrightarrow> split_lines (s @ [CHR 0x0A]) = [s]"
proof -
  assume s: "\<forall>c \<in> set s. code c \<noteq> 10" "s \<noteq> []"
  have "takeWhile (\<lambda>c. code c \<noteq> 10) (s @ [CHR 0x0A]) = s"
    using s(1) by (simp add: takeWhile_append2 code_def)
  with s(2) show ?thesis by (simp add: split_lines.simps)
qed

text \<open>
  C36: an affinity mask that the kernel printed is read back: for any number of 32-bit words, \<open>read_smp_affinity\<close>
  returns the low 64 bits of the mask.
\<close>

theorem smp_affinity_roundtrip:
  assumes "ws \<noteq> []"
    and "files env (''/proc/irq/'' @ show_int irq @ ''/smp_affinity'') = Some (affinity_text ws @ [CHR 0x0A])"
  shows "read_smp_affinity env irq = word_of_nat (affinity_value ws)"
proof -
  have "affinity_text ws \<noteq> []"
    using assms(1) by (cases ws rule: affinity_text.cases) (auto dest: arg_cong [of _ _ length] simp del: hex_digits.simps)
  then show ?thesis
    using first_line [OF affinity_text_chars, of ws] assms(2)
    by (simp add: read_smp_affinity_def affinity_text_mask)
qed

text \<open>A machine with 96 CPUs whose interrupt 24 may go to CPUs 1 and 32.\<close>

definition sample_os :: os where
  "sample_os = \<lparr>inet_pton = (\<lambda>_. None), getifaddrs = Some [\<lparr>ifa_name = ''lo'', ifa_loopback = True, ifa_inet = Some 0x7F000001\<rparr>,
       \<lparr>ifa_name = ''eth0'', ifa_loopback = False, ifa_inet = Some 0x0A000001\<rparr>],
     files = (\<lambda>f. if f = ''/proc/interrupts'' then Some ('' 23: 5 lo'' @ [CHR 0x0A] @ '' 24: 7 eth0'')
       else if f = ''/proc/irq/24/smp_affinity'' then Some (affinity_text [0, 1, 2] @ [CHR 0x0A]) else None)\<rparr>"

theorem smp_affinity_roundtrip_witness:
  "read_smp_affinity sample_os 24 = 0x100000002"
proof -
  have "files sample_os (''/proc/irq/'' @ show_int 24 @ ''/smp_affinity'') = Some (affinity_text [0, 1, 2] @ [CHR 0x0A])"
    by (simp add: sample_os_def) code_simp
  with smp_affinity_roundtrip [of "[0, 1, 2]" sample_os 24] show ?thesis by (simp add: affinity_value_def)
qed

section \<open>Conflicts\<close>

lemma sample_irq: "find_iface_for_bind sample_os ''0.0.0.0'' = ''eth0''" "find_irq_for_iface sample_os ''eth0'' = Some 24"
  by code_simp+

lemma sample_affinity: "read_smp_affinity sample_os 24 = 0x100000002"
  by code_simp

lemma and_bit_iff: "(w :: u64) AND push_bit n 1 \<noteq> 0 \<longleftrightarrow> bit w n"
  by (simp add: bit_iff_and_push_bit_not_eq_0)

lemma cpu_conflict_eq: "cpu < 64 \<Longrightarrow> cpu_conflict w cpu = Some (0 \<le> cpu \<and> bit w (nat cpu))"
  unfolding cpu_conflict_def and_bit_iff by simp

lemma sample_check:
  assumes "recv_cpu < 64" "worker_cpu < 64"
  shows "\<exists>r. check_nic_irq_affinity sample_os ''0.0.0.0'' recv_cpu worker_cpu = Some (Some r) \<and> nic_iface r = ''eth0'' \<and> nic_irq r = 24"
  by (simp add: check_nic_irq_affinity_def sample_irq sample_affinity cpu_conflict_eq assms)

text \<open>
  C37: for CPU numbers below 64 the check always returns. When it reports, it names the interface of the bind address, lists
  exactly the CPUs whose bit is set in the interrupt's mask, in increasing order and at least one, and flags a thread
  exactly when that thread is pinned to a listed CPU.
\<close>

theorem nic_conflicts_reported:
  assumes "recv_cpu < 64" "worker_cpu < 64"
  shows "\<exists>res. check_nic_irq_affinity env addr recv_cpu worker_cpu = Some res \<and> (\<forall>r. res = Some r \<longrightarrow>
     nic_iface r = find_iface_for_bind env addr \<and> 0 \<le> nic_irq r
     \<and> sorted_wrt (<) (nic_cpus r) \<and> nic_cpus r \<noteq> []
     \<and> (\<forall>c. c \<in> set (nic_cpus r) \<longleftrightarrow> bit (read_smp_affinity env (nic_irq r)) c)
     \<and> recv_conflict r = (0 \<le> recv_cpu \<and> nat recv_cpu \<in> set (nic_cpus r))
     \<and> worker_conflict r = (0 \<le> worker_cpu \<and> nat worker_cpu \<in> set (nic_cpus r)))"
proof (cases "find_iface_for_bind env addr = []")
  case True
  then show ?thesis by (simp add: check_nic_irq_affinity_def)
next
  case False
  obtain irq where irq: "find_irq_for_iface env (find_iface_for_bind env addr) = Some irq"
    using find_irq_defined [OF False] by blast
  let ?w = "read_smp_affinity env irq"
  define cpus where "cpus = filter (\<lambda>c. ?w AND push_bit c 1 \<noteq> 0) [0..<64]"
  have bits: "c \<in> set cpus \<longleftrightarrow> bit ?w c" for c
    unfolding cpus_def and_bit_iff using bit_imp_le_length [of ?w c] by auto
  have ne: "?w \<noteq> 0 \<Longrightarrow> cpus \<noteq> []"
    using bit_eq_iff [of ?w 0] bits by auto
  have "sorted_wrt (<) cpus"
    unfolding cpus_def by (simp add: sorted_wrt_filter strict_sorted_iff)
  moreover have "check_nic_irq_affinity env addr recv_cpu worker_cpu =
      (if irq < 0 \<or> ?w = 0 then Some None
       else Some (Some \<lparr>nic_iface = find_iface_for_bind env addr, nic_irq = irq, nic_cpus = cpus,
         recv_conflict = (0 \<le> recv_cpu \<and> bit ?w (nat recv_cpu)), worker_conflict = (0 \<le> worker_cpu \<and> bit ?w (nat worker_cpu))\<rparr>))"
    unfolding check_nic_irq_affinity_def Let_def irq bind.bind_lunit cpus_def [symmetric] cpu_conflict_eq [OF assms(1)] cpu_conflict_eq [OF assms(2)]
    using False by simp
  ultimately show ?thesis using bits ne by (cases "irq < 0 \<or> ?w = 0") auto
qed

theorem nic_conflicts_reported_witness:
  "\<exists>r. check_nic_irq_affinity sample_os ''0.0.0.0'' 32 3 = Some (Some r) \<and> nic_iface r = ''eth0'' \<and> nic_irq r = 24
     \<and> 32 \<in> set (nic_cpus r) \<and> recv_conflict r \<and> \<not> worker_conflict r"
proof -
  from nic_conflicts_reported [of 32 3 sample_os "''0.0.0.0''"] sample_check [of 32 3]
  show ?thesis by (auto simp: sample_affinity)
qed

text \<open>A CPU number of 64 or more is an undefined shift once the mask is read.\<close>

lemma wide_cpu_undefined:
  "check_nic_irq_affinity sample_os ''0.0.0.0'' 64 3 = None"
  by (simp add: check_nic_irq_affinity_def sample_irq sample_affinity cpu_conflict_def)

end
