(* ===== verification/Receiver_Control.thy ===== *)
theory Receiver_Control
  imports Rtp_Order
begin

text \<open>
  Starting and stopping the receiver: the constructor, \<open>start\<close>, \<open>stop\<close> and the setters of
  \<open>class Receiver\<close> (\<open>src/rtp_receiver.hpp\<close>, \<open>src/rtp_receiver.cpp\<close>). System calls, thread
  starts and joins are events; what the system answers is a parameter of \<open>start\<close>. The thread
  bodies are \<open>recv_loop\<close> of \<open>Rtp_Receiver\<close> and \<open>worker_step\<close> of \<open>Decoder\<close>.
  \<open>stop\<close> and the receive thread share \<open>running_\<close> and \<open>sock_fd_\<close>, so both are also modelled
  statement by statement and interleaved (\<open>thread_step\<close>).

  Shown: \<open>start\<close> and \<open>stop\<close> open and close the socket and start and join the threads in order, and
  \<open>stop\<close> leaves none; the receive thread reads from the open socket, except for one call at most that may
  fall between the close and the join; a successful start begins with an empty ring and queue
  whatever happened before.
\<close>

section \<open>State and system calls\<close>

record server =
  srv_rx :: receiver
  sock_fd :: int
  running :: bool
  recv_thread :: bool
  worker_thread :: bool
  rcvbuf_size :: int
  recv_cpu :: int
  worker_cpu :: int

text \<open>What the system answers to the calls of one \<open>start\<close>.\<close>

record start_answers =
  ans_socket :: int
  ans_force_ok :: bool
  ans_pton :: "string \<Rightarrow> u32 option"
  ans_bind_ok :: bool

datatype syscall = Sys_Socket int | Sys_Reuse int | Sys_Rcvbuf_Force int int | Sys_Rcvbuf int int
  | Sys_Bind int u32 u16 | Sys_Shutdown int | Sys_Close int
  | Spawn_Worker | Spawn_Recv | Pin_Recv int | Pin_Worker int | Join_Recv | Notify_All | Join_Worker

definition server_new :: server where
  "server_new = \<lparr>srv_rx = receiver_start 64, sock_fd = - 1, running = False, recv_thread = False, worker_thread = False,
     rcvbuf_size = 16 * 1024 * 1024, recv_cpu = - 1, worker_cpu = - 1\<rparr>"

definition set_jitter_depth :: "nat \<Rightarrow> server \<Rightarrow> server" where
  "set_jitter_depth depth s = s\<lparr>srv_rx := (srv_rx s)\<lparr>jitter_depth := depth\<rparr>\<rparr>"

definition set_recv_buf_size :: "int \<Rightarrow> server \<Rightarrow> server" where
  "set_recv_buf_size bytes s = s\<lparr>rcvbuf_size := bytes\<rparr>"

definition set_recv_cpu :: "int \<Rightarrow> server \<Rightarrow> server" where
  "set_recv_cpu cpu s = s\<lparr>recv_cpu := cpu\<rparr>"

definition set_worker_cpu :: "int \<Rightarrow> server \<Rightarrow> server" where
  "set_worker_cpu cpu s = s\<lparr>worker_cpu := cpu\<rparr>"

section \<open>start\<close>

text \<open>The socket options, and the address to bind to.\<close>

definition socket_options :: "start_answers \<Rightarrow> int \<Rightarrow> server \<Rightarrow> syscall list" where
  "socket_options a fd s = Sys_Reuse fd #
     (if 0 < rcvbuf_size s
      then Sys_Rcvbuf_Force fd (rcvbuf_size s) # (if ans_force_ok a then [] else [Sys_Rcvbuf fd (rcvbuf_size s)]) else [])"

definition bind_address :: "start_answers \<Rightarrow> string \<Rightarrow> u32 option" where
  "bind_address a local_addr =
     (if local_addr = [] \<or> local_addr = ''0.0.0.0'' \<or> local_addr = ''*'' then Some 0 else ans_pton a local_addr)"

text \<open>What \<open>start\<close> resets. Sequence numbers and header lengths of the slots, the slab bytes and the job array keep their contents.\<close>

definition start_reset :: "receiver \<Rightarrow> receiver" where
  "start_reset rx = rx\<lparr>started := False, next_seq := 0, pending := 0,
     ring := (\<lambda>i. if i < kRingSize then (ring rx i)\<lparr>filled := False, slot_len := 0, in_worker := False\<rparr> else ring rx i),
     job_head := 0, job_tail := 0, net_lost_packets := 0, slot_busy_drops := 0, queue_full_drops := 0\<rparr>"

definition pin_calls :: "server \<Rightarrow> syscall list" where
  "pin_calls s = (if recv_cpu s < 0 then [] else [Pin_Recv (recv_cpu s)])
     @ (if worker_cpu s < 0 then [] else [Pin_Worker (worker_cpu s)])"

definition start :: "start_answers \<Rightarrow> string \<Rightarrow> u16 \<Rightarrow> server \<Rightarrow> bool \<times> server \<times> syscall list" where
  "start a local_addr local_port s =
     (if running s then (False, s, [])
      else let fd = ans_socket a; s = s\<lparr>sock_fd := fd\<rparr>
           in if fd < 0 then (False, s, [Sys_Socket fd])
              else let ev = Sys_Socket fd # socket_options a fd s
                   in case bind_address a local_addr of
                        None \<Rightarrow> (False, s\<lparr>sock_fd := - 1\<rparr>, ev @ [Sys_Close fd])
                      | Some ip \<Rightarrow>
                          if \<not> ans_bind_ok a then (False, s\<lparr>sock_fd := - 1\<rparr>, ev @ [Sys_Bind fd ip local_port, Sys_Close fd])
                          else (True, s\<lparr>srv_rx := start_reset (srv_rx s), running := True, worker_thread := True, recv_thread := True\<rparr>,
                                ev @ [Sys_Bind fd ip local_port, Spawn_Worker, Spawn_Recv] @ pin_calls s))"

section \<open>stop\<close>

definition stop :: "server \<Rightarrow> server \<times> syscall list" where
  "stop s =
     (s\<lparr>running := False, sock_fd := (if 0 \<le> sock_fd s then - 1 else sock_fd s),
        recv_thread := recv_thread s \<and> \<not> running s, worker_thread := worker_thread s \<and> \<not> running s\<rparr>,
      (if 0 \<le> sock_fd s then [Sys_Shutdown (sock_fd s), Sys_Close (sock_fd s)] else [])
      @ (if running s then (if recv_thread s then [Join_Recv] else []) @ [Notify_All] @ (if worker_thread s then [Join_Worker] else []) else []))"

section \<open>Life cycle\<close>

text \<open>
  The order of the calls that \<open>start\<close> and \<open>stop\<close> make: the open socket, if any, and whether the receive and the
  worker thread exist. A socket is created only while none is open, configured, bound and shut down only while open and
  closed once; threads are started once and joined once, the worker after the receive thread.
\<close>

fun lifecycle :: "int option \<times> bool \<times> bool \<Rightarrow> syscall \<Rightarrow> (int option \<times> bool \<times> bool) option" where
  "lifecycle (fd, r, w) (Sys_Socket n) = (if fd = None then Some (if 0 \<le> n then Some n else None, r, w) else None)"
| "lifecycle (fd, r, w) (Sys_Close n) = (if fd = Some n then Some (None, r, w) else None)"
| "lifecycle (fd, r, w) (Sys_Reuse n) = (if fd = Some n then Some (fd, r, w) else None)"
| "lifecycle (fd, r, w) (Sys_Rcvbuf_Force n b) = (if fd = Some n then Some (fd, r, w) else None)"
| "lifecycle (fd, r, w) (Sys_Rcvbuf n b) = (if fd = Some n then Some (fd, r, w) else None)"
| "lifecycle (fd, r, w) (Sys_Bind n ip p) = (if fd = Some n then Some (fd, r, w) else None)"
| "lifecycle (fd, r, w) (Sys_Shutdown n) = (if fd = Some n then Some (fd, r, w) else None)"
| "lifecycle (fd, r, w) Spawn_Worker = (if fd \<noteq> None \<and> \<not> w then Some (fd, r, True) else None)"
| "lifecycle (fd, r, w) Spawn_Recv = (if fd \<noteq> None \<and> \<not> r then Some (fd, True, w) else None)"
| "lifecycle (fd, r, w) (Pin_Recv c) = (if r then Some (fd, r, w) else None)"
| "lifecycle (fd, r, w) (Pin_Worker c) = (if w then Some (fd, r, w) else None)"
| "lifecycle (fd, r, w) Join_Recv = (if r then Some (fd, False, w) else None)"
| "lifecycle (fd, r, w) Notify_All = (if r then None else Some (fd, r, w))"
| "lifecycle (fd, r, w) Join_Worker = (if w \<and> \<not> r then Some (fd, r, False) else None)"

definition server_inv :: "int option \<times> bool \<times> bool \<Rightarrow> server \<Rightarrow> bool" where
  "server_inv k s \<longleftrightarrow> k = (if 0 \<le> sock_fd s then Some (sock_fd s) else None, recv_thread s, worker_thread s)
     \<and> recv_thread s = running s \<and> worker_thread s = running s \<and> (running s \<longleftrightarrow> 0 \<le> sock_fd s)"

lemma observe_options:
  "observe lifecycle (socket_options a fd s) (Some fd, r, w) = Some (Some fd, r, w)"
  by (simp add: socket_options_def)

lemma observe_pins: "observe lifecycle (pin_calls s) (fd, True, True) = Some (fd, True, True)"
  by (simp add: pin_calls_def)

lemma start_lifecycle:
  assumes "server_inv k s" "start a addr port s = (ok, s', ev)"
  shows "\<exists>k'. observe lifecycle ev k = Some k' \<and> server_inv k' s'"
proof (cases "running s \<or> ans_socket a < 0")
  case True
  with assms show ?thesis by (auto simp: start_def server_inv_def Let_def split: if_splits)
next
  case False
  with assms(1) have k: "k = (None, False, False)" by (auto simp: server_inv_def)
  from False assms show ?thesis
    by (auto simp: k start_def Let_def server_inv_def observe_options observe_pins split: option.splits if_splits)
qed

lemma stop_lifecycle:
  "server_inv k s \<Longrightarrow> observe lifecycle (snd (stop s)) k = Some (None, False, False) \<and> server_inv (None, False, False) (fst (stop s))"
  by (auto simp: server_inv_def stop_def)

lemma server_new_inv: "server_inv (None, False, False) server_new"
  by (simp add: server_inv_def server_new_def)

definition sample_answers :: start_answers where
  "sample_answers = \<lparr>ans_socket = 5, ans_force_ok = False, ans_pton = (\<lambda>_. None), ans_bind_ok = True\<rparr>"

section \<open>A clean start\<close>

lemma start_reset_jobs: "jobs (start_reset rx) = []" "queue_inv (start_reset rx)"
  by (simp_all add: jobs_def queue_inv_def start_reset_def)

lemma start_reset_inv:
  assumes "0 < jitter_depth rx" "jitter_depth rx \<le> kRingSize" "\<forall>i \<ge> kRingSize. \<not> filled (ring rx i)"
  shows "rx_inv (start_reset rx)"
proof -
  have f: "\<not> filled (ring (start_reset rx) i)" for i using assms(3) by (simp add: start_reset_def)
  have "jitter_depth (start_reset rx) = jitter_depth rx" "pending (start_reset rx) = 0" by (simp_all add: start_reset_def)
  with f assms(1,2) start_reset_jobs [of rx] show ?thesis by (simp add: rx_inv_def)
qed

lemma start_cases:
  "start a addr port s = (ok, s', ev) \<Longrightarrow>
     if ok then \<not> running s \<and> running s' \<and> srv_rx s' = start_reset (srv_rx s) else srv_rx s' = srv_rx s"
  by (auto simp: start_def Let_def split: if_splits option.splits)

text \<open>
  C25: a successful \<open>start\<close> begins clean: whatever state an earlier run left behind, the invariant of the receive path holds, the
  queue is empty, no slab is filled or busy, the next packet sets the sequence number and all drop counters are zero. A failed one changes nothing of the receive path.
\<close>

theorem start_begins_clean:
  assumes "start a addr port s = (ok, s', ev)"
    and "0 < jitter_depth (srv_rx s)" "jitter_depth (srv_rx s) \<le> kRingSize" "\<forall>i \<ge> kRingSize. \<not> filled (ring (srv_rx s) i)"
  shows "if ok then rx_inv (srv_rx s') \<and> jobs (srv_rx s') = [] \<and> \<not> started (srv_rx s') \<and> total_drops (srv_rx s') = 0
      \<and> (\<forall>i < kRingSize. \<not> filled (ring (srv_rx s') i) \<and> \<not> in_worker (ring (srv_rx s') i))
    else srv_rx s' = srv_rx s"
  using start_cases [OF assms(1)] start_reset_inv [OF assms(2-4)] start_reset_jobs [of "srv_rx s"]
  by (cases ok) (simp_all, simp_all add: start_reset_def total_drops_def)

text \<open>A second start, after a packet was left in the queue.\<close>

definition used_server :: server where
  "used_server = server_new\<lparr>srv_rx := (receiver_start 64)\<lparr>started := True, next_seq := 7, pending := 1,
     ring := (\<lambda>i. if i = 3 then slot_empty\<lparr>filled := True, in_worker := True\<rparr> else slot_empty), job_tail := 1\<rparr>\<rparr>"

theorem start_begins_clean_witness:
  "\<exists>s' ev. start sample_answers ''*'' 5004 used_server = (True, s', ev) \<and> Spawn_Recv \<in> set ev
     \<and> jobs (srv_rx used_server) \<noteq> [] \<and> rx_inv (srv_rx s') \<and> jobs (srv_rx s') = [] \<and> \<not> in_worker (ring (srv_rx s') 3)"
proof -
  obtain s' ev where st: "start sample_answers ''*'' 5004 used_server = (True, s', ev)" "Spawn_Recv \<in> set ev"
    by (simp add: start_def used_server_def server_new_def sample_answers_def bind_address_def Let_def)
  have j: "jobs (srv_rx used_server) \<noteq> []"
    by (simp add: jobs_def used_server_def receiver_start_def kJobQueueSize_def kRingSize_def)
  have "3 < kRingSize" by (simp add: kRingSize_def)
  with start_begins_clean [OF st(1)] st j show ?thesis
    by (auto simp: used_server_def receiver_start_def slot_empty_def kRingSize_def)
qed

section \<open>stop against the receive thread\<close>

text \<open>
  \<open>stop\<close> runs on the thread of the caller while \<open>recv_loop\<close> runs on its own. Both are cut at their accesses
  to \<open>running_\<close> and \<open>sock_fd_\<close> and at their system calls: the constructors name the statement that comes next.
  The accesses are taken as atomic; \<open>sock_fd_\<close> is a plain \<open>int\<close>, for which the language does not promise that.
\<close>

datatype stop_pc = Stop_Outside | Stop_Shutdown bool | Stop_Close bool | Stop_Clear bool | Stop_Join_Recv bool
  | Stop_Notify | Stop_Join_Worker

datatype recv_pc = Recv_Off | Recv_Test | Recv_Load | Recv_Enter int | Recv_Wait | Recv_End

record threads =
  t_srv :: server
  t_stop :: stop_pc
  t_recv :: recv_pc

datatype thread_event = Control syscall | Recv_Call int

text \<open>
  The next statement of \<open>stop\<close>. \<open>thread_.join()\<close> is enabled only once the receive thread has
  ended; that the worker ends once the queue is empty is part of \<open>Decoder\<close> (\<open>drain\<close>).
\<close>

fun stop_step :: "threads \<Rightarrow> (threads \<times> thread_event list) option" where
  "stop_step t =
     (let s = t_srv t in
      case t_stop t of
        Stop_Outside \<Rightarrow> Some (t\<lparr>t_srv := s\<lparr>running := False\<rparr>, t_stop := Stop_Shutdown (running s)\<rparr>, [])
      | Stop_Shutdown was \<Rightarrow>
          if 0 \<le> sock_fd s then Some (t\<lparr>t_stop := Stop_Close was\<rparr>, [Control (Sys_Shutdown (sock_fd s))])
          else Some (t\<lparr>t_stop := Stop_Join_Recv was\<rparr>, [])
      | Stop_Close was \<Rightarrow> Some (t\<lparr>t_stop := Stop_Clear was\<rparr>, [Control (Sys_Close (sock_fd s))])
      | Stop_Clear was \<Rightarrow> Some (t\<lparr>t_srv := s\<lparr>sock_fd := - 1\<rparr>, t_stop := Stop_Join_Recv was\<rparr>, [])
      | Stop_Join_Recv was \<Rightarrow>
          if \<not> was then Some (t\<lparr>t_stop := Stop_Outside\<rparr>, [])
          else if \<not> recv_thread s then Some (t\<lparr>t_stop := Stop_Notify\<rparr>, [])
          else if t_recv t = Recv_End
          then Some (t\<lparr>t_srv := s\<lparr>recv_thread := False\<rparr>, t_stop := Stop_Notify, t_recv := Recv_Off\<rparr>, [Control Join_Recv])
          else None
      | Stop_Notify \<Rightarrow> Some (t\<lparr>t_stop := Stop_Join_Worker\<rparr>, [Control Notify_All])
      | Stop_Join_Worker \<Rightarrow>
          if worker_thread s then Some (t\<lparr>t_srv := s\<lparr>worker_thread := False\<rparr>, t_stop := Stop_Outside\<rparr>, [Control Join_Worker])
          else Some (t\<lparr>t_stop := Stop_Outside\<rparr>, []))"

text \<open>The next statement of the receive thread; \<open>a\<close> is what \<open>recv\<close> returns when it does.\<close>

fun recv_thread_step :: "recv_result \<Rightarrow> threads \<Rightarrow> (threads \<times> thread_event list) option" where
  "recv_thread_step a t =
     (case t_recv t of
        Recv_Off \<Rightarrow> None
      | Recv_Test \<Rightarrow> Some (t\<lparr>t_recv := (if running (t_srv t) then Recv_Load else Recv_End)\<rparr>, [])
      | Recv_Load \<Rightarrow> Some (t\<lparr>t_recv := Recv_Enter (sock_fd (t_srv t))\<rparr>, [])
      | Recv_Enter fd \<Rightarrow> Some (t\<lparr>t_recv := Recv_Wait\<rparr>, [Recv_Call fd])
      | Recv_Wait \<Rightarrow>
          (case a of
             Recv_EINTR \<Rightarrow> Some (t\<lparr>t_recv := Recv_Test\<rparr>, [])
           | Recv_Failed \<Rightarrow> Some (t\<lparr>t_recv := Recv_End\<rparr>, [])
           | Dgram d \<Rightarrow> do { rx \<leftarrow> recv_dgram d (srv_rx (t_srv t));
                             Some (t\<lparr>t_srv := (t_srv t)\<lparr>srv_rx := rx\<rparr>, t_recv := Recv_Test\<rparr>, []) })
      | Recv_End \<Rightarrow> None)"

text \<open>
  The two threads. \<open>start\<close> is one step: until its last calls no receive thread exists, and the pinning
  that follows touches nothing the receive thread reads. It is called from the thread that calls \<open>stop\<close>.
\<close>

datatype thread_input = Call_Start start_answers string u16 | Stop_Next | Recv_Next recv_result

fun thread_step :: "thread_input \<Rightarrow> threads \<Rightarrow> (threads \<times> thread_event list) option" where
  "thread_step (Call_Start a addr port) t =
     (if t_stop t \<noteq> Stop_Outside then None
      else case start a addr port (t_srv t) of
        (ok, s, ev) \<Rightarrow> Some (t\<lparr>t_srv := s, t_recv := (if ok then Recv_Test else t_recv t)\<rparr>, map Control ev))"
| "thread_step Stop_Next t = stop_step t"
| "thread_step (Recv_Next a) t = recv_thread_step a t"

definition threads_new :: threads where
  "threads_new = \<lparr>t_srv = server_new, t_stop = Stop_Outside, t_recv = Recv_Off\<rparr>"

text \<open>
  What the calls of both threads may look like. The calls of \<open>start\<close> and \<open>stop\<close> follow \<open>lifecycle\<close>. The
  receive thread exists when it calls \<open>recv\<close>, and passes the open socket. The one exception: after \<open>stop\<close> has
  closed the socket and before it has joined the receive thread, one call may pass the number just closed, or -1.
\<close>

fun thread_use :: "(int option \<times> bool \<times> bool) \<times> int option \<Rightarrow> thread_event \<Rightarrow> ((int option \<times> bool \<times> bool) \<times> int option) option" where
  "thread_use ((fd, r, w), cl) (Control e) =
     map_option (\<lambda>k. (k, case e of Sys_Close n \<Rightarrow> if r then Some n else None | Join_Recv \<Rightarrow> None | _ \<Rightarrow> cl)) (lifecycle (fd, r, w) e)"
| "thread_use ((fd, r, w), cl) (Recv_Call n) =
     (if \<not> r then None
      else if fd = Some n then Some ((fd, r, w), cl)
      else if fd = None \<and> cl \<noteq> None \<and> (n = - 1 \<or> cl = Some n) then Some ((fd, r, w), None)
      else None)"

section \<open>Invariant of the two threads\<close>

definition may_recv :: "int option \<Rightarrow> int option \<Rightarrow> int \<Rightarrow> bool" where
  "may_recv fd cl n \<longleftrightarrow> fd = Some n \<or> fd = None \<and> cl \<noteq> None \<and> (n = - 1 \<or> cl = Some n)"

fun recv_pc_ok :: "int option \<Rightarrow> int option \<Rightarrow> int \<Rightarrow> recv_pc \<Rightarrow> bool" where
  "recv_pc_ok fd cl n Recv_Load = may_recv fd cl n"
| "recv_pc_ok fd cl n (Recv_Enter m) = may_recv fd cl m"
| "recv_pc_ok fd cl n _ = True"

text \<open>The open socket and the number closed last, by the statement that \<open>stop\<close> has reached.\<close>

fun stop_pc_ok :: "int option \<Rightarrow> int option \<Rightarrow> server \<Rightarrow> stop_pc \<Rightarrow> bool" where
  "stop_pc_ok fd cl s Stop_Outside = (cl = None \<and> server_inv (fd, recv_thread s, worker_thread s) s)"
| "stop_pc_ok fd cl s (Stop_Shutdown was) = (cl = None \<and> \<not> running s \<and> recv_thread s = was \<and> worker_thread s = was
     \<and> was = (0 \<le> sock_fd s) \<and> fd = (if was then Some (sock_fd s) else None))"
| "stop_pc_ok fd cl s (Stop_Close was) = (cl = None \<and> \<not> running s \<and> recv_thread s \<and> worker_thread s \<and> was
     \<and> 0 \<le> sock_fd s \<and> fd = Some (sock_fd s))"
| "stop_pc_ok fd cl s (Stop_Clear was) = (\<not> running s \<and> recv_thread s \<and> worker_thread s \<and> was \<and> fd = None)"
| "stop_pc_ok fd cl s (Stop_Join_Recv was) = (\<not> running s \<and> recv_thread s = was \<and> worker_thread s = was \<and> sock_fd s < 0
     \<and> fd = None \<and> (was \<or> cl = None))"
| "stop_pc_ok fd cl s Stop_Notify = (cl = None \<and> \<not> running s \<and> \<not> recv_thread s \<and> worker_thread s \<and> sock_fd s < 0 \<and> fd = None)"
| "stop_pc_ok fd cl s Stop_Join_Worker = (cl = None \<and> \<not> running s \<and> \<not> recv_thread s \<and> worker_thread s \<and> sock_fd s < 0 \<and> fd = None)"

fun threads_inv :: "(int option \<times> bool \<times> bool) \<times> int option \<Rightarrow> threads \<Rightarrow> bool" where
  "threads_inv ((fd, r, w), cl) t \<longleftrightarrow> r = recv_thread (t_srv t) \<and> w = worker_thread (t_srv t)
     \<and> recv_thread (t_srv t) = (t_recv t \<noteq> Recv_Off) \<and> rx_inv (srv_rx (t_srv t))
     \<and> stop_pc_ok fd cl (t_srv t) (t_stop t) \<and> recv_pc_ok fd cl (sock_fd (t_srv t)) (t_recv t)"

text \<open>Calls of \<open>start\<close> never set the number closed last: no receive thread exists when it closes a socket.\<close>

lemma observe_start_calls:
  "\<forall>n. Sys_Close n \<in> set ev \<longrightarrow> Spawn_Recv \<notin> set ev \<Longrightarrow> \<not> r \<or> (\<forall>n. Sys_Close n \<notin> set ev) \<Longrightarrow> Join_Recv \<notin> set ev \<Longrightarrow>
     observe thread_use (map Control ev) ((fd, r, w), None) = map_option (\<lambda>k. (k, None)) (observe lifecycle ev (fd, r, w))"
proof (induction ev arbitrary: fd r w)
  case (Cons e ev)
  show ?case
  proof (cases "lifecycle (fd, r, w) e")
    case (Some k)
    obtain fd' r' w' where k: "k = (fd', r', w')" by (cases k)
    have "r' = (if e = Spawn_Recv then True else if e = Join_Recv then False else r)"
      using Some by (cases e) (auto simp: k split: if_splits)
    then have "observe thread_use (map Control ev) ((fd', r', w'), None) = map_option (\<lambda>k. (k, None)) (observe lifecycle ev (fd', r', w'))"
      using Cons.prems by (intro Cons.IH) auto
    with Some Cons.prems show ?thesis by (cases e) (auto simp: k)
  qed simp
qed simp

lemma start_calls:
  "start a addr port s = (ok, s', ev) \<Longrightarrow> Join_Recv \<notin> set ev \<and> (\<forall>n. Sys_Close n \<in> set ev \<longrightarrow> Spawn_Recv \<notin> set ev)
     \<and> (running s \<longrightarrow> ev = [] \<and> s' = s \<and> \<not> ok) \<and> recv_thread s' = (ok \<or> recv_thread s)"
  by (auto simp: start_def socket_options_def pin_calls_def Let_def split: if_splits option.splits)

lemma rx_inv_start_reset: "rx_inv rx \<Longrightarrow> rx_inv (start_reset rx)"
  by (rule start_reset_inv) (auto simp: rx_inv_def slot_ok_def)

lemma call_start_inv:
  assumes inv: "threads_inv k t" and st: "thread_step (Call_Start a addr port) t = Some (t', ev)"
  shows "\<exists>k'. observe thread_use ev k = Some k' \<and> threads_inv k' t'"
proof -
  obtain fd r w cl where k: "k = ((fd, r, w), cl)" by (metis prod.collapse)
  obtain ok s' ev' where s: "start a addr port (t_srv t) = (ok, s', ev')" by (metis prod.collapse)
  from st s have t': "t_stop t = Stop_Outside" "t' = t\<lparr>t_srv := s', t_recv := (if ok then Recv_Test else t_recv t)\<rparr>" "ev = map Control ev'"
    by (auto split: if_splits)
  from inv t'(1) have i: "server_inv (fd, r, w) (t_srv t)" "cl = None" "r = recv_thread (t_srv t)" "rx_inv (srv_rx (t_srv t))"
    "recv_thread (t_srv t) = (t_recv t \<noteq> Recv_Off)" "recv_pc_ok fd cl (sock_fd (t_srv t)) (t_recv t)" by (auto simp: k)
  from i(1) have run: "r = running (t_srv t)" by (simp add: server_inv_def)
  note c = start_calls [OF s]
  from start_lifecycle [OF i(1) s] obtain fd' r' w' where
    o: "observe lifecycle ev' (fd, r, w) = Some (fd', r', w')" "server_inv (fd', r', w') s'" by (metis prod.collapse)
  have "observe thread_use (map Control ev') ((fd, r, w), None) = map_option (\<lambda>k. (k, None)) (observe lifecycle ev' (fd, r, w))"
    using c run by (intro observe_start_calls) auto
  then have ob: "observe thread_use ev k = Some ((fd', r', w'), None)" by (simp add: t'(3) k i(2) o(1))
  have rx: "rx_inv (srv_rx s')" using start_cases [OF s] i(4) rx_inv_start_reset by (cases ok) auto
  have rw: "r' = recv_thread s'" "w' = worker_thread s'" using o(2) by (auto simp: server_inv_def)
  have pc: "recv_pc_ok fd' None (sock_fd s') (if ok then Recv_Test else t_recv t)"
    using c i(2,5,6) run i(3) o(1) by (cases "running (t_srv t)") auto
  have "threads_inv ((fd', r', w'), None) t'"
    using o(2) c i(5) rx rw pc by (auto simp: t'(1,2))
  with ob show ?thesis by blast
qed

lemma stop_next_inv:
  assumes inv: "threads_inv k t" and st: "stop_step t = Some (t', ev)"
  shows "\<exists>k'. observe thread_use ev k = Some k' \<and> threads_inv k' t'"
proof -
  obtain fd r w cl where k: "k = ((fd, r, w), cl)" by (metis prod.collapse)
  show ?thesis
  proof (cases "t_stop t")
    case Stop_Outside
    with inv st show ?thesis by (auto simp: k server_inv_def)
  next
    case (Stop_Shutdown was)
    with inv st show ?thesis by (auto simp: k split: if_splits)
  next
    case (Stop_Close was)
    with inv st show ?thesis by (cases "t_recv t") (auto simp: k may_recv_def)
  next
    case (Stop_Clear was)
    with inv st show ?thesis by (cases "t_recv t") (auto simp: k may_recv_def)
  next
    case (Stop_Join_Recv was)
    with inv st show ?thesis by (auto simp: k server_inv_def split: if_splits)
  next
    case Stop_Notify
    with inv st show ?thesis by (auto simp: k)
  next
    case Stop_Join_Worker
    with inv st show ?thesis by (auto simp: k server_inv_def)
  qed
qed

lemma stop_pc_ok_rx [simp]: "stop_pc_ok fd cl (s\<lparr>srv_rx := rx\<rparr>) pc = stop_pc_ok fd cl s pc"
  by (cases pc) (simp_all add: server_inv_def)

lemma stop_pc_ok_stale: "stop_pc_ok None cl s pc \<Longrightarrow> recv_thread s \<Longrightarrow> stop_pc_ok None None s pc"
  by (cases pc) (auto simp: server_inv_def)

lemma recv_next_inv:
  assumes inv: "threads_inv k t" and st: "recv_thread_step a t = Some (t', ev)"
  shows "\<exists>k'. observe thread_use ev k = Some k' \<and> threads_inv k' t'"
proof -
  obtain fd r w cl where k: "k = ((fd, r, w), cl)" by (metis prod.collapse)
  show ?thesis
  proof (cases "t_recv t")
    case Recv_Test
    have "running (t_srv t) \<Longrightarrow> may_recv fd cl (sock_fd (t_srv t))"
      using inv by (cases "t_stop t") (auto simp: k may_recv_def server_inv_def)
    with Recv_Test inv st show ?thesis by (cases "running (t_srv t)") (auto simp: k)
  next
    case (Recv_Enter n)
    with inv st show ?thesis using stop_pc_ok_stale [of cl "t_srv t" "t_stop t"] by (auto simp: k may_recv_def)
  next
    case Recv_Wait
    show ?thesis
    proof (cases a)
      case (Dgram d)
      from recv_dgram_inv [of "srv_rx (t_srv t)" d] inv obtain rx where
        "recv_dgram d (srv_rx (t_srv t)) = Some rx" "rx_inv rx" by (auto simp: k)
      with Dgram Recv_Wait inv st show ?thesis by (auto simp: k)
    qed (use Recv_Wait inv st in \<open>auto simp: k\<close>)
  qed (use inv st in \<open>auto simp: k\<close>)
qed

lemma thread_step_inv:
  "threads_inv k t \<Longrightarrow> thread_step i t = Some (t', ev) \<Longrightarrow> \<exists>k'. observe thread_use ev k = Some k' \<and> threads_inv k' t'"
proof (cases i)
  case (Call_Start a addr port)
  assume "threads_inv k t" "thread_step i t = Some (t', ev)"
  then show ?thesis unfolding Call_Start by (rule call_start_inv)
next
  case Stop_Next
  assume "threads_inv k t" "thread_step i t = Some (t', ev)"
  then show ?thesis unfolding Stop_Next thread_step.simps by (rule stop_next_inv)
next
  case (Recv_Next a)
  assume "threads_inv k t" "thread_step i t = Some (t', ev)"
  then show ?thesis unfolding Recv_Next thread_step.simps by (rule recv_next_inv)
qed

interpretation two_threads: observed_machine thread_step "\<lambda>_. True" thread_use threads_inv
  using thread_step_inv by unfold_locales blast

lemma threads_new_inv: "threads_inv ((None, False, False), None) threads_new"
  using server_new_inv receiver_start_inv [of 64]
  by (simp add: threads_new_def server_new_def server_inv_def kRingSize_def)

section \<open>stop returns\<close>

text \<open>Once \<open>running_\<close> is cleared the receive thread ends after four of its statements at most, whatever \<open>recv\<close> returns.\<close>

lemma recv_wait_ends:
  assumes "t_recv t = Recv_Wait" "rx_inv (srv_rx (t_srv t))" "\<not> running (t_srv t)"
  shows "\<exists>n \<le> 2. \<exists>t'. run thread_step (map Recv_Next (take n [a, b])) t = Some (t', []) \<and> t_recv t' = Recv_End
     \<and> t_stop t' = t_stop t"
proof (cases a)
  case Recv_Failed
  with assms show ?thesis by (intro exI [of _ 1]) simp
next
  case Recv_EINTR
  with assms show ?thesis by (intro exI [of _ 2]) (simp add: numeral_2_eq_2)
next
  case (Dgram d)
  from recv_dgram_inv [OF assms(2), of d] obtain rx where "recv_dgram d (srv_rx (t_srv t)) = Some rx" by blast
  with Dgram assms show ?thesis by (intro exI [of _ 2]) (simp add: numeral_2_eq_2)
qed

lemma recv_enter_ends:
  assumes "t_recv t = Recv_Enter fd" "rx_inv (srv_rx (t_srv t))" "\<not> running (t_srv t)"
  shows "\<exists>n \<le> 3. \<exists>t' ev. run thread_step (map Recv_Next (take n [a, b, c])) t = Some (t', ev) \<and> t_recv t' = Recv_End
     \<and> t_stop t' = t_stop t"
proof -
  from recv_wait_ends [of "t\<lparr>t_recv := Recv_Wait\<rparr>" b c] assms obtain n t' where
    "n \<le> 2" "run thread_step (map Recv_Next (take n [b, c])) (t\<lparr>t_recv := Recv_Wait\<rparr>) = Some (t', [])"
    "t_recv t' = Recv_End" "t_stop t' = t_stop t" by auto
  with assms(1) show ?thesis by (intro exI [of _ "Suc n"]) simp
qed

lemma recv_ends:
  assumes "t_recv t \<noteq> Recv_Off" "rx_inv (srv_rx (t_srv t))" "\<not> running (t_srv t)"
  shows "\<exists>n \<le> 4. \<exists>t' ev. run thread_step (map Recv_Next (take n [a, b, c, d])) t = Some (t', ev) \<and> t_recv t' = Recv_End
     \<and> t_stop t' = t_stop t"
proof (cases "t_recv t")
  case Recv_Test
  with assms(3) show ?thesis by (intro exI [of _ 1]) simp
next
  case Recv_Load
  from recv_enter_ends [of "t\<lparr>t_recv := Recv_Enter (sock_fd (t_srv t))\<rparr>" _ b c d] assms obtain n t' ev where
    "n \<le> 3" "run thread_step (map Recv_Next (take n [b, c, d])) (t\<lparr>t_recv := Recv_Enter (sock_fd (t_srv t))\<rparr>) = Some (t', ev)"
    "t_recv t' = Recv_End" "t_stop t' = t_stop t" by auto
  with Recv_Load show ?thesis by (intro exI [of _ "Suc n"]) simp
next
  case (Recv_Enter fd)
  from recv_enter_ends [OF this assms(2,3), of a b c] obtain n t' ev where
    "n \<le> 3" "run thread_step (map Recv_Next (take n [a, b, c])) t = Some (t', ev)" "t_recv t' = Recv_End" "t_stop t' = t_stop t" by blast
  moreover have "take n ([a, b, c] @ [d]) = take n [a, b, c]" unfolding take_append using \<open>n \<le> 3\<close> by simp
  ultimately show ?thesis by (intro exI [of _ n]) auto
next
  case Recv_Wait
  from recv_wait_ends [OF this assms(2,3), of a b] obtain n t' where
    "n \<le> 2" "run thread_step (map Recv_Next (take n [a, b])) t = Some (t', [])" "t_recv t' = Recv_End" "t_stop t' = t_stop t" by blast
  moreover have "take n ([a, b] @ [c, d]) = take n [a, b]" unfolding take_append using \<open>n \<le> 2\<close> by simp
  ultimately show ?thesis by (intro exI [of _ n]) auto
qed (use assms in \<open>auto intro: exI [of _ 0]\<close>)

text \<open>
  The statements of \<open>stop\<close> that are left, once the receive thread has ended: from the start of \<open>stop\<close>
  they make the calls and the state of the definition above.
\<close>

lemma join_runs:
  assumes "t_stop t = Stop_Join_Recv was" "recv_thread (t_srv t) \<Longrightarrow> t_recv t = Recv_End"
  shows "\<exists>m t'. run thread_step (replicate m Stop_Next) t = Some (t',
      if was then map Control ((if recv_thread (t_srv t) then [Join_Recv] else []) @ [Notify_All]
        @ (if worker_thread (t_srv t) then [Join_Worker] else [])) else [])
    \<and> t_stop t' = Stop_Outside
    \<and> t_srv t' = (t_srv t)\<lparr>recv_thread := recv_thread (t_srv t) \<and> \<not> was, worker_thread := worker_thread (t_srv t) \<and> \<not> was\<rparr>"
proof (cases was)
  case True
  with assms show ?thesis by (intro exI [of _ 3]) (auto simp: numeral_3_eq_3)
next
  case False
  with assms show ?thesis by (intro exI [of _ 1]) simp
qed

lemma stop_runs:
  assumes "t_stop t = Stop_Outside" "recv_thread (t_srv t) \<Longrightarrow> t_recv t = Recv_End"
  shows "\<exists>m t'. run thread_step (replicate m Stop_Next) t = Some (t', map Control (snd (stop (t_srv t))))
    \<and> t_stop t' = Stop_Outside \<and> t_srv t' = fst (stop (t_srv t))"
proof -
  let ?s = "t_srv t" and ?k = "if 0 \<le> sock_fd (t_srv t) then 4 else 2 :: nat"
  let ?t = "t\<lparr>t_srv := ?s\<lparr>running := False, sock_fd := (if 0 \<le> sock_fd ?s then - 1 else sock_fd ?s)\<rparr>, t_stop := Stop_Join_Recv (running ?s)\<rparr>"
  have k: "run thread_step (replicate ?k Stop_Next) t = Some (?t,
      map Control (if 0 \<le> sock_fd ?s then [Sys_Shutdown (sock_fd ?s), Sys_Close (sock_fd ?s)] else []))"
    using assms(1) by (cases "0 \<le> sock_fd ?s") (simp_all add: eval_nat_numeral Let_def)
  have "t_stop ?t = Stop_Join_Recv (running ?s)" "recv_thread (t_srv ?t) \<Longrightarrow> t_recv ?t = Recv_End" using assms(2) by simp_all
  moreover have f: "recv_thread (t_srv ?t) = recv_thread ?s" "worker_thread (t_srv ?t) = worker_thread ?s" by simp_all
  ultimately obtain m t' where
    "run thread_step (replicate m Stop_Next) ?t = Some (t', if running ?s then map Control ((if recv_thread ?s then [Join_Recv] else [])
        @ [Notify_All] @ (if worker_thread ?s then [Join_Worker] else [])) else [])"
    "t_stop t' = Stop_Outside" "t_srv t' = (t_srv ?t)\<lparr>recv_thread := recv_thread ?s \<and> \<not> running ?s, worker_thread := worker_thread ?s \<and> \<not> running ?s\<rparr>"
    using join_runs [of ?t "running ?s", unfolded f] by blast
  with k show ?thesis by (intro exI [of _ "?k + m"]) (simp add: replicate_add run_append stop_def)
qed

definition stop_over :: "threads \<Rightarrow> bool" where
  "stop_over t \<longleftrightarrow> (\<exists>m t' ev. run thread_step (replicate m Stop_Next) t = Some (t', ev) \<and> t_stop t' = Stop_Outside)"

lemma stop_over_step: "stop_step t = Some (t1, ev) \<Longrightarrow> stop_over t1 \<Longrightarrow> stop_over t"
proof -
  assume s: "stop_step t = Some (t1, ev)" and "stop_over t1"
  then obtain m t' ev' where "run thread_step (replicate m Stop_Next) t1 = Some (t', ev')" "t_stop t' = Stop_Outside"
    by (auto simp: stop_over_def)
  with s have "run thread_step (replicate (Suc m) Stop_Next) t = Some (t', ev @ ev')" by (simp del: stop_step.simps)
  with \<open>t_stop t' = Stop_Outside\<close> show ?thesis unfolding stop_over_def by blast
qed

lemma stop_over_outside: "t_stop t = Stop_Outside \<Longrightarrow> stop_over t"
  unfolding stop_over_def by (intro exI [of _ 0]) simp

lemma stop_returns:
  assumes "recv_thread (t_srv t) \<Longrightarrow> t_recv t = Recv_End"
  shows "stop_over t"
proof -
  have 1: "stop_over u" if "t_stop u = Stop_Join_Worker" for u
    using that by (cases "worker_thread (t_srv u)") (rule stop_over_step [of u], simp, rule stop_over_outside, simp)+
  have 2: "stop_over u" if "t_stop u = Stop_Notify" for u
    by (rule stop_over_step [of u]) (simp add: that, rule 1, simp)
  have 3: "stop_over u" if "t_stop u = Stop_Join_Recv w" "recv_thread (t_srv u) \<Longrightarrow> t_recv u = Recv_End" for u w
    using join_runs [OF that] unfolding stop_over_def by blast
  have 4: "stop_over u" if "t_stop u = Stop_Clear w" "recv_thread (t_srv u) \<Longrightarrow> t_recv u = Recv_End" for u w
    by (rule stop_over_step [of u]) (simp add: that(1), rule 3 [of _ w], simp_all add: that(2))
  have 5: "stop_over u" if "t_stop u = Stop_Close w" "recv_thread (t_srv u) \<Longrightarrow> t_recv u = Recv_End" for u w
    by (rule stop_over_step [of u]) (simp add: that(1), rule 4 [of _ w], simp_all add: that(2))
  have 6: "stop_over u" if "t_stop u = Stop_Shutdown w" "recv_thread (t_srv u) \<Longrightarrow> t_recv u = Recv_End" for u w
  proof (cases "0 \<le> sock_fd (t_srv u)")
    case True
    then show ?thesis by (intro stop_over_step [of u]) (simp add: that(1), rule 5 [of _ w], simp_all add: that(2))
  next
    case False
    then show ?thesis by (intro stop_over_step [of u]) (simp add: that(1), rule 3 [of _ w], simp_all add: that(2))
  qed
  show ?thesis using assms by (cases "t_stop t") (auto intro: stop_over_outside 1 2 3 4 5 6)
qed

lemma stop_can_finish:
  assumes inv: "threads_inv k t" and out: "t_stop t \<noteq> Stop_Outside"
  shows "\<exists>n \<le> 4. \<exists>m t' ev'. run thread_step (map Recv_Next (take n [a, b, c, d]) @ replicate m Stop_Next) t = Some (t', ev')
     \<and> t_stop t' = Stop_Outside"
proof -
  obtain fd r w cl where k: "k = ((fd, r, w), cl)" by (metis prod.collapse)
  have nr: "\<not> running (t_srv t)" using inv out by (cases "t_stop t") (auto simp: k)
  have "\<exists>n \<le> 4. \<exists>t1 ev1. run thread_step (map Recv_Next (take n [a, b, c, d])) t = Some (t1, ev1)
      \<and> (recv_thread (t_srv t1) \<longrightarrow> t_recv t1 = Recv_End)"
  proof (cases "t_recv t = Recv_Off")
    case True
    with inv show ?thesis by (intro exI [of _ 0]) (simp add: k)
  next
    case False
    with recv_ends [OF False _ nr, of a b c d] inv show ?thesis by (fastforce simp: k)
  qed
  then obtain n t1 ev1 where n: "n \<le> 4" "run thread_step (map Recv_Next (take n [a, b, c, d])) t = Some (t1, ev1)"
    "recv_thread (t_srv t1) \<longrightarrow> t_recv t1 = Recv_End" by blast
  from stop_returns [of t1] n(3) obtain m t' ev where
    "run thread_step (replicate m Stop_Next) t1 = Some (t', ev)" "t_stop t' = Stop_Outside" unfolding stop_over_def by blast
  with n(1,2) show ?thesis by (intro exI [of _ n] conjI exI [of _ m]) (simp_all only: run_append, simp_all)
qed

text \<open>
  C24: over any sequence of \<open>start\<close> and \<open>stop\<close> calls, whatever the system answers and however \<open>stop\<close> and the receive thread
  interleave, the calls keep their order: a socket is opened only when none is open, configured, bound and shut down only while
  open and closed exactly once, and the threads are started and joined once each, the receive thread first. The receive thread
  calls \<open>recv\<close> on the open socket, except that between the close and the join one call at most may use the number
  just closed, or -1. When \<open>stop\<close> is over no socket is open and no thread left. And \<open>stop\<close> can always finish: the receive thread ends after
  at most four more statements, whatever \<open>recv\<close> returns, and then nothing blocks \<open>stop\<close>.
\<close>

theorem receiver_lifecycle:
  assumes "run thread_step is threads_new = Some (t, ev)"
  shows "\<exists>k. observe thread_use ev ((None, False, False), None) = Some k
    \<and> (t_stop t = Stop_Outside \<and> \<not> running (t_srv t) \<longrightarrow> k = ((None, False, False), None)
        \<and> sock_fd (t_srv t) < 0 \<and> \<not> recv_thread (t_srv t) \<and> \<not> worker_thread (t_srv t))
    \<and> (t_stop t \<noteq> Stop_Outside \<longrightarrow> (\<exists>n \<le> 4. \<exists>m t' ev'. run thread_step
          (map Recv_Next (take n [a, b, c, d]) @ replicate m Stop_Next) t = Some (t', ev') \<and> t_stop t' = Stop_Outside))"
  proof -
  from two_threads.run_observed [OF threads_new_inv _ assms] obtain k where
    k: "observe thread_use ev ((None, False, False), None) = Some k" "threads_inv k t" by (auto simp: list_all_iff)
  obtain fd r w cl where kk: "k = ((fd, r, w), cl)" by (metis prod.collapse)
  have "t_stop t = Stop_Outside \<and> \<not> running (t_srv t) \<longrightarrow> k = ((None, False, False), None)
      \<and> sock_fd (t_srv t) < 0 \<and> \<not> recv_thread (t_srv t) \<and> \<not> worker_thread (t_srv t)"
    using k(2) by (auto simp: kk server_inv_def)
  with k stop_can_finish [OF k(2), of a b c d] show ?thesis by blast
qed

text \<open>
  The receive thread loads the descriptor, \<open>stop\<close> closes the socket, and only then the receive thread calls
  \<open>recv\<close>, on a number that is no longer its socket.
\<close>

definition racing_stop :: "thread_input list" where
  "racing_stop = [Call_Start sample_answers ''*'' 5004, Recv_Next Recv_EINTR, Recv_Next Recv_EINTR,
     Stop_Next, Stop_Next, Stop_Next, Recv_Next Recv_EINTR, Recv_Next Recv_Failed,
     Stop_Next, Stop_Next, Stop_Next, Stop_Next]"

lemma racing_stop_runs:
  "\<exists>t. run thread_step racing_stop threads_new = Some (t, map Control [Sys_Socket 5, Sys_Reuse 5, Sys_Rcvbuf_Force 5 16777216,
       Sys_Rcvbuf 5 16777216, Sys_Bind 5 0 5004, Spawn_Worker, Spawn_Recv, Sys_Shutdown 5, Sys_Close 5]
     @ Recv_Call 5 # map Control [Join_Recv, Notify_All, Join_Worker]) \<and> t_stop t = Stop_Outside \<and> \<not> running (t_srv t)"
  by (simp add: racing_stop_def threads_new_def server_new_def start_def socket_options_def pin_calls_def bind_address_def
      sample_answers_def Let_def)

theorem receiver_lifecycle_witness:
  "\<exists>t ev. run thread_step racing_stop threads_new = Some (t, ev) \<and> ev ! 8 = Control (Sys_Close 5) \<and> ev ! 9 = Recv_Call 5
     \<and> observe thread_use ev ((None, False, False), None) = Some ((None, False, False), None) \<and> \<not> recv_thread (t_srv t)"
proof -
  from racing_stop_runs obtain t ev where r: "run thread_step racing_stop threads_new = Some (t, ev)"
    "ev ! 8 = Control (Sys_Close 5)" "ev ! 9 = Recv_Call 5" "t_stop t = Stop_Outside" "\<not> running (t_srv t)"
    by (auto simp: eval_nat_numeral)
  from receiver_lifecycle [OF r(1), of Recv_EINTR Recv_EINTR Recv_EINTR Recv_EINTR] r show ?thesis by auto
qed

end
