(* ===== verification/Main_Program.thy ===== *)
theory Main_Program
  imports Decoder Nic_Affinity Receiver_Control
begin

text \<open>
  \<open>main\<close> of \<open>src/main.cpp\<close>: the command line, the set-up of receiver and frame handler, the check of the
  network card, the run of the two threads while \<open>main\<close> sleeps, and the stop. An uncaught exception of \<open>std::stoi\<close> or
  \<open>std::stoul\<close> ends the program; a signed overflow is undefined. Text output is left out
  except for the report of the network card check.
\<close>

section \<open>The command line\<close>

record config =
  cfg_address :: string
  cfg_port :: u16
  cfg_time_s :: int
  cfg_holdback :: "u32 option"
  cfg_recv_cpu :: int
  cfg_worker_cpu :: int
  cfg_rcvbuf :: int

text \<open>\<open>if (argc > i) v = std::stoi(argv[i])\<close>.\<close>

definition int_arg :: "string list \<Rightarrow> nat \<Rightarrow> int \<Rightarrow> cpp_exception + int" where
  "int_arg argv i dflt = (if i < length argv then stoi (argv ! i) else Inr dflt)"

definition holdback_arg :: "string list \<Rightarrow> cpp_exception + u32 option" where
  "holdback_arg argv = (if 5 < length argv then map_sum id (\<lambda>w. Some (ucast w)) (stoul (argv ! 5)) else Inr None)"

text \<open>\<open>recv_buf_mb * 1024 * 1024\<close> in \<open>int\<close> arithmetic.\<close>

definition rcvbuf_bytes :: "int \<Rightarrow> int option" where
  "rcvbuf_bytes mb = (if int_in_range (mb * 1024) \<and> int_in_range (mb * 1024 * 1024) then Some (mb * 1024 * 1024) else None)"

definition parse_args :: "string list \<Rightarrow> (cpp_exception + config) option" where
  "parse_args argv =
     (case stoi (argv ! 2) of Inl e \<Rightarrow> Some (Inl e) | Inr port \<Rightarrow>
      case int_arg argv 3 (2 ^ 63 - 1) of Inl e \<Rightarrow> Some (Inl e) | Inr time_s \<Rightarrow>
      case int_arg argv 4 45 of Inl e \<Rightarrow> Some (Inl e) | Inr _ \<Rightarrow>
      case int_arg argv 6 2 of Inl e \<Rightarrow> Some (Inl e) | Inr rc \<Rightarrow>
      case int_arg argv 7 3 of Inl e \<Rightarrow> Some (Inl e) | Inr wc \<Rightarrow>
      case int_arg argv 8 16 of Inl e \<Rightarrow> Some (Inl e) | Inr mb \<Rightarrow>
      do { bytes \<leftarrow> rcvbuf_bytes mb;
           case holdback_arg argv of Inl e \<Rightarrow> Some (Inl e) | Inr hb \<Rightarrow>
           Some (Inr \<lparr>cfg_address = argv ! 1, cfg_port = word_of_int port, cfg_time_s = time_s, cfg_holdback = hb,
                   cfg_recv_cpu = rc, cfg_worker_cpu = wc, cfg_rcvbuf = bytes\<rparr>) })"

section \<open>The program\<close>

definition configured_server :: "config \<Rightarrow> server" where
  "configured_server c =
     set_recv_buf_size (cfg_rcvbuf c) (set_worker_cpu (cfg_worker_cpu c) (set_recv_cpu (cfg_recv_cpu c) server_new))"

definition configured_handler :: "config \<Rightarrow> frame_handler" where
  "configured_handler c = set_release_slab_callback True
     (case cfg_holdback c of None \<Rightarrow> frame_handler_init | Some n \<Rightarrow> fh_set_parse_holdback n frame_handler_init)"

datatype outcome = Exit_Failure | Exit_Success | Terminated cpp_exception

record finished =
  fin_params :: params_t
  fin_server :: server
  fin_effects :: "effect list"
  fin_syscalls :: "syscall list"
  fin_report :: "nic_report option"

text \<open>
  What the system and the threads do is given: the answers to \<open>start\<close>, the interleaved steps of the two threads while
  \<open>main\<close> sleeps, and the storage of the rounds that drain the queue.
\<close>

definition main :: "os \<Rightarrow> start_answers \<Rightarrow> action list \<Rightarrow> uninit list \<Rightarrow> string list \<Rightarrow> (outcome \<times> finished option) option" where
  "main env ans steps Us argv =
     (if length argv < 3 then Some (Exit_Failure, None)
      else do { r \<leftarrow> parse_args argv;
        case r of Inl e \<Rightarrow> Some (Terminated e, None)
        | Inr c \<Rightarrow>
          do { rep \<leftarrow> check_nic_irq_affinity env (cfg_address c) (cfg_recv_cpu c) (cfg_worker_cpu c);
               case start ans (cfg_address c) (cfg_port c) (configured_server c) of (ok, srv, ev1) \<Rightarrow>
               if \<not> ok then Some (Exit_Failure, None)
               else do { (p, out1) \<leftarrow> run decoder_step steps \<lparr>p_frame_handler = configured_handler c, p_receiver = srv_rx srv,
                           p_total_frames = 0, p_last_timetamp = 0\<rparr>;
                         (p, out2) \<leftarrow> drain Us p;
                         case stop srv of (srv, ev2) \<Rightarrow>
                         Some (Exit_Success, Some \<lparr>fin_params = p, fin_server = srv\<lparr>srv_rx := p_receiver p\<rparr>,
                           fin_effects = out1 @ out2, fin_syscalls = ev1 @ ev2, fin_report = rep\<rparr>) } } })"

section \<open>Arguments are read as written\<close>

lemma int_arg_show: "i < length argv \<Longrightarrow> argv ! i = show_int v \<Longrightarrow> int_in_range v \<Longrightarrow> int_arg argv i d = Inr v"
  by (simp add: int_arg_def stoi_show)

text \<open>
  C35: a complete command line is read as it was written: numbers printed in decimal come back as the same port, duration,
  hold-back and CPUs, and the buffer size in megabytes as bytes, for all values in range.
\<close>

theorem command_line_roundtrip:
  assumes "0 \<le> port" "port < 2 ^ 16" "int_in_range time_s" "int_in_range wait" "0 \<le> hb" "hb < 2 ^ 32"
    "int_in_range rc" "int_in_range wc" "0 \<le> mb" "mb < 2048"
  shows "parse_args [cmd, addr, show_int port, show_int time_s, show_int wait, show_int hb, show_int rc, show_int wc, show_int mb]
    = Some (Inr \<lparr>cfg_address = addr, cfg_port = word_of_int port, cfg_time_s = time_s, cfg_holdback = Some (word_of_int hb),
        cfg_recv_cpu = rc, cfg_worker_cpu = wc, cfg_rcvbuf = mb * 1024 * 1024\<rparr>)"
proof -
  have p: "stoi (show_int port) = Inr port" "stoi (show_int mb) = Inr mb"
    using assms by (auto intro!: stoi_show simp: int_in_range_def)
  have h: "stoul (show_int hb) = Inr (word_of_int hb)" using assms by (auto intro!: stoul_show)
  have c: "(ucast (word_of_int hb :: u64) :: u32) = word_of_int hb"
    using assms by (simp add: unsigned_of_int take_bit_int_eq_self)
  show ?thesis
    using assms p h c
    by (simp add: parse_args_def int_arg_def holdback_arg_def stoi_show rcvbuf_bytes_def int_in_range_def)
qed

theorem command_line_roundtrip_witness:
  "parse_args [''rtp'', ''0.0.0.0'', ''80'', ''10'', ''0'', ''7'', ''-1'', ''3'', ''32'']
     = Some (Inr \<lparr>cfg_address = ''0.0.0.0'', cfg_port = 80, cfg_time_s = 10, cfg_holdback = Some 7,
        cfg_recv_cpu = - 1, cfg_worker_cpu = 3, cfg_rcvbuf = 33554432\<rparr>)"
proof -
  have s: "show_int 80 = ''80''" "show_int 10 = ''10''" "show_int 0 = ''0''" "show_int 7 = ''7''" "show_int (- 1) = ''-1''"
    "show_int 3 = ''3''" "show_int 32 = ''32''"
    by code_simp+
  from command_line_roundtrip [of 80 10 0 7 "- 1" 3 32 "''rtp''" "''0.0.0.0''"] show ?thesis
    by (simp add: s int_in_range_def)
qed

section \<open>A run of the program\<close>

lemma start_reset_new: "start_reset (receiver_start jd) = receiver_start jd"
  by (simp add: start_reset_def receiver_start_def slot_empty_def cong: if_cong)

lemma configured_start:
  assumes "start ans addr port (configured_server c) = (True, srv, ev)"
  shows "dec_inv \<lparr>p_frame_handler = configured_handler c, p_receiver = srv_rx srv, p_total_frames = 0, p_last_timetamp = 0\<rparr>"
proof -
  have "srv_rx srv = receiver_start 64"
    using start_cases [OF assms]
    by (simp add: configured_server_def set_recv_buf_size_def set_worker_cpu_def set_recv_cpu_def server_new_def start_reset_new)
  moreover have "held_slabs (configured_handler c) = []" "release_slab_cb (cbk (configured_handler c))"
    by (simp_all add: configured_handler_def set_release_slab_callback_def fh_set_parse_holdback_def frame_handler_init_def split: option.splits)
  ultimately show ?thesis
    using decoder_start_inv(1) by (simp add: dec_inv_def decoder_start_def frame_handler_init_def)
qed

lemma run_dec_inv: "run decoder_step as p = Some (p', out) \<Longrightarrow> dec_inv p \<Longrightarrow> dec_inv p'"
proof (induction as arbitrary: p out)
  case (Cons a as)
  then obtain p1 o1 o2 where "decoder_step a p = Some (p1, o1)" "run decoder_step as p1 = Some (p', o2)"
    by (auto split: bind_splits)
  with Cons decoder_step_inv show ?case by blast
qed simp

lemma drain_result: "drain Us p = Some (p', out) \<Longrightarrow> dec_inv p \<Longrightarrow> dec_inv p' \<and> jobs (p_receiver p') = []"
proof (induction Us arbitrary: p out)
  case Nil
  then show ?case
    using queue_empty [of "p_receiver p"] by (auto simp: drain.simps [of "[]"] dec_inv_def rx_inv_def Let_def split: if_splits)
next
  case (Cons U Us)
  show ?case
  proof (cases "job_head (p_receiver p) = job_tail (p_receiver p)")
    case True
    with Cons.prems queue_empty [of "p_receiver p"] show ?thesis
      by (auto simp: drain.simps [of "U # Us"] dec_inv_def rx_inv_def Let_def)
  next
    case False
    with Cons.prems obtain p1 o1 o2 where "worker_step U p = Some (p1, o1)" "drain Us p1 = Some (p', o2)"
      by (auto simp: drain.simps [of "U # Us"] split: bind_splits)
    with Cons worker_step_inv show ?thesis by blast
  qed
qed

lemma server_new_configured: "server_inv (None, False, False) (configured_server c)"
  by (simp add: configured_server_def set_recv_buf_size_def set_worker_cpu_def set_recv_cpu_def server_inv_def server_new_def)

text \<open>
  C8: a run of \<open>main\<close> that exits with success has given everything back: the socket was opened and closed once and both threads joined,
  no job is left in the queue, and the only slabs still marked busy are those of the frame that was unfinished when the program stopped.
\<close>

theorem main_exits_clean:
  assumes "main env ans steps Us argv = Some (Exit_Success, Some f)"
  shows "observe lifecycle (fin_syscalls f) (None, False, False) = Some (None, False, False)
    \<and> \<not> running (fin_server f) \<and> sock_fd (fin_server f) < 0
    \<and> jobs (srv_rx (fin_server f)) = []
    \<and> {i. in_worker (ring (srv_rx (fin_server f)) i)} = set (held_slabs (p_frame_handler (fin_params f)))"
proof -
  from assms obtain c rep srv ev1 p out1 p' out2 where
    st: "start ans (cfg_address c) (cfg_port c) (configured_server c) = (True, srv, ev1)"
    and rn: "run decoder_step steps \<lparr>p_frame_handler = configured_handler c, p_receiver = srv_rx srv,
                           p_total_frames = 0, p_last_timetamp = 0\<rparr> = Some (p, out1)"
    and dr: "drain Us p = Some (p', out2)"
    and f: "f = \<lparr>fin_params = p', fin_server = (fst (stop srv))\<lparr>srv_rx := p_receiver p'\<rparr>, fin_effects = out1 @ out2,
        fin_syscalls = ev1 @ snd (stop srv), fin_report = rep\<rparr>"
    by (auto simp: main_def split: if_splits bind_splits sum.splits prod.splits)
  from drain_result [OF dr] run_dec_inv [OF rn configured_start [OF st]]
  have d: "dec_inv p'" "jobs (p_receiver p') = []" by auto
  from start_lifecycle [OF server_new_configured st] obtain k where
    k: "observe lifecycle ev1 (None, False, False) = Some k" "server_inv k srv" by blast
  from stop_lifecycle [OF k(2)] have "observe lifecycle (snd (stop srv)) k = Some (None, False, False)"
    "\<not> running (fst (stop srv))" "sock_fd (fst (stop srv)) < 0"
    by (auto simp: server_inv_def split: if_splits)
  with k(1) d show ?thesis by (auto simp: f dec_inv_def owned_def Let_def)
qed

text \<open>One datagram arrives and is processed when the queue is drained.\<close>

lemma drain_sample:
  "\<exists>p' out. drain [no_storage] (decoder_start\<lparr>p_receiver := sample_rx\<rparr>) = Some (p', out)"
proof -
  let ?p = "decoder_start\<lparr>p_receiver := sample_rx\<rparr>"
  have inv: "dec_inv ?p" by (rule decoder_step_inv [OF decoder_start_inv(1) recv_sample_step])
  from work_sample obtain p' out where w: "worker_step no_storage ?p = Some (p', out)" by auto
  have rx: "rx_inv (p_receiver ?p)" "rx_inv (p_receiver p')"
    using inv worker_step_inv [OF inv w] by (auto simp: dec_inv_def Let_def)
  have "jobs (p_receiver p') = []"
    using worker_step_jobs [OF rx(1) w] by (simp add: jobs_def sample_rx_def kJobQueueSize_def kRingSize_def)
  then have "drain [] p' = Some (p', [])" using queue_empty rx(2) by (simp add: drain.simps [of "[]"] rx_inv_def)
  with w show ?thesis by (simp add: drain.simps [of "[no_storage]"])
qed

theorem main_exits_clean_witness:
  "\<exists>f. main sample_os sample_answers [Recv sample_dgram] [no_storage] [''rtp'', ''0.0.0.0'', ''6000''] = Some (Exit_Success, Some f)
     \<and> jobs (srv_rx (fin_server f)) = [] \<and> sock_fd (fin_server f) < 0"
proof -
  let ?c = "\<lparr>cfg_address = ''0.0.0.0'', cfg_port = 6000, cfg_time_s = 9223372036854775807, cfg_holdback = None,
      cfg_recv_cpu = 2, cfg_worker_cpu = 3, cfg_rcvbuf = 16777216\<rparr>"
  have a: "parse_args [''rtp'', ''0.0.0.0'', ''6000''] = Some (Inr ?c)" by code_simp
  obtain r where rep: "check_nic_irq_affinity sample_os ''0.0.0.0'' 2 3 = Some (Some r)" using sample_check [of 2 3] by auto
  obtain srv ev where st: "start sample_answers ''0.0.0.0'' 6000 (configured_server ?c) = (True, srv, ev)"
    by (simp add: start_def configured_server_def set_recv_buf_size_def set_worker_cpu_def set_recv_cpu_def
        server_new_def sample_answers_def bind_address_def Let_def)
  have "srv_rx srv = receiver_start 64"
    using start_cases [OF st]
    by (simp add: configured_server_def set_recv_buf_size_def set_worker_cpu_def set_recv_cpu_def server_new_def start_reset_new)
  then have i: "\<lparr>p_frame_handler = configured_handler ?c, p_receiver = srv_rx srv, p_total_frames = 0, p_last_timetamp = 0\<rparr> = decoder_start"
    by (simp add: decoder_start_def configured_handler_def set_release_slab_callback_def frame_handler_init_def)
  have rn: "run decoder_step [Recv sample_dgram] decoder_start = Some (decoder_start\<lparr>p_receiver := sample_rx\<rparr>, [])"
    using recv_sample_step by (simp del: decoder_step.simps)
  obtain p' out where dr: "drain [no_storage] (decoder_start\<lparr>p_receiver := sample_rx\<rparr>) = Some (p', out)" using drain_sample by blast
  obtain srv' ev' where sp: "stop srv = (srv', ev')" by (cases "stop srv")
  have "\<exists>f. main sample_os sample_answers [Recv sample_dgram] [no_storage] [''rtp'', ''0.0.0.0'', ''6000''] = Some (Exit_Success, Some f)"
    by (simp add: main_def a rep st i rn dr sp del: run.simps)
  then obtain f where f: "main sample_os sample_answers [Recv sample_dgram] [no_storage] [''rtp'', ''0.0.0.0'', ''6000''] = Some (Exit_Success, Some f)"
    by blast
  from main_exits_clean [OF f] f show ?thesis by blast
qed

end
