(* ===== verification/Crp_Complete.thy ===== *)
theory Crp_Complete
  imports Tile_Handler
begin

text \<open>
  The packet sequence built by \<open>prepare_precinct_structure\<close>: on a tile at the origin it contains
  every precinct of every resolution of every component exactly once, in order; and the PRCL
  sequence is a rearrangement of the PCRL one that keeps the order within each component, which is
  what the recovery index relies on.
\<close>

section \<open>One visit\<close>

abbreviation (input) "cell_res t c r \<equiv> tc_res (tcomps t ! c) ! r"

text \<open>Whether \<open>(c, r)\<close> has a precinct at \<open>(x, y)\<close>; \<open>None\<close> outside the arrays.\<close>

definition hit :: "tile \<Rightarrow> coc_marker list \<Rightarrow> dfs_marker \<Rightarrow> int \<Rightarrow> int \<Rightarrow> nat \<times> nat \<Rightarrow> bool option" where
  "hit t cocs dfs y x cr = (case cr of (c, r) \<Rightarrow>
     do { coc \<leftarrow> arr_get cocs c;
          tcp \<leftarrow> arr_get (tcomps t) c;
          rp \<leftarrow> arr_get (tc_res tcp) r;
          xNL \<leftarrow> arr_get (hor_depth dfs) (unat (NL coc) - r);
          yNL \<leftarrow> arr_get (ver_depth dfs) (unat (NL coc) - r);
          pw \<leftarrow> arr_get (prw coc) r;
          ph \<leftarrow> arr_get (prh coc) r;
          Some (at_position x (gx0 (tile_coord t)) (sub_x tcp) (gx0 (res_coord rp)) (unat pw) (unat xNL)
            \<and> at_position y (gy0 (tile_coord t)) (sub_y tcp) (gy0 (res_coord rp)) (unat ph) (unat yNL)) })"

lemma visit_hit:
  "visit t cocs dfs y x (c, r) st =
     map_option (\<lambda>h. if h then push_precinct (npw (cell_res t c r)) c r st else st) (hit t cocs dfs y x (c, r))"
  unfolding visit_def hit_def by (auto simp: arr_get_def split: bind_splits if_splits)

section \<open>Counting visits\<close>

text \<open>
  After \<open>k\<close> precincts of \<open>(c, r)\<close> the counters are at \<open>(k mod w, k div w)\<close>, and the entries of
  \<open>(c, r)\<close> in the sequence are the precincts \<open>0 .. k - 1\<close>.
\<close>

definition cell_entries :: "nat \<Rightarrow> nat \<Rightarrow> crp_status list \<Rightarrow> crp_status list" where
  "cell_entries c r = filter (\<lambda>e. crp_c e = c \<and> crp_r e = r)"

definition counted :: "tile \<Rightarrow> (nat \<Rightarrow> nat \<Rightarrow> nat) \<Rightarrow> crp_state \<Rightarrow> bool" where
  "counted t k st \<longleftrightarrow> (\<forall>e \<in> set (cs_crp st). crp_c e < 256 \<and> crp_r e < 256) \<and> (\<forall>c r. c < 256 \<longrightarrow> r < 256 \<longrightarrow>
     cs_px st c r = k c r mod npw (cell_res t c r) \<and> cs_py st c r = k c r div npw (cell_res t c r)
     \<and> cell_entries c r (cs_crp st) = map (\<lambda>p. \<lparr>crp_c = c, crp_r = r, crp_p = p mod 65536\<rparr>) [0..<k c r])"

lemma counted_init: "counted t (\<lambda>_ _. 0) crp_state_init"
  by (simp add: counted_def crp_state_init_def cell_entries_def)

lemma counted_push:
  assumes st: "counted t k st" and cr: "c < 256" "r < 256"
  shows "counted t (k(c := (k c)(r := Suc (k c r)))) (push_precinct (npw (cell_res t c r)) c r st)"
proof -
  let ?w = "npw (cell_res t c r)" and ?st = "push_precinct (npw (cell_res t c r)) c r st"
  have px: "cs_px st c r = k c r mod ?w" and py: "cs_py st c r = k c r div ?w"
    using st cr by (auto simp: counted_def)
  have p: "k c r div ?w * ?w + k c r mod ?w = k c r" by simp
  have step: "(if Suc (k c r mod ?w) = ?w then 0 else Suc (k c r mod ?w)) = Suc (k c r) mod ?w"
    "(if Suc (k c r mod ?w) = ?w then Suc (k c r div ?w) else k c r div ?w) = Suc (k c r) div ?w"
    by (auto simp: mod_Suc div_Suc)
  have entries: "cell_entries c' r' (cs_crp ?st) = cell_entries c' r' (cs_crp st) @
      (if c' = c \<and> r' = r then [\<lparr>crp_c = c, crp_r = r, crp_p = k c r mod 65536\<rparr>] else [])" for c' r'
    using cr p by (simp add: push_precinct_def cell_entries_def px py Let_def)
  show ?thesis
    unfolding counted_def
  proof (intro allI impI conjI ballI)
    fix e assume "e \<in> set (cs_crp ?st)"
    then show "crp_c e < 256" "crp_r e < 256"
      using st by (auto simp: counted_def push_precinct_def Let_def)
  next
    fix c' r' assume b: "c' < (256 :: nat)" "r' < (256 :: nat)"
    let ?k = "k(c := (k c)(r := Suc (k c r)))"
    show "cs_px ?st c' r' = ?k c' r' mod npw (cell_res t c' r')"
      "cs_py ?st c' r' = ?k c' r' div npw (cell_res t c' r')"
      using st b step px py by (auto simp: counted_def push_precinct_def Let_def)
    show "cell_entries c' r' (cs_crp ?st) =
        map (\<lambda>p. \<lparr>crp_c = c', crp_r = r', crp_p = p mod 65536\<rparr>) [0..<?k c' r']"
      unfolding entries using st b by (auto simp: counted_def)
  qed
qed

text \<open>The number of hits of \<open>(c, r)\<close> in a list of visits.\<close>

definition hits :: "tile \<Rightarrow> coc_marker list \<Rightarrow> dfs_marker \<Rightarrow> int \<Rightarrow> int \<Rightarrow> (nat \<times> nat) list \<Rightarrow> nat \<Rightarrow> nat \<Rightarrow> nat" where
  "hits t cocs dfs y x crs c r = length (filter (\<lambda>cr. cr = (c, r) \<and> hit t cocs dfs y x cr = Some True) crs)"

lemma visit_all_counted:
  assumes "\<forall>cr \<in> set crs. fst cr < 256 \<and> snd cr < 256 \<and> hit t cocs dfs y x cr \<noteq> None" and "counted t k st"
  shows "\<exists>st'. visit_all t cocs dfs y x crs st = Some st'
    \<and> counted t (\<lambda>c r. k c r + hits t cocs dfs y x crs c r) st'"
  using assms
proof (induction crs arbitrary: k st)
  case Nil
  then show ?case by (simp add: hits_def)
next
  case (Cons cr crs)
  obtain c r where cr: "cr = (c, r)" by (cases cr)
  from Cons.prems(1) cr obtain h where h: "hit t cocs dfs y x (c, r) = Some h" and b: "c < 256" "r < 256" by auto
  let ?st = "if h then push_precinct (npw (cell_res t c r)) c r st else st"
  let ?k = "if h then k(c := (k c)(r := Suc (k c r))) else k"
  have "counted t ?k ?st" using Cons.prems(2) counted_push [OF Cons.prems(2) b] by simp
  from Cons.IH [OF _ this] Cons.prems(1) obtain st' where st': "visit_all t cocs dfs y x crs ?st = Some st'"
    "counted t (\<lambda>c r. ?k c r + hits t cocs dfs y x crs c r) st'" by auto
  moreover have "(\<lambda>c' r'. ?k c' r' + hits t cocs dfs y x crs c' r')
      = (\<lambda>c' r'. k c' r' + hits t cocs dfs y x (cr # crs) c' r')"
    by (intro ext) (auto simp: hits_def cr h)
  ultimately show ?case by (simp add: cr visit_hit h)
qed

lemma visit_xs_counted:
  assumes "\<forall>x \<in> set xs. \<forall>cr \<in> set crs. fst cr < 256 \<and> snd cr < 256 \<and> hit t cocs dfs y x cr \<noteq> None" and "counted t k st"
  shows "\<exists>st'. visit_xs t cocs dfs crs y xs st = Some st'
    \<and> counted t (\<lambda>c r. k c r + (\<Sum>x\<leftarrow>xs. hits t cocs dfs y x crs c r)) st'"
  using assms
proof (induction xs arbitrary: k st)
  case (Cons x xs)
  from visit_all_counted [of crs t cocs dfs y x k st] Cons.prems obtain st1 where
    1: "visit_all t cocs dfs y x crs st = Some st1" "counted t (\<lambda>c r. k c r + hits t cocs dfs y x crs c r) st1" by auto
  from Cons.IH [OF _ 1(2)] Cons.prems(1) 1(1) show ?case by (auto simp: add.assoc)
qed simp

lemma visit_ys_counted:
  assumes "\<forall>y \<in> set ys. \<forall>x \<in> set xs. \<forall>cr \<in> set crs. fst cr < 256 \<and> snd cr < 256 \<and> hit t cocs dfs y x cr \<noteq> None"
    and "counted t k st"
  shows "\<exists>st'. visit_ys t cocs dfs crs xs ys st = Some st'
    \<and> counted t (\<lambda>c r. k c r + (\<Sum>y\<leftarrow>ys. \<Sum>x\<leftarrow>xs. hits t cocs dfs y x crs c r)) st'"
  using assms
proof (induction ys arbitrary: k st)
  case (Cons y ys)
  from visit_xs_counted [of xs crs t cocs dfs y k st] Cons.prems obtain st1 where
    1: "visit_xs t cocs dfs crs y xs st = Some st1"
      "counted t (\<lambda>c r. k c r + (\<Sum>x\<leftarrow>xs. hits t cocs dfs y x crs c r)) st1" by auto
  from Cons.IH [OF _ 1(2)] Cons.prems(1) 1(1) show ?case by (auto simp: add.assoc)
qed simp

lemma hits_distinct:
  "distinct crs \<Longrightarrow> hits t cocs dfs y x crs c r
     = (if (c, r) \<in> set crs \<and> hit t cocs dfs y x (c, r) = Some True then 1 else 0)"
  unfolding hits_def by (induction crs) auto

lemma sum_products:
  "(\<Sum>y\<leftarrow>ys. \<Sum>x\<leftarrow>xs. if P x \<and> Q y then 1 else 0) = length (filter Q ys) * length (filter P xs)"
proof -
  have "(\<Sum>x\<leftarrow>xs. if P x \<and> b then 1 else 0) = (if b then length (filter P xs) else 0)" for b
    by (induction xs) auto
  then show ?thesis by (induction ys) auto
qed

section \<open>Grid arithmetic\<close>

text \<open>Division rounding up.\<close>

definition cdiv :: "int \<Rightarrow> int \<Rightarrow> int" where
  "cdiv a b = (a + b - 1) div b"

lemma cdiv_le_iff:
  assumes b: "0 < b"
  shows "cdiv a b \<le> k \<longleftrightarrow> a \<le> k * b"
proof -
  define q r where "q = cdiv a b" and "r = (a + b - 1) mod b"
  have e: "a + b - 1 = q * b + r" "0 \<le> r" "r < b"
    using b by (simp_all add: q_def r_def cdiv_def)
  show ?thesis
  proof (cases "q \<le> k")
    case True
    then have "q * b \<le> k * b" using b by (intro mult_right_mono) auto
    with e have "a \<le> k * b" by linarith
    with True show ?thesis by (simp add: q_def [symmetric])
  next
    case False
    then have "(k + 1) * b \<le> q * b" using b by (intro mult_right_mono) auto
    then have "k * b + b \<le> q * b" by (simp add: algebra_simps)
    with e have "\<not> a \<le> k * b" by linarith
    with False show ?thesis by (simp add: q_def [symmetric])
  qed
qed

lemma cdiv_cdiv: "0 < b \<Longrightarrow> 0 < c \<Longrightarrow> cdiv (cdiv a b) c = cdiv a (b * c)"
proof (rule antisym)
  assume b: "0 < b" "0 < c"
  have le: "a \<le> cdiv a (b * c) * (b * c)" using cdiv_le_iff [of "b * c" a "cdiv a (b * c)"] b by simp
  then have "a \<le> (cdiv a (b * c) * c) * b" by (simp add: ac_simps)
  with b show "cdiv (cdiv a b) c \<le> cdiv a (b * c)" by (simp add: cdiv_le_iff)
  have "cdiv a b \<le> cdiv (cdiv a b) c * c" using cdiv_le_iff [of c "cdiv a b" "cdiv (cdiv a b) c"] b by simp
  then have "a \<le> cdiv (cdiv a b) c * c * b" using b by (simp add: cdiv_le_iff)
  then show "cdiv a (b * c) \<le> cdiv (cdiv a b) c" using b by (simp add: cdiv_le_iff ac_simps)
qed

lemma cdiv_nonneg: "0 < b \<Longrightarrow> 0 \<le> a \<Longrightarrow> 0 \<le> cdiv a b"
  by (simp add: cdiv_def pos_imp_zdiv_nonneg_iff)

lemma cdiv_le: "0 < b \<Longrightarrow> 0 \<le> a \<Longrightarrow> cdiv a b \<le> a"
  by (simp add: cdiv_le_iff mult_le_cancel_left1)

lemma cdiv_pos: "0 < b \<Longrightarrow> 0 < a \<Longrightarrow> 0 < cdiv a b"
  using cdiv_le_iff [of b a 0] by simp

lemma ceildiv_i_cdiv:
  assumes "0 \<le> a" "0 < b" "a + b \<le> 2 ^ 31"
  shows "ceildiv_i a b = cdiv a b"
proof -
  have "i32 (a + (b - 1)) = a + b - 1" using assms by (subst i32_id) auto
  moreover have "(a + b - 1) sdiv b = (a + b - 1) div b"
    using assms by (cases "a + b - 1 = 0") (auto simp: signed_divide_int_def sgn_if)
  ultimately show ?thesis by (simp add: ceildiv_i_def cdiv_def)
qed

text \<open>The positions of a loop from 0, and those on a coarser grid.\<close>

lemma positions_from:
  assumes "0 < s" "b + s \<le> 2 ^ 32" "a \<le> b"
  shows "positions a b s = Some (map (\<lambda>i. a + int i * s) [0..<nat (cdiv (b - a) s)])"
  using assms
proof (induction a b s rule: positions.induct)
  case (1 a b s)
  show ?case
  proof (cases "a < b")
    case False
    with "1.prems" have "b - a = 0" by simp
    then have "cdiv (b - a) s = 0" using "1.prems"(1) by (simp add: cdiv_def)
    with False show ?thesis by (simp add: positions.simps [of a])
  next
    case True
    have g: "\<not> (s \<le> 0 \<or> 2 ^ 32 \<le> a + s)" using "1.prems" True by auto
    have c: "cdiv (b - a) s = cdiv (b - (a + s)) s + 1"
    proof -
      have "b - a + s - 1 = (b - (a + s) + s - 1) + 1 * s" by simp
      then show ?thesis unfolding cdiv_def using "1.prems"(1) by (simp only: div_mult_self1)
    qed
    show ?thesis
    proof (cases "a + s \<le> b")
      case True
      have n: "nat (cdiv (b - a) s) = Suc (nat (cdiv (b - (a + s)) s))"
        unfolding c using True "1.prems"(1) cdiv_nonneg [of s "b - (a + s)"] by simp
      have "positions (a + s) b s = Some (map (\<lambda>i. a + s + int i * s) [0..<nat (cdiv (b - (a + s)) s)])"
        using "1.IH" [OF \<open>a < b\<close> g] "1.prems" True by simp
      then show ?thesis
        unfolding n using \<open>a < b\<close> g
        by (simp add: positions.simps [of a] upt_conv_Cons map_Suc_upt [symmetric] del: upt_Suc)
          (simp add: algebra_simps)
    next
      case False
      have "cdiv (b - a) s = 1"
        unfolding cdiv_def using False \<open>a < b\<close> "1.prems"(1) by (intro int_div_pos_eq) auto
      moreover have "positions (a + s) b s = Some []" using False by (simp add: positions.simps [of "a + s"])
      ultimately show ?thesis using \<open>a < b\<close> g by (simp add: positions.simps [of a])
    qed
  qed
qed

lemma count_multiples: "0 < m \<Longrightarrow> int (length (filter (\<lambda>i. i mod m = 0) [0..<n])) = cdiv (int n) (int m)"
proof (induction n)
  case 0
  then show ?case by (simp add: cdiv_def)
next
  case (Suc n)
  have c: "cdiv (int (Suc n)) (int m) = int (Suc (n + m - 1) div m)"
    using Suc.prems by (simp add: cdiv_def zdiv_int)
  have d: "cdiv (int n) (int m) = int ((n + m - 1) div m)"
    using Suc.prems by (simp add: cdiv_def zdiv_int of_nat_diff)
  have "Suc (n + m - 1) = n + m" using Suc.prems by simp
  then have "Suc (n + m - 1) mod m = n mod m" by simp
  then have "Suc (n + m - 1) div m = (if n mod m = 0 then Suc ((n + m - 1) div m) else (n + m - 1) div m)"
    by (simp only: div_Suc)
  with Suc show ?case unfolding c d by simp
qed

lemma count_grid:
  assumes "0 < s" "0 < m" "0 \<le> X"
  shows "length (filter (\<lambda>x. x mod (s * m) = 0) (map (\<lambda>i. int i * s) [0..<nat (cdiv X s)])) = nat (cdiv X (s * m))"
proof -
  have mm: "int i * s mod (s * m) = 0 \<longleftrightarrow> i mod nat m = 0" for i
  proof -
    have "int i * s mod (s * m) = s * (int i mod m)"
      by (simp only: mult_mod_right mult.commute [of "int i"])
    moreover have "int i mod m = int (i mod nat m)" using assms by (simp add: zmod_int)
    ultimately show ?thesis using assms by simp
  qed
  have "length (filter (\<lambda>x. x mod (s * m) = 0) (map (\<lambda>i. int i * s) [0..<nat (cdiv X s)]))
      = length (filter (\<lambda>i. i mod nat m = 0) [0..<nat (cdiv X s)])"
    unfolding filter_map length_map o_def mm ..
  also have "int \<dots> = cdiv (cdiv X s) m"
    using count_multiples [of "nat m"] assms cdiv_nonneg [of s X] by simp
  also have "\<dots> = cdiv X (s * m)" using assms by (simp add: cdiv_cdiv)
  finally show ?thesis by simp
qed

section \<open>Tiles at the origin\<close>

text \<open>
  The tile as \<open>create\<close> and \<open>parepare_tcomp_structure\<close> lay it out: coordinates and precinct counts of
  every resolution follow from the tile's, sub-sampling and decomposition depths.
\<close>

definition cell_ok :: "tile \<Rightarrow> coc_marker list \<Rightarrow> dfs_marker \<Rightarrow> nat \<Rightarrow> nat \<Rightarrow> bool" where
  "cell_ok t cocs dfs c r \<longleftrightarrow>
     (let coc = cocs ! c; tcp = tcomps t ! c; rp = tc_res tcp ! r; l = unat (NL coc) - r in
      c < length (tcomps t) \<and> r < length (tc_res tcp)
      \<and> l < length (hor_depth dfs) \<and> l < length (ver_depth dfs) \<and> r < length (prw coc) \<and> r < length (prh coc)
      \<and> unat (prw coc ! r) \<le> 15 \<and> unat (prh coc ! r) \<le> 15
      \<and> unat (hor_depth dfs ! l) \<le> 5 \<and> unat (ver_depth dfs ! l) \<le> 5
      \<and> 1 \<le> sub_x tcp \<and> sub_x tcp \<le> 255 \<and> 1 \<le> sub_y tcp \<and> sub_y tcp \<le> 255
      \<and> res_coord rp = res_geometry (tcomp_geometry (tile_coord t) (sub_x tcp) (sub_y tcp))
            (unat (hor_depth dfs ! l)) (unat (ver_depth dfs ! l))
      \<and> npw rp = num_precincts (gx0 (res_coord rp)) (gx1 (res_coord rp)) (unat (prw coc ! r))
      \<and> nph rp = num_precincts (gy0 (res_coord rp)) (gy1 (res_coord rp)) (unat (prh coc ! r)))"

definition grid_ok :: "tile \<Rightarrow> coc_marker list \<Rightarrow> dfs_marker \<Rightarrow> bool" where
  "grid_ok t cocs dfs \<longleftrightarrow> length cocs = 3
     \<and> gx0 (tile_coord t) = 0 \<and> gy0 (tile_coord t) = 0
     \<and> 0 \<le> gx1 (tile_coord t) \<and> gx1 (tile_coord t) \<le> 2 ^ 30
     \<and> 0 \<le> gy1 (tile_coord t) \<and> gy1 (tile_coord t) \<le> 2 ^ 30
     \<and> list_all (\<lambda>c. unat (NL (cocs ! c)) \<le> 5
          \<and> list_all (cell_ok t cocs dfs c) [0..<Suc (unat (NL (cocs ! c)))]) [0..<3]"

lemma grid_cell:
  "grid_ok t cocs dfs \<Longrightarrow> c < 3 \<Longrightarrow> r \<le> unat (NL (cocs ! c)) \<Longrightarrow> cell_ok t cocs dfs c r \<and> r < 256"
  unfolding grid_ok_def list_all_iff using le_trans by fastforce

text \<open>The distance between precincts of a cell on the tile's grid, and their number.\<close>

lemma axis:
  assumes "0 \<le> X" "X \<le> 2 ^ 30" "1 \<le> s" "s \<le> 255" "e \<le> 15" "l \<le> 5"
  shows "ceildiv_i (ceildiv_i 0 s) (2 ^ l) = 0"
    and "num_precincts 0 (ceildiv_i (ceildiv_i X s) (2 ^ l)) e = nat (cdiv X (s * 2 ^ (e + l)))"
proof -
  have l: "(2 :: int) ^ l \<le> 2 ^ 5" using assms(6) by (intro power_increasing) auto
  have e: "(2 :: int) ^ e \<le> 2 ^ 15" using assms(5) by (intro power_increasing) auto
  have z: "cdiv 0 b = 0" if "0 < b" for b using that by (simp add: cdiv_def)
  show "ceildiv_i (ceildiv_i 0 s) (2 ^ l) = 0"
    using assms l z by (simp add: ceildiv_i_cdiv)
  define b where "b = cdiv (cdiv X s) (2 ^ l)"
  have X1: "0 \<le> cdiv X s" "cdiv X s \<le> X" using assms cdiv_nonneg [of s X] cdiv_le [of s X] by auto
  then have b: "0 \<le> b" "b \<le> X"
    using cdiv_nonneg [of "2 ^ l" "cdiv X s"] cdiv_le [of "2 ^ l" "cdiv X s"] by (auto simp: b_def)
  have "ceildiv_i X s = cdiv X s" using assms by (intro ceildiv_i_cdiv) auto
  moreover have "ceildiv_i (cdiv X s) (2 ^ l) = b" unfolding b_def using assms X1 l by (intro ceildiv_i_cdiv) auto
  ultimately have cb: "ceildiv_i (ceildiv_i X s) (2 ^ l) = b" by simp
  have n: "cdiv b (2 ^ e) = cdiv X (s * 2 ^ (e + l))"
    unfolding b_def using assms by (simp add: cdiv_cdiv power_add ac_simps)
  have "ceildiv_i b (2 ^ e) = cdiv b (2 ^ e)" using b e assms by (intro ceildiv_i_cdiv) auto
  moreover have "0 \<le> cdiv b (2 ^ e)" "cdiv b (2 ^ e) \<le> 2 ^ 30"
    using b assms cdiv_nonneg [of "2 ^ e" b] cdiv_le [of "2 ^ e" b] by auto
  ultimately have "num_precincts 0 b e = nat (cdiv b (2 ^ e))"
    using z b by (cases "0 < b") (auto simp: num_precincts_def i32_id u32_id)
  then show "num_precincts 0 (ceildiv_i (ceildiv_i X s) (2 ^ l)) e = nat (cdiv X (s * 2 ^ (e + l)))"
    unfolding cb n .
qed

lemma at_origin: "at_position x 0 s 0 e l \<longleftrightarrow> x mod (s * 2 ^ (e + l)) = 0"
  by (simp add: at_position_def u32_def)

definition dist_x :: "tile \<Rightarrow> coc_marker list \<Rightarrow> dfs_marker \<Rightarrow> nat \<Rightarrow> nat \<Rightarrow> int" where
  "dist_x t cocs dfs c r = sub_x (tcomps t ! c) * 2 ^ (unat (prw (cocs ! c) ! r)
     + unat (hor_depth dfs ! (unat (NL (cocs ! c)) - r)))"

definition dist_y :: "tile \<Rightarrow> coc_marker list \<Rightarrow> dfs_marker \<Rightarrow> nat \<Rightarrow> nat \<Rightarrow> int" where
  "dist_y t cocs dfs c r = sub_y (tcomps t ! c) * 2 ^ (unat (prh (cocs ! c) ! r)
     + unat (ver_depth dfs ! (unat (NL (cocs ! c)) - r)))"

lemma grid_hit:
  assumes g: "grid_ok t cocs dfs" and c: "c < 3" and r: "r \<le> unat (NL (cocs ! c))"
  shows "hit t cocs dfs y x (c, r) = Some (x mod dist_x t cocs dfs c r = 0 \<and> y mod dist_y t cocs dfs c r = 0)"
    and "npw (cell_res t c r) = nat (cdiv (gx1 (tile_coord t)) (dist_x t cocs dfs c r))"
    and "nph (cell_res t c r) = nat (cdiv (gy1 (tile_coord t)) (dist_y t cocs dfs c r))"
proof -
  let ?l = "unat (NL (cocs ! c)) - r" and ?tcp = "tcomps t ! c"
  have o: "gx0 (tile_coord t) = 0" "gy0 (tile_coord t) = 0" "length cocs = 3"
    "0 \<le> gx1 (tile_coord t)" "gx1 (tile_coord t) \<le> 2 ^ 30" "0 \<le> gy1 (tile_coord t)" "gy1 (tile_coord t) \<le> 2 ^ 30"
    using g by (auto simp: grid_ok_def)
  have cell: "c < length (tcomps t)" "r < length (tc_res ?tcp)" "?l < length (hor_depth dfs)" "?l < length (ver_depth dfs)"
    "r < length (prw (cocs ! c))" "r < length (prh (cocs ! c))"
    "unat (prw (cocs ! c) ! r) \<le> 15" "unat (prh (cocs ! c) ! r) \<le> 15"
    "unat (hor_depth dfs ! ?l) \<le> 5" "unat (ver_depth dfs ! ?l) \<le> 5"
    "1 \<le> sub_x ?tcp" "sub_x ?tcp \<le> 255" "1 \<le> sub_y ?tcp" "sub_y ?tcp \<le> 255"
    "res_coord (cell_res t c r) = res_geometry (tcomp_geometry (tile_coord t) (sub_x ?tcp) (sub_y ?tcp))
       (unat (hor_depth dfs ! ?l)) (unat (ver_depth dfs ! ?l))"
    "npw (cell_res t c r) = num_precincts (gx0 (res_coord (cell_res t c r))) (gx1 (res_coord (cell_res t c r))) (unat (prw (cocs ! c) ! r))"
    "nph (cell_res t c r) = num_precincts (gy0 (res_coord (cell_res t c r))) (gy1 (res_coord (cell_res t c r))) (unat (prh (cocs ! c) ! r))"
    using grid_cell [OF g c r] unfolding cell_ok_def Let_def by blast+
  note ax = axis [OF o(4,5) cell(11,12,7,9)] and ay = axis [OF o(6,7) cell(13,14,8,10)]
  have z: "gx0 (res_coord (cell_res t c r)) = 0" "gy0 (res_coord (cell_res t c r)) = 0"
    unfolding cell(15) by (simp_all add: res_geometry_def tcomp_geometry_def o ax(1) ay(1))
  show "hit t cocs dfs y x (c, r) = Some (x mod dist_x t cocs dfs c r = 0 \<and> y mod dist_y t cocs dfs c r = 0)"
    using cell(1-6) c o by (simp add: hit_def arr_get_def z at_origin dist_x_def dist_y_def)
  show "npw (cell_res t c r) = nat (cdiv (gx1 (tile_coord t)) (dist_x t cocs dfs c r))"
    using ax(2) unfolding cell(16) z(1) unfolding cell(15) by (simp add: res_geometry_def tcomp_geometry_def dist_x_def)
  show "nph (cell_res t c r) = nat (cdiv (gy1 (tile_coord t)) (dist_y t cocs dfs c r))"
    using ay(2) unfolding cell(17) z(2) unfolding cell(15) by (simp add: res_geometry_def tcomp_geometry_def dist_y_def)
qed

text \<open>The step of the position loops divides every distance.\<close>

lemma foldl_min:
  "foldl (\<lambda>s e. if s < unat e then s else unat e) a es \<le> a \<and>
     (\<forall>e \<in> set es. foldl (\<lambda>s e. if s < unat e then s else unat e) a es \<le> unat (e :: byte))"
proof (induction es arbitrary: a)
  case (Cons e es)
  from Cons.IH [of "if a < unat e then a else unat e"] show ?case by (auto split: if_splits)
qed simp

lemma min_exponents_grid:
  assumes "\<forall>coc \<in> set cocs. levels coc < length (exps coc)"
  shows "\<exists>s. min_exponents exps levels cocs = Some s
    \<and> (\<forall>coc \<in> set cocs. \<forall>r \<le> levels coc. s \<le> unat (exps coc ! r))"
proof -
  let ?es = "concat (map (\<lambda>coc. map (\<lambda>r. exps coc ! r) [0..<Suc (levels coc)]) cocs)"
  have "those (concat (map (\<lambda>coc. map (arr_get (exps coc)) [0..<Suc (levels coc)]) cocs)) = Some ?es"
  proof -
    have "concat (map (\<lambda>coc. map (arr_get (exps coc)) [0..<Suc (levels coc)]) cocs) = map Some ?es"
      using assms by (induction cocs) (auto simp: arr_get_def)
    moreover have "those (map Some ys) = Some ys" for ys :: "'b list" by (induction ys) auto
    ultimately show ?thesis by simp
  qed
  then have m: "min_exponents exps levels cocs = Some (foldl (\<lambda>s e. if s < unat e then s else unat e) 32 ?es)"
    by (simp add: min_exponents_def del: upt_Suc)
  have "exps coc ! r \<in> set ?es" if "coc \<in> set cocs" "r \<le> levels coc" for coc r
    using that by (force simp del: upt_Suc)
  with foldl_min [of 32 ?es] m show ?thesis by blast
qed

lemma grid_positions:
  assumes s: "s \<le> e" and d: "0 < sub" and X: "0 \<le> X"
  shows "length (filter (\<lambda>x. x mod (sub * 2 ^ (e + l)) = 0) (map (\<lambda>i. int i * 2 ^ s) [0..<nat (cdiv X (2 ^ s))]))
    = nat (cdiv X (sub * 2 ^ (e + l)))"
proof -
  have e: "sub * 2 ^ (e + l) = 2 ^ s * (sub * 2 ^ (e - s + l))"
    using s by (simp add: power_add [symmetric])
  show ?thesis unfolding e by (rule count_grid) (use d X in simp_all)
qed

section \<open>The packet sequence is complete\<close>

definition cells :: "coc_marker list \<Rightarrow> (nat \<times> nat) set" where
  "cells cocs = {(c, r). c < 3 \<and> r \<le> unat (NL (cocs ! c))}"

lemma distinct_concat_map:
  assumes "distinct xs" and "\<And>x. distinct (f x)" and "\<And>x y. x \<noteq> y \<Longrightarrow> set (f x) \<inter> set (f y) = {}"
  shows "distinct (concat (map f xs))"
  using assms(1)
proof (induction xs)
  case (Cons x xs)
  have "set (f x) \<inter> (\<Union>y \<in> set xs. set (f y)) = {}" using Cons.prems assms(3) [of x] by force
  with Cons assms(2) show ?case by simp
qed simp

lemma pcrl_inner_cells: "distinct (pcrl_inner cocs)" "set (pcrl_inner cocs) = cells cocs"
  unfolding pcrl_inner_def cells_def
  by (rule distinct_concat_map, auto simp: distinct_map inj_on_def simp del: upt_Suc)

lemma re_max_le: "c < 3 \<Longrightarrow> Suc (unat (NL (cocs ! c))) \<le> re_max cocs"
  unfolding re_max_def by (auto simp: numeral_3_eq_3 less_Suc_eq)

lemma prcl_inner_cells: "distinct (prcl_inner cocs)" "set (prcl_inner cocs) = cells cocs"
proof -
  show "distinct (prcl_inner cocs)" unfolding prcl_inner_def
    by (rule distinct_concat_map) (auto simp: distinct_map inj_on_def simp del: upt_Suc)
  show "set (prcl_inner cocs) = cells cocs"
  proof -
    have "r < re_max cocs" if "c < 3" "r \<le> unat (NL (cocs ! c))" for c r
      using re_max_le [of c cocs] that by simp
    then show ?thesis unfolding prcl_inner_def cells_def by (auto simp: not_le less_Suc_eq_le image_iff simp del: upt_Suc)
  qed
qed

lemma grid_cells:
  "grid_ok t cocs dfs \<Longrightarrow> (c, r) \<in> cells cocs \<Longrightarrow> cell_ok t cocs dfs c r \<and> c < 256 \<and> r < 256"
  using grid_cell [of t cocs dfs c r] by (auto simp: cells_def)

text \<open>The exponents of the position steps are below those of every cell.\<close>

lemma grid_step:
  assumes g: "grid_ok t cocs dfs" and e: "exps = prw \<or> exps = prh"
  obtains s where "step_exp exps cocs = Some s" "(2 :: int) ^ s \<le> 2 ^ 15"
    "\<And>c r. (c, r) \<in> cells cocs \<Longrightarrow> s \<le> unat (exps (cocs ! c) ! r)"
proof -
  have l: "length cocs = 3" using g by (simp add: grid_ok_def)
  have lv: "\<forall>coc \<in> set cocs. unat (NL coc) < length (exps coc)"
  proof
    fix coc assume "coc \<in> set cocs"
    then obtain c where c: "c < 3" "coc = cocs ! c" using l by (metis in_set_conv_nth)
    then show "unat (NL coc) < length (exps coc)"
      using grid_cells [OF g, of c "unat (NL coc)"] e by (auto simp: cells_def cell_ok_def Let_def)
  qed
  from min_exponents_grid [of cocs "\<lambda>coc. unat (NL coc)" exps] lv obtain s where
    s: "step_exp exps cocs = Some s" "\<forall>coc \<in> set cocs. \<forall>r \<le> unat (NL coc). s \<le> unat (exps coc ! r)"
    by (auto simp: step_exp_def)
  have se: "s \<le> unat (exps (cocs ! c) ! r)" if "(c, r) \<in> cells cocs" for c r
    using that s(2) l by (auto simp: cells_def)
  have "(0, 0) \<in> cells cocs" by (simp add: cells_def)
  with se grid_cells [OF g] e have "s \<le> 15" by (fastforce simp: cell_ok_def Let_def)
  then have "(2 :: int) ^ s \<le> 2 ^ 15" by (intro power_increasing) auto
  with s(1) se that show thesis by blast
qed

lemma grid_count:
  assumes g: "grid_ok t cocs dfs" and d: "distinct inner" and s: "set inner = cells cocs"
    and sx: "\<And>c r. (c, r) \<in> cells cocs \<Longrightarrow> sx \<le> unat (prw (cocs ! c) ! r)"
    and sy: "\<And>c r. (c, r) \<in> cells cocs \<Longrightarrow> sy \<le> unat (prh (cocs ! c) ! r)"
    and xs: "xs = map (\<lambda>i. int i * 2 ^ sx) [0..<nat (cdiv (gx1 (tile_coord t)) (2 ^ sx))]"
    and ys: "ys = map (\<lambda>i. int i * 2 ^ sy) [0..<nat (cdiv (gy1 (tile_coord t)) (2 ^ sy))]"
  shows "(\<Sum>y\<leftarrow>ys. \<Sum>x\<leftarrow>xs. hits t cocs dfs y x inner c r)
      = (if (c, r) \<in> cells cocs then npw (cell_res t c r) * nph (cell_res t c r) else 0)"
proof (cases "(c, r) \<in> cells cocs")
  case True
  then have c: "c < 3" "r \<le> unat (NL (cocs ! c))" by (auto simp: cells_def)
  note gh = grid_hit [OF g c]
  have sub: "0 < sub_x (tcomps t ! c)" "0 < sub_y (tcomps t ! c)"
    using grid_cells [OF g True] by (auto simp: cell_ok_def Let_def)
  have o: "0 \<le> gx1 (tile_coord t)" "0 \<le> gy1 (tile_coord t)" using g by (auto simp: grid_ok_def)
  have "(\<Sum>y\<leftarrow>ys. \<Sum>x\<leftarrow>xs. hits t cocs dfs y x inner c r)
      = (\<Sum>y\<leftarrow>ys. \<Sum>x\<leftarrow>xs. if x mod dist_x t cocs dfs c r = 0 \<and> y mod dist_y t cocs dfs c r = 0 then 1 else 0)"
    using True s by (simp only: hits_distinct [OF d] gh(1)) simp
  also have "\<dots> = length (filter (\<lambda>y. y mod dist_y t cocs dfs c r = 0) ys)
      * length (filter (\<lambda>x. x mod dist_x t cocs dfs c r = 0) xs)"
    by (rule sum_products)
  also have "\<dots> = nph (cell_res t c r) * npw (cell_res t c r)"
    unfolding gh(2,3) dist_x_def dist_y_def xs ys
    using grid_positions [OF sx [OF True] sub(1) o(1)] grid_positions [OF sy [OF True] sub(2) o(2)] by simp
  finally show ?thesis using True by simp
next
  case False
  then show ?thesis using s by (simp add: hits_distinct [OF d])
qed

lemma crp_walk_complete:
  assumes g: "grid_ok t cocs dfs" and d: "distinct inner" and s: "set inner = cells cocs"
  shows "\<exists>st. crp_walk t cocs dfs inner = Some st
    \<and> counted t (\<lambda>c r. if (c, r) \<in> cells cocs then npw (cell_res t c r) * nph (cell_res t c r) else 0) st"
proof -
  let ?X = "gx1 (tile_coord t)" and ?Y = "gy1 (tile_coord t)"
  have o: "gx0 (tile_coord t) = 0" "gy0 (tile_coord t) = 0" "0 \<le> ?X" "?X \<le> 2 ^ 30" "0 \<le> ?Y" "?Y \<le> 2 ^ 30"
    using g by (auto simp: grid_ok_def)
  obtain sx where sx: "step_exp prw cocs = Some sx" "(2 :: int) ^ sx \<le> 2 ^ 15"
    "\<And>c r. (c, r) \<in> cells cocs \<Longrightarrow> sx \<le> unat (prw (cocs ! c) ! r)" using grid_step [OF g, of prw] by blast
  obtain sy where sy: "step_exp prh cocs = Some sy" "(2 :: int) ^ sy \<le> 2 ^ 15"
    "\<And>c r. (c, r) \<in> cells cocs \<Longrightarrow> sy \<le> unat (prh (cocs ! c) ! r)" using grid_step [OF g, of prh] by blast
  define xs where "xs = map (\<lambda>i. int i * 2 ^ sx) [0..<nat (cdiv ?X (2 ^ sx))]"
  define ys where "ys = map (\<lambda>i. int i * 2 ^ sy) [0..<nat (cdiv ?Y (2 ^ sy))]"
  have px: "positions 0 ?X (2 ^ sx) = Some xs" using positions_from [of "2 ^ sx" ?X 0] o sx(2) by (simp add: xs_def)
  have py: "positions 0 ?Y (2 ^ sy) = Some ys" using positions_from [of "2 ^ sy" ?Y 0] o sy(2) by (simp add: ys_def)
  have "visit_ys t cocs dfs inner [] [] crp_state_init = visit_ys t cocs dfs inner xs [] crp_state_init" by simp
  then have w: "crp_walk t cocs dfs inner = visit_ys t cocs dfs inner xs ys crp_state_init"
    unfolding crp_walk_def using sx(1) sy(1) px py o by (cases "ys = []") (simp_all add: u32_id)
  have "\<forall>y \<in> set ys. \<forall>x \<in> set xs. \<forall>cr \<in> set inner. fst cr < 256 \<and> snd cr < 256 \<and> hit t cocs dfs y x cr \<noteq> None"
  proof (intro ballI)
    fix y x cr assume "cr \<in> set inner"
    then obtain c r where cr: "cr = (c, r)" "(c, r) \<in> cells cocs" unfolding s by (metis surj_pair)
    with grid_hit(1) [OF g, of c r y x] grid_cells [OF g] show "fst cr < 256 \<and> snd cr < 256 \<and> hit t cocs dfs y x cr \<noteq> None"
      by (auto simp: cells_def)
  qed
  note vc = visit_ys_counted [OF this counted_init]
  have "(\<lambda>c r. 0 + (\<Sum>y\<leftarrow>ys. \<Sum>x\<leftarrow>xs. hits t cocs dfs y x inner c r))
      = (\<lambda>c r. if (c, r) \<in> cells cocs then npw (cell_res t c r) * nph (cell_res t c r) else 0)"
    using grid_count [OF g d s sx(3) sy(3) xs_def ys_def] by (intro ext) simp
  with vc show ?thesis unfolding w by (simp only:)
qed

text \<open>
  A tile of 16 by 8 samples with three components, the chroma ones sub-sampled, one decomposition
  level and precincts of 8 by 8.
\<close>

definition sample_coc :: "byte \<Rightarrow> coc_marker" where
  "sample_coc po = coc_zero\<lparr>NL := 1, progression_order := po, prw := [2, 3, 0, 0, 0, 0], prh := [2, 3, 0, 0, 0, 0]\<rparr>"

definition sample_dfs :: dfs_marker where
  "sample_dfs = dfs_zero\<lparr>dfs_type := [0, 1, 0, 0, 0, 0], hor_depth := [0, 1, 0, 0, 0, 0], ver_depth := [0, 1, 0, 0, 0, 0]\<rparr>"

definition sample_res :: "geometry \<Rightarrow> nat \<Rightarrow> nat \<Rightarrow> res" where
  "sample_res g l e = \<lparr>res_band = [], res_prec = [], res_idx = 0, res_coord = res_geometry g l l,
     npw = num_precincts (gx0 (res_geometry g l l)) (gx1 (res_geometry g l l)) e,
     nph = num_precincts (gy0 (res_geometry g l l)) (gy1 (res_geometry g l l)) e,
     transform_direction = 1, num_bands = 0\<rparr>"

definition sample_tcomp :: "geometry \<Rightarrow> int \<Rightarrow> tcomp" where
  "sample_tcomp g s = (let tc = tcomp_geometry g s s in
     \<lparr>tc_res = [sample_res tc 1 2, sample_res tc 0 3], tc_idx = 0, tc_coord = tc, sub_x = s, sub_y = s\<rparr>)"

definition sample_tile :: tile where
  "sample_tile = (let g = \<lparr>gx0 = 0, gy0 = 0, gx1 = 16, gy1 = 8\<rparr> in
     \<lparr>tcomps = [sample_tcomp g 1, sample_tcomp g 2, sample_tcomp g 2], tile_idx = 0, tile_coord = g,
       num_components = 3, tile_progression = 3, crp = [], crp_idx = 0, is_crp_complete = False\<rparr>)"

lemma sample_grid: "grid_ok sample_tile (replicate 3 (sample_coc po)) sample_dfs"
proof -
  have "grid_ok sample_tile (replicate 3 (sample_coc 3)) sample_dfs" by code_simp
  then show ?thesis
    by (simp add: grid_ok_def cell_ok_def Let_def sample_coc_def numeral_3_eq_3)
qed

text \<open>
  C17: the packet sequence is complete. For a tile at the origin with PCRL or PRCL progression
  \<open>prepare_precinct_structure\<close> succeeds, and in the sequence it builds
  the entries of every component \<open>c\<close> and resolution \<open>r\<close> are its precincts \<open>0, 1, 2, ...\<close> up to their number,
  each exactly once and in order; there are no other entries.
\<close>

theorem packet_sequence_complete:
  assumes g: "grid_ok t cocs dfs" and po: "progression_order (cocs ! 0) = PCRL \<or> progression_order (cocs ! 0) = PRCL"
    and fresh: "crp t = []"
    and small: "\<And>c r. (c, r) \<in> cells cocs \<Longrightarrow> npw (cell_res t c r) * nph (cell_res t c r) \<le> 65536"
  shows "\<exists>t'. prepare_precinct_structure t cocs dfs = Some (True, t')
    \<and> (\<forall>(c, r) \<in> cells cocs. cell_entries c r (crp t')
          = map (\<lambda>p. \<lparr>crp_c = c, crp_r = r, crp_p = p\<rparr>) [0..<npw (cell_res t c r) * nph (cell_res t c r)])
    \<and> (\<forall>e \<in> set (crp t'). (crp_c e, crp_r e) \<in> cells cocs)"
proof -
  define inner where "inner = (if progression_order (cocs ! 0) = PCRL then pcrl_inner cocs else prcl_inner cocs)"
  have "distinct inner" "set inner = cells cocs"
    using pcrl_inner_cells prcl_inner_cells by (auto simp: inner_def)
  from crp_walk_complete [OF g this] obtain st where st: "crp_walk t cocs dfs inner = Some st"
    "counted t (\<lambda>c r. if (c, r) \<in> cells cocs then npw (cell_res t c r) * nph (cell_res t c r) else 0) st" by blast
  have "0 < length cocs" using g by (simp add: grid_ok_def)
  with po st(1) have p: "prepare_precinct_structure t cocs dfs = Some (True, t\<lparr>crp := cs_crp st, is_crp_complete := True\<rparr>)"
    by (auto simp: prepare_precinct_structure_def arr_get_def inner_def fresh split: if_splits)
  have "cell_entries c r (cs_crp st) = map (\<lambda>p. \<lparr>crp_c = c, crp_r = r, crp_p = p\<rparr>) [0..<npw (cell_res t c r) * nph (cell_res t c r)]"
    if cr: "(c, r) \<in> cells cocs" for c r
  proof -
    from st(2) grid_cells [OF g cr] cr have "cell_entries c r (cs_crp st)
        = map (\<lambda>p. \<lparr>crp_c = c, crp_r = r, crp_p = p mod 65536\<rparr>) [0..<npw (cell_res t c r) * nph (cell_res t c r)]"
      by (simp add: counted_def)
    then show ?thesis using small [OF cr] by (auto intro!: map_cong)
  qed
  moreover have "(crp_c e, crp_r e) \<in> cells cocs" if e: "e \<in> set (cs_crp st)" for e
  proof (rule ccontr)
    assume "(crp_c e, crp_r e) \<notin> cells cocs"
    with st(2) e have "cell_entries (crp_c e) (crp_r e) (cs_crp st) = []" by (simp add: counted_def)
    with e show False by (auto simp: cell_entries_def filter_empty_conv)
  qed
  ultimately show ?thesis using p by auto
qed

theorem packet_sequence_complete_witness:
  "\<exists>t'. prepare_precinct_structure sample_tile (replicate 3 (sample_coc 5)) sample_dfs = Some (True, t')
     \<and> cell_entries 0 1 (crp t') = [\<lparr>crp_c = 0, crp_r = 1, crp_p = 0\<rparr>, \<lparr>crp_c = 0, crp_r = 1, crp_p = 1\<rparr>]"
proof -
  have c: "cells (replicate 3 (sample_coc 5)) = {0, 1, 2} \<times> {0, 1}"
    by (auto simp: cells_def sample_coc_def numeral_3_eq_3 less_Suc_eq le_Suc_eq)
  have n: "npw (cell_res sample_tile c r) * nph (cell_res sample_tile c r) \<le> 65536" if "(c, r) \<in> {0, 1, 2} \<times> {0, 1}" for c r
  proof -
    have "list_all (\<lambda>(c, r). npw (cell_res sample_tile c r) * nph (cell_res sample_tile c r) \<le> 2) [(0, 0), (0, 1), (1, 0), (1, 1), (2, 0), (2, 1)]"
      by code_simp
    with that show ?thesis by auto
  qed
  have "npw (cell_res sample_tile 0 1) * nph (cell_res sample_tile 0 1) = 2" by code_simp
  moreover from packet_sequence_complete [OF sample_grid, of 5] n c have
    "\<exists>t'. prepare_precinct_structure sample_tile (replicate 3 (sample_coc 5)) sample_dfs = Some (True, t')
      \<and> cell_entries 0 1 (crp t') = map (\<lambda>p. \<lparr>crp_c = 0, crp_r = 1, crp_p = p\<rparr>)
          [0..<npw (cell_res sample_tile 0 1) * nph (cell_res sample_tile 0 1)]"
    by (auto simp: sample_tile_def sample_coc_def Let_def)
  ultimately show ?thesis by (simp add: upt_rec)
qed

section \<open>PRCL rearranges PCRL\<close>

text \<open>What a walk has done for one component: its counters and its entries.\<close>

definition proj :: "nat \<Rightarrow> crp_state \<Rightarrow> (nat \<Rightarrow> nat) \<times> (nat \<Rightarrow> nat) \<times> crp_status list" where
  "proj c st = (cs_px st c, cs_py st c, filter (\<lambda>e. crp_c e = c) (cs_crp st))"

lemma push_proj:
  "c < 256 \<Longrightarrow> c' \<noteq> c \<Longrightarrow> proj c' (push_precinct w c r st) = proj c' st"
  "c < 256 \<Longrightarrow> proj c st = proj c st2 \<Longrightarrow> proj c (push_precinct w c r st) = proj c (push_precinct w c r st2)"
  by (auto simp: proj_def push_precinct_def Let_def)

text \<open>A visit acts on its own component only, and in the same way in states that agree on it.\<close>

lemma visit_proj:
  assumes "c < 256" "visit t cocs dfs y x (c, r) st = Some st'"
  shows "c' \<noteq> c \<Longrightarrow> proj c' st' = proj c' st"
    and "proj c st = proj c st2 \<Longrightarrow> \<exists>st2'. visit t cocs dfs y x (c, r) st2 = Some st2' \<and> proj c st2' = proj c st'"
proof -
  obtain h where h: "hit t cocs dfs y x (c, r) = Some h"
    and st': "st' = (if h then push_precinct (npw (cell_res t c r)) c r st else st)"
    using assms(2) by (auto simp: visit_hit)
  show "c' \<noteq> c \<Longrightarrow> proj c' st' = proj c' st"
    using push_proj(1) [OF assms(1)] by (simp add: st')
  show "proj c st = proj c st2 \<Longrightarrow> \<exists>st2'. visit t cocs dfs y x (c, r) st2 = Some st2' \<and> proj c st2' = proj c st'"
    using push_proj(2) [OF assms(1), of st st2 "npw (cell_res t c r)" r] by (auto simp: visit_hit h st')
qed

lemma visit_all_defined: "visit_all t cocs dfs y x crs st \<noteq> None \<longleftrightarrow> (\<forall>cr \<in> set crs. hit t cocs dfs y x cr \<noteq> None)"
proof (induction crs arbitrary: st)
  case (Cons cr crs)
  then show ?case by (cases cr) (auto simp: visit_hit split: bind_splits)
qed simp

lemma visit_all_proj:
  assumes "visit_all t cocs dfs y x crs st = Some st'" "\<forall>cr \<in> set crs. fst cr < 256" "proj c st = proj c st2"
  shows "\<exists>st2'. visit_all t cocs dfs y x (filter (\<lambda>cr. fst cr = c) crs) st2 = Some st2' \<and> proj c st2' = proj c st'"
  using assms
proof (induction crs arbitrary: st st2)
  case (Cons cr crs)
  obtain c' r where cr: "cr = (c', r)" by (cases cr)
  from Cons.prems(1) obtain st1 where st1: "visit t cocs dfs y x (c', r) st = Some st1" "visit_all t cocs dfs y x crs st1 = Some st'"
    by (auto simp: cr split: bind_splits)
  have c': "c' < 256" using Cons.prems(2) by (simp add: cr)
  show ?case
  proof (cases "c' = c")
    case True
    with visit_proj(2) [OF c' st1(1)] Cons.prems(3) obtain st3 where
      "visit t cocs dfs y x (c', r) st2 = Some st3" "proj c st3 = proj c st1" by blast
    with Cons.IH [OF st1(2), of st3] Cons.prems(2) True show ?thesis by (auto simp: cr)
  next
    case False
    with visit_proj(1) [OF c' st1(1), of c] Cons.prems(3) have "proj c st1 = proj c st2" by simp
    with Cons.IH [OF st1(2), of st2] Cons.prems(2) False show ?thesis by (auto simp: cr)
  qed
qed auto

text \<open>
  Inner orders with the same cells, in the same order within each component, and walks that
  agree on every component.
\<close>

definition same_inner :: "(nat \<times> nat) list \<Rightarrow> (nat \<times> nat) list \<Rightarrow> bool" where
  "same_inner crs crs2 \<longleftrightarrow> (\<forall>cr \<in> set crs. fst cr < 256) \<and> (\<forall>c. filter (\<lambda>cr. fst cr = c) crs = filter (\<lambda>cr. fst cr = c) crs2)"

lemma same_inner_set: "same_inner crs crs2 \<Longrightarrow> set crs = set crs2"
proof -
  assume s: "same_inner crs crs2"
  have "cr \<in> set xs \<longleftrightarrow> cr \<in> set (filter (\<lambda>cr'. fst cr' = fst cr) xs)" for cr :: "nat \<times> nat" and xs by simp
  with s show ?thesis unfolding same_inner_def by (metis subsetI subset_antisym)
qed

lemma visit_all_same:
  assumes s: "same_inner crs crs2" and v: "visit_all t cocs dfs y x crs st = Some st'" and p: "\<forall>c. proj c st = proj c st2"
  shows "\<exists>st2'. visit_all t cocs dfs y x crs2 st2 = Some st2' \<and> (\<forall>c. proj c st' = proj c st2')"
proof -
  have d: "\<forall>cr \<in> set crs. fst cr < 256" "\<forall>cr \<in> set crs2. fst cr < 256"
    using s same_inner_set [OF s] by (auto simp: same_inner_def)
  obtain st2' where v2: "visit_all t cocs dfs y x crs2 st2 = Some st2'"
    using visit_all_defined [of t cocs dfs y x] same_inner_set [OF s] v by (metis option.exhaust option.distinct(1))
  have "proj c st' = proj c st2'" for c
  proof -
    from visit_all_proj [OF v d(1)] p obtain a where
      "visit_all t cocs dfs y x (filter (\<lambda>cr. fst cr = c) crs) st2 = Some a" "proj c a = proj c st'" by blast
    moreover from visit_all_proj [OF v2 d(2), of c st2] obtain b where
      "visit_all t cocs dfs y x (filter (\<lambda>cr. fst cr = c) crs2) st2 = Some b" "proj c b = proj c st2'" by blast
    moreover have "filter (\<lambda>cr. fst cr = c) crs = filter (\<lambda>cr. fst cr = c) crs2" using s by (simp add: same_inner_def)
    ultimately show ?thesis by simp
  qed
  with v2 show ?thesis by blast
qed

lemma visit_xs_same:
  assumes "same_inner crs crs2" "visit_xs t cocs dfs crs y xs st = Some st'" "\<forall>c. proj c st = proj c st2"
  shows "\<exists>st2'. visit_xs t cocs dfs crs2 y xs st2 = Some st2' \<and> (\<forall>c. proj c st' = proj c st2')"
  using assms(2,3)
proof (induction xs arbitrary: st st2)
  case (Cons x xs)
  then obtain st1 where st1: "visit_all t cocs dfs y x crs st = Some st1" "visit_xs t cocs dfs crs y xs st1 = Some st'"
    by (auto split: bind_splits)
  from visit_all_same [OF assms(1) st1(1) Cons.prems(2)] obtain st3 where
    st3: "visit_all t cocs dfs y x crs2 st2 = Some st3" "\<forall>c. proj c st1 = proj c st3" by blast
  from Cons.IH [OF st1(2) st3(2)] st3(1) show ?case by simp
qed auto

lemma visit_ys_same:
  assumes "same_inner crs crs2" "visit_ys t cocs dfs crs xs ys st = Some st'" "\<forall>c. proj c st = proj c st2"
  shows "\<exists>st2'. visit_ys t cocs dfs crs2 xs ys st2 = Some st2' \<and> (\<forall>c. proj c st' = proj c st2')"
  using assms(2,3)
proof (induction ys arbitrary: st st2)
  case (Cons y ys)
  then obtain st1 where st1: "visit_xs t cocs dfs crs y xs st = Some st1" "visit_ys t cocs dfs crs xs ys st1 = Some st'"
    by (auto split: bind_splits)
  from visit_xs_same [OF assms(1) st1(1) Cons.prems(2)] obtain st3 where
    st3: "visit_xs t cocs dfs crs2 y xs st2 = Some st3" "\<forall>c. proj c st1 = proj c st3" by blast
  from Cons.IH [OF st1(2) st3(2)] st3(1) show ?case by simp
qed auto

lemma crp_walk_same:
  assumes "same_inner crs crs2" "crp_walk t cocs dfs crs = Some st"
  shows "\<exists>st2. crp_walk t cocs dfs crs2 = Some st2 \<and> (\<forall>c. proj c st = proj c st2)"
  using assms(2) visit_ys_same [OF assms(1), of t cocs dfs _ _ crp_state_init st crp_state_init]
  unfolding crp_walk_def by (auto split: bind_splits if_splits)

lemma same_inner_sym: "same_inner crs crs2 \<Longrightarrow> same_inner crs2 crs"
proof -
  assume s: "same_inner crs crs2"
  with same_inner_set [OF s] have "\<forall>cr \<in> set crs2. fst cr < 256" by (simp add: same_inner_def)
  moreover have "filter (\<lambda>cr. fst cr = c) crs2 = filter (\<lambda>cr. fst cr = c) crs" for c
    using s unfolding same_inner_def by (rule_tac sym) blast
  ultimately show ?thesis unfolding same_inner_def by blast
qed

lemma filter_concat_map: "filter P (concat (map f xs)) = concat (map (\<lambda>x. filter P (f x)) xs)"
  by (induction xs) auto

lemma concat_if: "concat (map (\<lambda>r. if r < n then [f r] else []) [0..<m]) = map f [0..<min n m]"
proof (induction m)
  case (Suc m)
  then show ?case by (cases "m < n") (simp_all add: min_def le_Suc_eq)
qed simp

lemma inner_of_component:
  assumes "c < 3"
  shows "filter (\<lambda>cr. fst cr = c) (pcrl_inner cocs) = map (Pair c) [0..<Suc (unat (NL (cocs ! c)))]"
    and "filter (\<lambda>cr. fst cr = c) (prcl_inner cocs) = map (Pair c) [0..<Suc (unat (NL (cocs ! c)))]"
proof -
  have three: "[0..<3] = [0, 1, 2 :: nat]" and c: "c = 0 \<or> c = 1 \<or> c = 2" using assms by (auto simp: upt_rec)
  have "filter (\<lambda>cr. fst cr = c) (map (Pair c') xs) = (if c' = c then map (Pair c) xs else [])" for c' and xs :: "nat list"
    by (induction xs) auto
  then show "filter (\<lambda>cr. fst cr = c) (pcrl_inner cocs) = map (Pair c) [0..<Suc (unat (NL (cocs ! c)))]"
    unfolding pcrl_inner_def filter_concat_map three using c by (auto simp del: upt_Suc)
  have "filter (\<lambda>cr. fst cr = c) (map (\<lambda>c. (c, r)) (filter (\<lambda>c. \<not> Suc (unat (NL (cocs ! c))) \<le> r) [0..<3]))
      = (if r < Suc (unat (NL (cocs ! c))) then [Pair c r] else [])" for r
    unfolding three using c by auto
  then show "filter (\<lambda>cr. fst cr = c) (prcl_inner cocs) = map (Pair c) [0..<Suc (unat (NL (cocs ! c)))]"
    unfolding prcl_inner_def filter_concat_map
    using re_max_le [OF assms, of cocs] by (simp only: concat_if min_absorb1)
qed

lemma same_inner_pcrl_prcl: "same_inner (pcrl_inner cocs) (prcl_inner cocs)"
  unfolding same_inner_def
proof (intro conjI allI)
  show "\<forall>cr \<in> set (pcrl_inner cocs). fst cr < 256" by (auto simp: pcrl_inner_cells cells_def)
  fix c
  show "filter (\<lambda>cr. fst cr = c) (pcrl_inner cocs) = filter (\<lambda>cr. fst cr = c) (prcl_inner cocs)"
  proof (cases "c < 3")
    case False
    then have "\<forall>cr \<in> cells cocs. fst cr \<noteq> c" by (auto simp: cells_def)
    then show ?thesis by (simp add: filter_empty_conv pcrl_inner_cells prcl_inner_cells)
  qed (simp add: inner_of_component)
qed

lemma mset_by_component:
  fixes xs :: "crp_status list"
  assumes "\<And>c. filter (\<lambda>e. crp_c e = c) xs = filter (\<lambda>e. crp_c e = c) ys"
  shows "mset xs = mset ys"
proof (rule multiset_eqI)
  fix e :: crp_status
  have "count (mset zs) e = count (mset (filter (\<lambda>e'. crp_c e' = crp_c e) zs)) e" for zs by simp
  with assms show "count (mset xs) e = count (mset ys) e" by metis
qed

text \<open>
  C18: PRCL is a local permutation of PCRL. For every tile and header, the two walks are either both undefined
  or both produce a sequence; the sequences hold the same packets, and for each component
  its packets in the same order, so that a packet identifier names the same precinct in both.
\<close>

theorem prcl_permutes_pcrl:
  "case crp_walk t cocs dfs (pcrl_inner cocs) of
     None \<Rightarrow> crp_walk t cocs dfs (prcl_inner cocs) = None
   | Some st \<Rightarrow> (\<exists>st2. crp_walk t cocs dfs (prcl_inner cocs) = Some st2 \<and> mset (cs_crp st2) = mset (cs_crp st)
       \<and> (\<forall>c. filter (\<lambda>e. crp_c e = c) (cs_crp st2) = filter (\<lambda>e. crp_c e = c) (cs_crp st)))"
proof (cases "crp_walk t cocs dfs (pcrl_inner cocs)")
  case None
  with crp_walk_same [OF same_inner_sym [OF same_inner_pcrl_prcl [of cocs]], of t cocs dfs] show ?thesis
    by (cases "crp_walk t cocs dfs (prcl_inner cocs)") auto
next
  case (Some st)
  from crp_walk_same [OF same_inner_pcrl_prcl Some] obtain st2 where
    st2: "crp_walk t cocs dfs (prcl_inner cocs) = Some st2" "\<forall>c. proj c st = proj c st2" by blast
  then have "\<forall>c. filter (\<lambda>e. crp_c e = c) (cs_crp st2) = filter (\<lambda>e. crp_c e = c) (cs_crp st)"
    by (simp add: proj_def)
  with st2(1) Some show ?thesis by (auto intro!: mset_by_component)
qed

end
