(* ===== verification/Tile_Walk.thy ===== *)
theory Tile_Walk
  imports Tile_Handler
begin

text \<open>
  The precinct walk of a frame (\<open>parse\<close>, \<open>flush\<close>, \<open>try_recover\<close> of
  \<open>src/packet_parser/tile_handler.hpp\<close>): precincts are reported in the order of the packet
  sequence, each at most once, across all calls of a frame; and recovery resumes at the precinct
  that the signalled identifier names.
\<close>

section \<open>Progress of the walk\<close>

text \<open>
  From \<open>th\<close> to \<open>th'\<close> the walk has moved on in the same packet sequence, and the callbacks fired
  are entries of the sequence at increasing positions passed on the way.
\<close>

definition walked :: "tile_handler \<Rightarrow> tile_handler \<Rightarrow> crp_status list \<Rightarrow> bool" where
  "walked th th' ev \<longleftrightarrow>
     (tiles th' = [] \<longleftrightarrow> tiles th = []) \<and> crp (tiles th' ! 0) = crp (tiles th ! 0)
     \<and> crp_idx (tiles th ! 0) \<le> crp_idx (tiles th' ! 0)
     \<and> (\<exists>ks. ev = map (\<lambda>k. crp (tiles th ! 0) ! k) ks \<and> sorted_wrt (<) ks
       \<and> (\<forall>k \<in> set ks. crp_idx (tiles th ! 0) \<le> k \<and> k < crp_idx (tiles th' ! 0)
            \<and> k < length (crp (tiles th ! 0))))"

lemma walked_refl [simp]: "walked th th []"
  by (simp add: walked_def)

lemma walked_trans:
  assumes "walked th th1 ev1" and "walked th1 th2 ev2"
  shows "walked th th2 (ev1 @ ev2)"
proof -
  from assms obtain ks1 ks2 where
    1: "ev1 = map (\<lambda>k. crp (tiles th ! 0) ! k) ks1" "sorted_wrt (<) ks1"
      "\<forall>k \<in> set ks1. crp_idx (tiles th ! 0) \<le> k \<and> k < crp_idx (tiles th1 ! 0) \<and> k < length (crp (tiles th ! 0))"
    and 2: "ev2 = map (\<lambda>k. crp (tiles th ! 0) ! k) ks2" "sorted_wrt (<) ks2"
      "\<forall>k \<in> set ks2. crp_idx (tiles th1 ! 0) \<le> k \<and> k < crp_idx (tiles th2 ! 0) \<and> k < length (crp (tiles th ! 0))"
    unfolding walked_def by auto
  have ord: "crp_idx (tiles th ! 0) \<le> crp_idx (tiles th1 ! 0)" "crp_idx (tiles th1 ! 0) \<le> crp_idx (tiles th2 ! 0)"
    using assms by (auto simp: walked_def)
  have "ev1 @ ev2 = map (\<lambda>k. crp (tiles th ! 0) ! k) (ks1 @ ks2)" "sorted_wrt (<) (ks1 @ ks2)"
    "\<forall>k \<in> set (ks1 @ ks2). crp_idx (tiles th ! 0) \<le> k \<and> k < crp_idx (tiles th2 ! 0) \<and> k < length (crp (tiles th ! 0))"
    using 1 2 ord by (auto simp: sorted_wrt_append dest!: bspec)
  moreover have "tiles th2 = [] \<longleftrightarrow> tiles th = []" "crp (tiles th2 ! 0) = crp (tiles th ! 0)"
    using assms by (auto simp: walked_def)
  ultimately show ?thesis unfolding walked_def using ord by (intro conjI exI [of _ "ks1 @ ks2"]) simp_all
qed

lemma tile_put_tile [simp]: "tiles th \<noteq> [] \<Longrightarrow> tiles (put_tile t th) ! 0 = t"
  by (simp add: put_tile_def)

lemma walked_fire:
  assumes "tiles th \<noteq> []" "crp_idx (tiles th ! 0) < length (crp (tiles th ! 0))"
    and "crp t = crp (tiles th ! 0)" "crp_idx (tiles th ! 0) < crp_idx t"
  shows "walked th (put_tile t th) (fire_precinct th (crp (tiles th ! 0) ! crp_idx (tiles th ! 0)))"
  using assms unfolding walked_def fire_precinct_def
  by (auto simp: put_tile_def intro!: exI [of _ "[crp_idx (tiles th ! 0)]"])

lemma walked_move:
  assumes "tiles th \<noteq> []" "tiles th1 = tiles th" "crp t = crp (tiles th ! 0)" "crp_idx (tiles th ! 0) \<le> crp_idx t"
  shows "walked th (put_tile t th1) []"
  using assms unfolding walked_def by (simp add: put_tile_def)

section \<open>The two loops\<close>

text \<open>
  The loops collect the callbacks in an accumulator; what a call adds is the walk's progress.
\<close>

definition walk_result :: "tile_handler \<Rightarrow> crp_status list \<Rightarrow>
    bool \<times> tile_handler \<times> codestream \<times> crp_status list \<Rightarrow> bool" where
  "walk_result th ev r \<longleftrightarrow> (\<exists>ev'. snd (snd (snd r)) = ev @ ev' \<and> walked th (fst (snd r)) ev')"

lemma walk_result_step:
  "walked th th1 ev1 \<Longrightarrow> walk_result th1 (ev @ ev1) r \<Longrightarrow> walk_result th ev r"
  unfolding walk_result_def using walked_trans by fastforce

lemma walk_fire:
  assumes "tiles th \<noteq> []" "crp_idx (tiles th ! 0) < length (crp (tiles th ! 0))"
    and "parse_one_precinct m (tiles th ! 0) cocs cs = Some (True, t, cs1)"
    and "walk_result (put_tile (t\<lparr>crp_idx := Suc (crp_idx t)\<rparr>) th)
      (ev @ fire_precinct th (crp (tiles th ! 0) ! crp_idx (tiles th ! 0))) r"
  shows "walk_result th ev r"
  by (rule walk_result_step [OF walked_fire assms(4)])
    (use assms(1,2) parse_one_precinct_frame [OF assms(3)] in simp_all)

lemma walk_recover:
  assumes "tiles th \<noteq> []" "parse_one_precinct m (tiles th ! 0) cocs cs = Some (False, t, cs1)"
    and "try_recover th t1 cs1 = (ok, th2, t2, cs2)" "crp t1 = crp t" "crp_idx t \<le> crp_idx t1"
    and "if ok then walk_result (put_tile t2 th2) ev r else r = (False, put_tile t2 th2, cs2, ev)"
  shows "walk_result th ev r"
proof -
  note fr = parse_one_precinct_frame [OF assms(2)] try_recover_frame [OF assms(3)]
  have w: "walked th (put_tile t2 th2) []"
    by (rule walked_move) (use assms(1,4,5) fr in simp_all)
  with walk_result_step [OF w, of ev r] assms(6) show ?thesis by (cases ok) (auto simp: walk_result_def)
qed

lemma parse_loop_walked:
  assumes ret: "parse_loop m th cs ev = Some r"
  shows "walk_result th ev r"
proof (rule parse_loop.raw_induct [where P = "\<lambda>m th cs ev r. walk_result th ev r", OF _ ret], goal_cases)
  case (1 f m th cs ev r)
  let ?t = "tiles th ! 0" and ?cocs = "mh_cocs (th_hdr th)"
  consider (stop) "r = (True, th, cs, ev)"
    | (fire) t cs1 where "tiles th \<noteq> []" "crp_idx ?t < length (crp ?t)"
        "parse_one_precinct m ?t ?cocs cs = Some (True, t, cs1)"
        "f m (put_tile (t\<lparr>crp_idx := Suc (crp_idx t)\<rparr>) th) cs1 (ev @ fire_precinct th (crp ?t ! crp_idx ?t)) = Some r"
    | (recover) t cs1 th2 t2 cs2 ok where "tiles th \<noteq> []"
        "parse_one_precinct m ?t ?cocs cs = Some (False, t, cs1)"
        "try_recover th (t\<lparr>crp_idx := Suc (crp_idx t)\<rparr>) cs1 = (ok, th2, t2, cs2)"
        "if ok then f m (put_tile t2 th2) cs2 ev = Some r else r = (False, put_tile t2 th2, cs2, ev)"
    using "1"(2) by (auto simp: Let_def arr_get_def split: if_splits bind_splits prod.splits)
  then show ?case
  proof cases
    case stop
    then show ?thesis by (simp add: walk_result_def)
  next
    case fire
    from walk_fire [OF fire(1-3) "1"(1) [OF fire(4)]] show ?thesis .
  next
    case recover
    from recover(4) "1"(1) show ?thesis
      by (intro walk_recover [OF recover(1-3)]) (auto split: if_splits)
  qed
qed

lemma flush_loop_walked:
  assumes ret: "flush_loop m th cs ev = Some r"
  shows "walk_result th ev r"
proof (rule flush_loop.raw_induct [where P = "\<lambda>m th cs ev r. walk_result th ev r", OF _ ret], goal_cases)
  case (1 f m th cs ev r)
  let ?t = "tiles th ! 0" and ?cocs = "mh_cocs (th_hdr th)"
  consider (stop) "r = (True, th, cs, ev)"
    | (fire) t cs1 where "tiles th \<noteq> []" "crp_idx ?t < length (crp ?t)"
        "parse_one_precinct m ?t ?cocs cs = Some (True, t, cs1)"
        "f m (put_tile (t\<lparr>crp_idx := Suc (crp_idx t)\<rparr>) th) cs1 (ev @ fire_precinct th (crp ?t ! crp_idx ?t)) = Some r"
    | (recover) t cs1 th2 t2 cs2 ok where "tiles th \<noteq> []"
        "parse_one_precinct m ?t ?cocs cs = Some (False, t, cs1)"
        "try_recover th t cs1 = (ok, th2, t2, cs2)"
        "if ok then f m (put_tile t2 th2) cs2 ev = Some r else r = (False, put_tile t2 th2, cs2, ev)"
    using "1"(2) by (auto simp: Let_def arr_get_def split: if_splits bind_splits prod.splits)
  then show ?case
  proof cases
    case stop
    then show ?thesis by (simp add: walk_result_def)
  next
    case fire
    from walk_fire [OF fire(1-3) "1"(1) [OF fire(4)]] show ?thesis .
  next
    case recover
    from recover(4) "1"(1) show ?thesis
      by (intro walk_recover [OF recover(1-3)]) (auto split: if_splits)
  qed
qed

lemma parse_walked: "parse m th cs = Some (ok, th', cs', ev) \<Longrightarrow> walked th th' ev"
  using parse_loop_walked [of m th cs "[]"] by (fastforce simp: parse_def walk_result_def)

lemma flush_walked: "flush m th cs = Some (ok, th', cs', ev) \<Longrightarrow> walked th th' ev"
  using flush_loop_walked [of m th cs "[]"] by (fastforce simp: flush_def walk_result_def)

section \<open>The walk of a frame\<close>

text \<open>What the frame handler does with the tile handler between two restarts.\<close>

datatype walk_op = Append addr nat | Signal u32 u32 | Parse | Flush

fun walk_step :: "memory \<Rightarrow> walk_op \<Rightarrow> tile_handler \<times> codestream \<Rightarrow>
    ((tile_handler \<times> codestream) \<times> crp_status list) option" where
  "walk_step m (Append a n) (th, cs) = Some ((th, append_chunk a n cs), [])"
| "walk_step m (Signal off p) (th, cs) = Some ((append_signal off p th, cs), [])"
| "walk_step m Parse (th, cs) = map_option (\<lambda>(ok, th, cs, ev). ((th, cs), ev)) (parse m th cs)"
| "walk_step m Flush (th, cs) = map_option (\<lambda>(ok, th, cs, ev). ((th, cs), ev)) (flush m th cs)"

lemma walk_step_walked: "walk_step m op (th, cs) = Some ((th', cs'), ev) \<Longrightarrow> walked th th' ev"
  by (cases op) (auto simp: append_signal_def walked_def Let_def dest!: parse_walked flush_walked)

lemma run_walked: "run (walk_step m) ops (th, cs) = Some ((th', cs'), ev) \<Longrightarrow> walked th th' ev"
proof (induction ops arbitrary: th cs ev)
  case (Cons op ops)
  then obtain th1 cs1 ev1 ev2 where "walk_step m op (th, cs) = Some ((th1, cs1), ev1)"
    "run (walk_step m) ops (th1, cs1) = Some ((th', cs'), ev2)" "ev = ev1 @ ev2"
    by (auto split: bind_splits)
  with Cons.IH walk_step_walked walked_trans show ?case by blast
qed simp

text \<open>
  A tile with one component, one resolution and two precincts without bands; packets are empty
  packets of one byte each.
\<close>

definition two_precincts :: tile_handler where
  "two_precincts = (let g = \<lparr>gx0 = 0, gy0 = 0, gx1 = 1, gy1 = 1\<rparr>;
       pr = \<lparr>prec_pband = [], prec_coord = g, res_num = 0, prec_num_bands = 0, ncbw = 0, ncbh = 0,
              prec_use_SOP = 0, prec_use_EPH = 0\<rparr>;
       rp = \<lparr>res_band = [], res_prec = [pr, pr], res_idx = 0, res_coord = g, npw = 2, nph = 1,
              transform_direction = 1, num_bands = 0\<rparr>;
       tc = \<lparr>tc_res = [rp], tc_idx = 0, tc_coord = g, sub_x = 1, sub_y = 1\<rparr>;
       seq = [\<lparr>crp_c = 0, crp_r = 0, crp_p = 0\<rparr>, \<lparr>crp_c = 0, crp_r = 0, crp_p = 1\<rparr>];
       t = \<lparr>tcomps = [tc], tile_idx = 0, tile_coord = g, num_components = 1, tile_progression = 3,
             crp = seq, crp_idx = 0, is_crp_complete = True\<rparr>
     in tile_handler_init\<lparr>tiles := [t], prec_cb := True, ready := True,
          th_hdr := main_header_zero\<lparr>mh_siz := siz_zero\<lparr>Csiz := 1\<rparr>\<rparr>,
          crp_idx_by_pid := idx_by_component seq\<rparr>)"

definition two_packet_ops :: "walk_op list" where
  "two_packet_ops = [Append 0 1, Signal 1 1, Parse, Append 1 1, Flush]"

lemma run_two_packets:
  "map_option snd (run (walk_step (\<lambda>_. 0)) two_packet_ops (two_precincts, codestream_init))
     = Some [\<lparr>crp_c = 0, crp_r = 0, crp_p = 0\<rparr>, \<lparr>crp_c = 0, crp_r = 0, crp_p = 1\<rparr>]"
  by code_simp

text \<open>
  C16: precinct callbacks come in progression order, each at most once. Over any sequence of appended data,
  resync signals, \<open>parse\<close> and \<open>flush\<close> calls of a frame, recoveries included, the precincts reported are
  the entries of the tile's packet sequence at strictly increasing positions.
\<close>

theorem precincts_in_order:
  assumes "run (walk_step m) ops (th, cs) = Some ((th', cs'), ev)"
  shows "\<exists>ks. ev = map (\<lambda>k. crp (tiles th ! 0) ! k) ks \<and> sorted_wrt (<) ks
    \<and> (\<forall>k \<in> set ks. crp_idx (tiles th ! 0) \<le> k \<and> k < crp_idx (tiles th' ! 0) \<and> k < length (crp (tiles th ! 0)))"
  using run_walked [OF assms] by (auto simp: walked_def)

theorem precincts_in_order_witness:
  "\<exists>th' cs' ev ks. run (walk_step (\<lambda>_. 0)) two_packet_ops (two_precincts, codestream_init) = Some ((th', cs'), ev)
     \<and> length ev = 2 \<and> ev = map (\<lambda>k. crp (tiles two_precincts ! 0) ! k) ks \<and> sorted_wrt (<) ks"
proof -
  obtain th' cs' ev where r: "run (walk_step (\<lambda>_. 0)) two_packet_ops (two_precincts, codestream_init) = Some ((th', cs'), ev)"
    and l: "length ev = 2"
    using run_two_packets by (auto simp del: run.simps)
  from precincts_in_order [OF r] l r show ?thesis by blast
qed

text \<open>
  C19: recovery resumes at the precinct the resync point names. After a successful \<open>try_recover\<close> the reader is at the first
  signalled byte beyond its position. The walk continues at the position of the
  packet with the signalled identifier: the packet of component \<open>PID mod nc\<close> that has
  \<open>PID div nc\<close> packets of that component before it, never behind the walk. The signals up to this one are consumed.
\<close>

theorem recovery_resumes_at_signal:
  assumes idx: "crp_idx_by_pid th = idx_by_component (crp t)"
    and rec: "try_recover th t cs = (True, th', t', cs')"
  shows "\<exists>old sig rest. signal_queue th = old @ sig # rest \<and> (\<forall>s \<in> set old. byte_offset s \<le> get_pos cs)
    \<and> get_pos cs < byte_offset sig \<and> signal_queue th' = rest \<and> cs' = reset (byte_offset sig) cs
    \<and> crp_idx t \<le> crp_idx t' \<and> crp_idx t' < length (crp t)
    \<and> crp_c (crp t ! crp_idx t') = unat (pid sig) mod unat (Csiz (mh_siz (th_hdr th)))
    \<and> length (filter (\<lambda>i. crp_c (crp t ! i) = crp_c (crp t ! crp_idx t')) [0..<crp_idx t'])
        = unat (pid sig) div unat (Csiz (mh_siz (th_hdr th)))"
  using rec
proof (rule try_recover_ok)
  fix sig rest
  let ?nc = "unat (Csiz (mh_siz (th_hdr th)))"
  let ?P = "\<lambda>s. byte_offset s \<le> get_pos cs"
  assume d: "dropWhile ?P (signal_queue th) = sig # rest"
    and c: "unat (pid sig) mod ?nc < length (crp_idx_by_pid th)"
    and s: "unat (pid sig) div ?nc < length (crp_idx_by_pid th ! (unat (pid sig) mod ?nc))"
    and th': "th' = th\<lparr>signal_queue := rest\<rparr>" and le: "crp_idx t \<le> crp_idx t'"
    and t': "t' = t\<lparr>crp_idx := crp_idx_by_pid th ! (unat (pid sig) mod ?nc) ! (unat (pid sig) div ?nc)\<rparr>"
    and cs': "cs' = reset (byte_offset sig) cs"
  have q: "signal_queue th = takeWhile ?P (signal_queue th) @ sig # rest"
    using takeWhile_dropWhile_id [of ?P "signal_queue th"] d by simp
  have "\<not> ?P sig" using d by (metis dropWhile_eq_Cons_conv)
  moreover have "\<forall>s \<in> set (takeWhile ?P (signal_queue th)). ?P s" by (auto dest: set_takeWhileD)
  ultimately show ?thesis
    using q th' cs' le idx_by_component_nth [OF c [unfolded idx] s [unfolded idx]]
    by (intro exI [of _ "takeWhile ?P (signal_queue th)"] exI [of _ sig] exI [of _ rest])
      (simp add: t' idx)
qed

theorem recovery_resumes_at_signal_witness:
  "let th = append_signal 9 1 (append_signal 1 0 two_precincts); t = tiles two_precincts ! 0;
       cs = reset 5 (append_chunk 0 20 codestream_init); (ok, th', t', cs') = try_recover th t cs
   in ok \<and> crp_idx t' = 1 \<and> get_pos cs' = 9
     \<and> (\<exists>old sig rest. signal_queue th = old @ sig # rest \<and> get_pos cs < byte_offset sig
          \<and> signal_queue th' = rest \<and> cs' = reset (byte_offset sig) cs)"
proof -
  define th where "th = append_signal 9 1 (append_signal 1 0 two_precincts)"
  define t where "t = tiles two_precincts ! 0"
  define cs where "cs = reset 5 (append_chunk 0 20 codestream_init)"
  obtain ok th' t' cs' where r: "try_recover th t cs = (ok, th', t', cs')" by (metis prod.exhaust)
  have "fst (try_recover th t cs) \<and> crp_idx (fst (snd (snd (try_recover th t cs)))) = 1
      \<and> get_pos (snd (snd (snd (try_recover th t cs)))) = 9"
    unfolding th_def t_def cs_def by code_simp
  then have v: "ok" "crp_idx t' = 1" "get_pos cs' = 9" using r by simp_all
  have r': "try_recover th t cs = (True, th', t', cs')" using r v by simp
  have "crp_idx_by_pid th = idx_by_component (crp t)" unfolding th_def t_def by code_simp
  from recovery_resumes_at_signal [OF this r'] have
    "\<exists>old sig rest. signal_queue th = old @ sig # rest \<and> get_pos cs < byte_offset sig
          \<and> signal_queue th' = rest \<and> cs' = reset (byte_offset sig) cs" by blast
  with r v show ?thesis unfolding th_def [symmetric] t_def [symmetric] cs_def [symmetric] Let_def by simp
qed

end
