(* ===== verification/Packet_Safety.thy ===== *)
theory Packet_Safety
  imports Tile_Walk
begin

text \<open>
  Packet decoding of HT-only codestreams (\<open>src/packet_parser/j2k_packet.cpp\<close>,
  \<open>tile_handler.hpp\<close>) is defined whatever the bytes are: every loop ends, every index into an array of the structure or
  into a staging buffer of a code block is in range (a pointer into a chunk reads a memory that has a byte at every address). The invariant on code blocks that makes it so is
  set up by \<open>restart\<close> and kept by every packet, failed ones included, so that the walk
  over a frame can fail and resume at any packet.
\<close>

section \<open>Loops of the packet header\<close>






section \<open>HT-only code blocks\<close>

text \<open>Code-block style: HT, not mixed.\<close>

definition ht_only :: "coc_marker \<Rightarrow> bool" where
  "ht_only coc \<longleftrightarrow> cbs coc AND 0xC0 = 0x40"


text \<open>
  The invariant of a code block: fewer than 100 passes; no length at all, or a first segment of 2 to 65535 bytes;
  and later segments of at most 65536 bytes per pass.
\<close>

definition ht_blk :: "blk \<Rightarrow> bool" where
  "ht_blk b \<longleftrightarrow> npasses b < 100 \<and> (pass_lengths0 b = 0 \<longrightarrow> pass_lengths1 b = 0)
     \<and> (pass_lengths0 b \<noteq> 0 \<longrightarrow> 2 \<le> pass_lengths0 b \<and> pass_lengths0 b < 2 ^ 16)
     \<and> pass_lengths1 b \<le> npasses b * 2 ^ 16"

lemma ht_blk_upd [simp]:
  "ht_blk (b\<lparr>lblock := l\<rparr>) = ht_blk b" "ht_blk (b\<lparr>modes := x\<rparr>) = ht_blk b" "ht_blk (b\<lparr>ht_plhd := y\<rparr>) = ht_blk b"
  "ht_blk (b\<lparr>blk_incl := i\<rparr>) = ht_blk b" "ht_blk (b\<lparr>blk_zbp := z\<rparr>) = ht_blk b" "ht_blk (b\<lparr>blk_length := n\<rparr>) = ht_blk b"
  "ht_blk (b\<lparr>blk_data := p\<rparr>) = ht_blk b" "ht_blk (b\<lparr>Scup := s\<rparr>) = ht_blk b"
  by (simp_all add: ht_blk_def)






text \<open>The refinement passes: one more length.\<close>

lemma int_log2_small: "int_log2 (Suc 0) = 0" "int_log2 2 = 1"
  by (simp_all add: int_log2.simps)


lemma ex_flag [simp]: "\<exists>b :: bool. b" "Ex Not" "\<exists>b. \<not> b \<and> (b \<longrightarrow> P)"
  by auto

section \<open>One code block\<close>







section \<open>Precincts\<close>

text \<open>A band with room for \<open>n\<close> blocks, all of them in the invariant.\<close>

definition ht_pband :: "nat \<Rightarrow> pband \<Rightarrow> bool" where
  "ht_pband n pb \<longleftrightarrow> (\<exists>incl zbp blks. pb_incl pb = Some incl \<and> pb_zbp pb = Some zbp \<and> pb_blk pb = Some blks
     \<and> n \<le> length incl \<and> n \<le> length zbp \<and> n \<le> length blks \<and> (\<forall>i < n. ht_blk (blks ! i)))"



definition ht_prec :: "prec \<Rightarrow> bool" where
  "ht_prec pr \<longleftrightarrow> prec_num_bands pr \<le> length (prec_pband pr)
     \<and> (\<forall>b < prec_num_bands pr. ht_pband (ncbw pr * ncbh pr) (prec_pband pr ! b))"



section \<open>Code-block bodies\<close>





section \<open>Packets\<close>



section \<open>Tiles\<close>

text \<open>Every entry of the packet sequence names a precinct that exists, in the invariant, of a component that is HT-only.\<close>

abbreviation prec_at :: "tile \<Rightarrow> crp_status \<Rightarrow> prec" where
  "prec_at t ct \<equiv> res_prec (tc_res (tcomps t ! crp_c ct) ! crp_r ct) ! crp_p ct"

definition ht_entry :: "coc_marker list \<Rightarrow> tile \<Rightarrow> crp_status \<Rightarrow> bool" where
  "ht_entry cocs t ct \<longleftrightarrow> crp_c ct < length (tcomps t) \<and> crp_r ct < length (tc_res (tcomps t ! crp_c ct))
     \<and> crp_p ct < length (res_prec (tc_res (tcomps t ! crp_c ct) ! crp_r ct)) \<and> ht_prec (prec_at t ct)
     \<and> crp_c ct < length cocs \<and> ht_only (cocs ! crp_c ct)"

definition ht_tile :: "coc_marker list \<Rightarrow> tile \<Rightarrow> bool" where
  "ht_tile cocs t \<longleftrightarrow> (\<forall>ct \<in> set (crp t). ht_entry cocs t ct)"

text \<open>The tile with one precinct replaced.\<close>

definition put_prec :: "crp_status \<Rightarrow> prec \<Rightarrow> tile \<Rightarrow> tile" where
  "put_prec ct pp t =
     (let tcp = tcomps t ! crp_c ct; rp = tc_res tcp ! crp_r ct;
          rp = rp\<lparr>res_prec := (res_prec rp)[crp_p ct := pp]\<rparr>;
          tcp = tcp\<lparr>tc_res := (tc_res tcp)[crp_r ct := rp]\<rparr>
      in t\<lparr>tcomps := (tcomps t)[crp_c ct := tcp]\<rparr>)"



lemma put_prec_frame [simp]: "crp (put_prec ct pp t) = crp t" "crp_idx (put_prec ct pp t) = crp_idx t"
  by (simp_all add: put_prec_def Let_def)


lemma ht_tile_idx [simp]: "ht_tile cocs (t\<lparr>crp_idx := i\<rparr>) = ht_tile cocs t"
  by (simp add: ht_tile_def ht_entry_def)


section \<open>The walk over the rest of a frame\<close>


section \<open>The incremental walk\<close>







text \<open>
  Without that, the reader can stand beyond a chunk: a \<open>reset\<close> past the end of the chain followed by
  a chunk of one byte at address 20 makes the next read come from address 22.
\<close>

lemma reset_past_end_overruns:
  "fst (get_byte m (append_chunk 20 1 (reset 5 (append_chunk 10 3 codestream_init)))) = m 22"
proof -
  let ?cs = "append_chunk 10 3 codestream_init"
  have wf: "cs_wf ?cs" by (simp add: cs_wf_def cs_walk_def append_chunk_def codestream_init_def cur_len_def)
  have c: "cs_chunks (reset 5 ?cs) = [\<lparr>chunk_base = 10, chunk_len = 3\<rparr>]" by (simp add: append_chunk_def codestream_init_def)
  have p: "cs_pos (reset 5 ?cs) = 5" "cs_wf (reset 5 ?cs)" using wf by (simp_all add: cs_pos_reset cs_wf_reset)
  have "cs_total (reset 5 ?cs) = 3" by (simp add: cs_total_def append_chunk_def codestream_init_def)
  with cs_wf_pos_less_total [OF p(2)] p c have "cur_chunk (reset 5 ?cs) = 1" "cur_offset (reset 5 ?cs) = 2"
    by (auto simp: cs_wf_def cs_walk_def cs_pos_def)
  then show ?thesis by (simp add: get_byte_def append_chunk_def codestream_init_def Let_def numeral_2_eq_2)
qed

section \<open>Restart sets the invariant up\<close>













section \<open>Decoding a frame is defined\<close>









end
