(* ===== verification/Spsc_Queue.thy ===== *)
theory Spsc_Queue
  imports Job_Queue
begin

text \<open>
  The job queue under concurrency: \<open>enqueue_job\<close> runs on the receive thread while
  \<open>dequeue_job\<close> runs on the worker (\<open>src/rtp_receiver.cpp\<close>). Each call is split into its memory
  accesses, and the accesses of the two threads interleave in any order.

  An index is the list of the values stored to it, oldest first. A thread that loads the
  other thread's index with acquire order may get any value not older than the one it
  saw before. The array entries are plain memory: an access to an entry is a data race if
  the other thread has accessed it and no release store that this thread has acquired lies between.
  A step that races says so with the event \<open>Race\<close>.
\<close>

section \<open>The two threads\<close>

datatype producer_pc = P_Idle | P_Check job nat | P_Write job nat nat | P_Publish job nat
datatype consumer_pc = C_Idle | C_Check nat | C_Read nat | C_Publish nat job

record spsc =
  slots :: "nat \<Rightarrow> job"
  tails :: "nat list"
  heads :: "nat list"
  p_seen :: nat
  c_seen :: nat
  p_pc :: producer_pc
  c_pc :: consumer_pc

definition spsc_init :: spsc where
  "spsc_init = \<lparr>slots = (\<lambda>_. job_empty), tails = [0], heads = [0], p_seen = 0, c_seen = 0, p_pc = P_Idle, c_pc = C_Idle\<rparr>"

datatype spsc_event = Accept job | Refuse bool | Take job | Miss bool | Race

text \<open>
  Write number \<open>w\<close> goes to the entry the \<open>w\<close>-th tail value names, and comes before the next store to the
  tail; reads and the head likewise.
\<close>

definition writes_done :: "spsc \<Rightarrow> nat" where
  "writes_done s = length (tails s) - 1 + (case p_pc s of P_Publish _ _ \<Rightarrow> 1 | _ \<Rightarrow> 0)"

definition reads_done :: "spsc \<Rightarrow> nat" where
  "reads_done s = length (heads s) - 1 + (case c_pc s of C_Publish _ _ \<Rightarrow> 1 | _ \<Rightarrow> 0)"

definition write_races :: "spsc \<Rightarrow> nat \<Rightarrow> bool" where
  "write_races s i \<longleftrightarrow> (\<exists>r \<in> {p_seen s..<reads_done s}. heads s ! r = i)"

definition read_races :: "spsc \<Rightarrow> nat \<Rightarrow> bool" where
  "read_races s i \<longleftrightarrow> (\<exists>w \<in> {c_seen s..<writes_done s}. tails s ! w = i)"

text \<open>
  \<open>k\<close> is the position of the value that an acquire load returns; the other accesses have no
  choice. The flag of \<open>Refuse\<close> and \<open>Miss\<close> says whether that was the latest value.
\<close>

definition enqueue_call :: "job \<Rightarrow> spsc \<Rightarrow> (spsc \<times> spsc_event list) option" where
  "enqueue_call j s = (if p_pc s = P_Idle then Some (s\<lparr>p_pc := P_Check j (last (tails s))\<rparr>, []) else None)"

definition producer_step :: "nat \<Rightarrow> spsc \<Rightarrow> (spsc \<times> spsc_event list) option" where
  "producer_step k s =
     (case p_pc s of
        P_Idle \<Rightarrow> None
      | P_Check j tail \<Rightarrow>
          let next_tail = (tail + 1) mod kJobQueueSize
          in if p_seen s \<le> k \<and> k < length (heads s)
             then if next_tail = heads s ! k
                  then Some (s\<lparr>p_seen := k, p_pc := P_Idle\<rparr>, [Refuse (Suc k = length (heads s))])
                  else Some (s\<lparr>p_seen := k, p_pc := P_Write j tail next_tail\<rparr>, [])
             else None
      | P_Write j tail next_tail \<Rightarrow>
          Some (s\<lparr>slots := (slots s)(tail := j), p_pc := P_Publish j next_tail\<rparr>, if write_races s tail then [Race] else [])
      | P_Publish j next_tail \<Rightarrow> Some (s\<lparr>tails := tails s @ [next_tail], p_pc := P_Idle\<rparr>, [Accept j]))"

definition dequeue_call :: "spsc \<Rightarrow> (spsc \<times> spsc_event list) option" where
  "dequeue_call s = (if c_pc s = C_Idle then Some (s\<lparr>c_pc := C_Check (last (heads s))\<rparr>, []) else None)"

definition consumer_step :: "nat \<Rightarrow> spsc \<Rightarrow> (spsc \<times> spsc_event list) option" where
  "consumer_step k s =
     (case c_pc s of
        C_Idle \<Rightarrow> None
      | C_Check head \<Rightarrow>
          if c_seen s \<le> k \<and> k < length (tails s)
          then if head = tails s ! k
               then Some (s\<lparr>c_seen := k, c_pc := C_Idle\<rparr>, [Miss (Suc k = length (tails s))])
               else Some (s\<lparr>c_seen := k, c_pc := C_Read head\<rparr>, [])
          else None
      | C_Read head \<Rightarrow> Some (s\<lparr>c_pc := C_Publish ((head + 1) mod kJobQueueSize) (slots s head)\<rparr>, if read_races s head then [Race] else [])
      | C_Publish next_head j \<Rightarrow> Some (s\<lparr>heads := heads s @ [next_head], c_pc := C_Idle\<rparr>, [Take j]))"

text \<open>One access of either thread.\<close>

datatype turn = Enqueue job | Producer nat | Dequeue | Consumer nat

fun spsc_step :: "turn \<Rightarrow> spsc \<Rightarrow> (spsc \<times> spsc_event list) option" where
  "spsc_step (Enqueue j) s = enqueue_call j s"
| "spsc_step (Producer k) s = producer_step k s"
| "spsc_step Dequeue s = dequeue_call s"
| "spsc_step (Consumer k) s = consumer_step k s"

section \<open>The specification\<close>

text \<open>
  A list of at most \<open>kJobQueueSize - 1\<close> jobs. A refusal on a current head means the list is full, a miss on a current
  tail that it is empty; a data race is an error.
\<close>

fun fifo_monitor :: "job list \<Rightarrow> spsc_event \<Rightarrow> job list option" where
  "fifo_monitor q (Accept j) = (if length q < kJobQueueSize - 1 then Some (q @ [j]) else None)"
| "fifo_monitor q (Refuse fresh) = (if fresh \<and> length q \<noteq> kJobQueueSize - 1 then None else Some q)"
| "fifo_monitor q (Take j) = (case q of [] \<Rightarrow> None | x # xs \<Rightarrow> if x = j then Some xs else None)"
| "fifo_monitor q (Miss fresh) = (if fresh \<and> q \<noteq> [] then None else Some q)"
| "fifo_monitor q Race = None"

section \<open>The invariant\<close>

abbreviation sent :: "spsc \<Rightarrow> nat" where "sent s \<equiv> length (tails s) - 1"
abbreviation got :: "spsc \<Rightarrow> nat" where "got s \<equiv> length (heads s) - 1"

definition counted_index :: "nat list \<Rightarrow> bool" where
  "counted_index xs \<longleftrightarrow> xs \<noteq> [] \<and> xs = map (\<lambda>i. i mod kJobQueueSize) [0..<length xs]"

text \<open>What the place of a thread in its call says, for \<open>n\<close> completed calls and the last count \<open>k\<close> seen of the other thread.\<close>

fun producer_ok :: "nat \<Rightarrow> nat \<Rightarrow> (nat \<Rightarrow> job) \<Rightarrow> producer_pc \<Rightarrow> bool" where
  "producer_ok n k xs P_Idle \<longleftrightarrow> True"
| "producer_ok n k xs (P_Check j tail) \<longleftrightarrow> tail = n mod kJobQueueSize"
| "producer_ok n k xs (P_Write j tail next_tail) \<longleftrightarrow>
     tail = n mod kJobQueueSize \<and> next_tail = Suc n mod kJobQueueSize \<and> Suc n < k + kJobQueueSize"
| "producer_ok n k xs (P_Publish j next_tail) \<longleftrightarrow>
     next_tail = Suc n mod kJobQueueSize \<and> Suc n < k + kJobQueueSize \<and> xs (n mod kJobQueueSize) = j"

fun consumer_ok :: "nat \<Rightarrow> nat \<Rightarrow> (nat \<Rightarrow> job) \<Rightarrow> consumer_pc \<Rightarrow> bool" where
  "consumer_ok n k xs C_Idle \<longleftrightarrow> True"
| "consumer_ok n k xs (C_Check head) \<longleftrightarrow> head = n mod kJobQueueSize"
| "consumer_ok n k xs (C_Read head) \<longleftrightarrow> head = n mod kJobQueueSize \<and> n < k"
| "consumer_ok n k xs (C_Publish next_head j) \<longleftrightarrow>
     next_head = Suc n mod kJobQueueSize \<and> n < k \<and> xs (n mod kJobQueueSize) = j"

definition spsc_inv :: "job list \<Rightarrow> spsc \<Rightarrow> bool" where
  "spsc_inv q s \<longleftrightarrow> counted_index (tails s) \<and> counted_index (heads s)
     \<and> p_seen s \<le> got s \<and> got s \<le> c_seen s \<and> c_seen s \<le> sent s \<and> sent s < p_seen s + kJobQueueSize
     \<and> q = map (\<lambda>i. slots s (i mod kJobQueueSize)) [got s..<sent s]
     \<and> producer_ok (sent s) (p_seen s) (slots s) (p_pc s)
     \<and> consumer_ok (got s) (c_seen s) (slots s) (c_pc s)"

lemma counted_nth: "counted_index xs \<Longrightarrow> i < length xs \<Longrightarrow> xs ! i = i mod kJobQueueSize"
  unfolding counted_index_def by (metis add.left_neutral length_map length_upt nth_map nth_upt diff_zero)

lemma counted_last: "counted_index xs \<Longrightarrow> last xs = (length xs - 1) mod kJobQueueSize"
  using counted_nth [of xs "length xs - 1"] by (simp add: last_conv_nth counted_index_def)

lemma counted_snoc: "counted_index xs \<Longrightarrow> counted_index (xs @ [Suc (length xs - 1) mod kJobQueueSize])"
  by (cases xs rule: rev_cases) (auto simp: counted_index_def)

lemma mod_apart:
  fixes i j n :: nat
  assumes "i < j" "j < i + n"
  shows "i mod n \<noteq> j mod n"
proof
  assume "i mod n = j mod n"
  with assms(1) have "n dvd j - i" using mod_eq_dvd_iff_nat [of i j n] by simp
  then have "n \<le> j - i" using assms(1) by (simp add: dvd_imp_le)
  with assms show False by simp
qed

text \<open>Neither thread touches an entry the other may still be using.\<close>

lemma no_write_race:
  assumes i: "spsc_inv q s" and pc: "p_pc s = P_Write j tail nt"
  shows "\<not> write_races s tail"
proof
  assume "write_races s tail"
  then obtain r where r: "p_seen s \<le> r" "r < reads_done s" "heads s ! r = tail" by (auto simp: write_races_def)
  have "r < length (heads s) \<and> r < sent s"
    using i r(2) by (auto simp: spsc_inv_def reads_done_def counted_index_def split: consumer_pc.splits)
  moreover from this have "r mod kJobQueueSize = sent s mod kJobQueueSize"
    using i pc r(3) by (simp add: spsc_inv_def counted_nth)
  moreover have "sent s < r + kJobQueueSize" using i r(1) by (simp add: spsc_inv_def)
  ultimately show False using mod_apart by blast
qed

lemma no_read_race:
  assumes i: "spsc_inv q s" and pc: "c_pc s = C_Read head"
  shows "\<not> read_races s head"
proof
  assume "read_races s head"
  then obtain w where w: "c_seen s \<le> w" "w < writes_done s" "tails s ! w = head" by (auto simp: read_races_def)
  have "w < length (tails s) \<and> w < got s + kJobQueueSize"
    using i w(2) by (auto simp: spsc_inv_def writes_done_def counted_index_def Suc_le_eq split: producer_pc.splits)
  moreover from this have "w mod kJobQueueSize = got s mod kJobQueueSize"
    using i pc w(3) by (simp add: spsc_inv_def counted_nth)
  moreover have "got s < w" using i pc w(1) by (simp add: spsc_inv_def)
  ultimately show False using mod_apart by metis
qed

section \<open>Every step is allowed\<close>

lemma not_empty_counted [simp]: "counted_index xs \<Longrightarrow> xs \<noteq> []" "counted_index xs \<Longrightarrow> 0 < length xs"
  by (auto simp: counted_index_def)

lemma enqueue_call_inv:
  "spsc_inv q s \<Longrightarrow> enqueue_call j s = Some (s', ev) \<Longrightarrow> ev = [] \<and> spsc_inv q s'"
  by (auto simp: enqueue_call_def spsc_inv_def counted_last split: if_splits)

lemma dequeue_call_inv:
  "spsc_inv q s \<Longrightarrow> dequeue_call s = Some (s', ev) \<Longrightarrow> ev = [] \<and> spsc_inv q s'"
  by (auto simp: dequeue_call_def spsc_inv_def counted_last split: if_splits)

text \<open>What the acquire loads tell: a full ring is full, and room for one more is there.\<close>

lemma full_test:
  assumes "spsc_inv q s" "p_pc s = P_Check j tail" "p_seen s \<le> k" "k < length (heads s)"
  shows "(tail + 1) mod kJobQueueSize = heads s ! k \<longleftrightarrow> sent s = k + (kJobQueueSize - 1)"
    and "sent s < k + kJobQueueSize" "k \<le> sent s"
proof -
  show b: "sent s < k + kJobQueueSize" "k \<le> sent s" using assms by (auto simp: spsc_inv_def)
  have t: "(tail + 1) mod kJobQueueSize = Suc (sent s) mod kJobQueueSize" "heads s ! k = k mod kJobQueueSize"
    using assms by (auto simp: spsc_inv_def counted_nth mod_Suc_eq)
  show "(tail + 1) mod kJobQueueSize = heads s ! k \<longleftrightarrow> sent s = k + (kJobQueueSize - 1)"
  proof
    assume e: "(tail + 1) mod kJobQueueSize = heads s ! k"
    show "sent s = k + (kJobQueueSize - 1)"
    proof (rule ccontr)
      assume "sent s \<noteq> k + (kJobQueueSize - 1)"
      with b have "k < Suc (sent s)" "Suc (sent s) < k + kJobQueueSize" by auto
      from mod_apart [OF this] t e show False by simp
    qed
  next
    assume "sent s = k + (kJobQueueSize - 1)"
    then have "Suc (sent s) = k + kJobQueueSize" using kJobQueueSize_pos(1) by simp
    with t show "(tail + 1) mod kJobQueueSize = heads s ! k" by (metis mod_add_self2)
  qed
qed

lemma empty_test:
  assumes "spsc_inv q s" "c_pc s = C_Check head" "c_seen s \<le> k" "k < length (tails s)"
  shows "head = tails s ! k \<longleftrightarrow> k = got s" and "got s \<le> k"
proof -
  have b: "got s \<le> k" "k < got s + kJobQueueSize" using assms by (auto simp: spsc_inv_def)
  then show "got s \<le> k" by simp
  have t: "head = got s mod kJobQueueSize" "tails s ! k = k mod kJobQueueSize"
    using assms by (auto simp: spsc_inv_def counted_nth)
  show "head = tails s ! k \<longleftrightarrow> k = got s"
    using mod_apart [of "got s" k kJobQueueSize] b t by (cases "k = got s") auto
qed

lemma producer_step_inv:
  assumes i: "spsc_inv q s" and st: "producer_step k s = Some (s', ev)"
  shows "\<exists>q'. observe fifo_monitor ev q = Some q' \<and> spsc_inv q' s'"
proof (cases "p_pc s")
  case P_Idle
  with st show ?thesis by (simp add: producer_step_def)
next
  case (P_Check j tail)
  with st have k: "p_seen s \<le> k" "k < length (heads s)" by (auto simp: producer_step_def Let_def split: if_splits)
  note full = full_test [OF i P_Check k]
  have k': "k \<le> got s" using k(2) by simp
  have len: "length q = sent s - got s" using i by (simp add: spsc_inv_def)
  show ?thesis
  proof (cases "sent s = k + (kJobQueueSize - 1)")
    case True
    with st P_Check k full(1) have s': "s' = s\<lparr>p_seen := k, p_pc := P_Idle\<rparr>" "ev = [Refuse (Suc k = length (heads s))]"
      by (auto simp: producer_step_def Let_def)
    have "spsc_inv q s'" using i full k' by (simp add: spsc_inv_def s')
    with True s' len show ?thesis by auto
  next
    case False
    with st P_Check k full(1) have s': "s' = s\<lparr>p_seen := k, p_pc := P_Write j tail ((tail + 1) mod kJobQueueSize)\<rparr>" "ev = []"
      by (auto simp: producer_step_def Let_def)
    have "Suc (sent s) < k + kJobQueueSize" using full(2) False kJobQueueSize_pos(1) by linarith
    moreover have "tail = sent s mod kJobQueueSize" using i P_Check by (simp add: spsc_inv_def)
    ultimately show ?thesis using i full k' by (simp add: spsc_inv_def s' mod_Suc_eq)
  qed
next
  case (P_Write j tail next_tail)
  with st no_write_race [OF i P_Write] have s': "s' = s\<lparr>slots := (slots s)(tail := j), p_pc := P_Publish j next_tail\<rparr>" "ev = []"
    by (auto simp: producer_step_def)
  have t: "tail = sent s mod kJobQueueSize" "sent s < got s + kJobQueueSize" "got s \<le> sent s"
    using i P_Write by (auto simp: spsc_inv_def)
  have keep: "n mod kJobQueueSize \<noteq> tail" if "got s \<le> n" "n < sent s" for n
    using mod_apart [of n "sent s" kJobQueueSize] that t by simp
  have c: "consumer_ok (got s) (c_seen s) ((slots s)(tail := j)) (c_pc s)"
    using i keep [of "got s"] by (cases "c_pc s") (auto simp: spsc_inv_def)
  show ?thesis using i P_Write c keep by (auto simp: spsc_inv_def s')
next
  case (P_Publish j next_tail)
  with st have s': "s' = s\<lparr>tails := tails s @ [next_tail], p_pc := P_Idle\<rparr>" "ev = [Accept j]"
    by (auto simp: producer_step_def)
  have nt: "next_tail = Suc (sent s) mod kJobQueueSize" "Suc (sent s) < p_seen s + kJobQueueSize" "slots s (sent s mod kJobQueueSize) = j"
    and c: "counted_index (tails s)" and gs: "got s \<le> sent s" "p_seen s \<le> got s"
    and q: "q = map (\<lambda>i. slots s (i mod kJobQueueSize)) [got s..<sent s]" using i P_Publish by (auto simp: spsc_inv_def)
  have "length q < kJobQueueSize - 1" using nt(2) gs q by simp
  moreover obtain n where n: "length (tails s) = Suc n" using c by (cases "tails s") (auto dest: not_empty_counted)
  then have "spsc_inv (q @ [j]) s'"
    using i gs counted_snoc [OF c] nt(2,3) by (simp add: spsc_inv_def s' nt(1))
  ultimately show ?thesis by (simp add: s')
qed

lemma consumer_step_inv:
  assumes i: "spsc_inv q s" and st: "consumer_step k s = Some (s', ev)"
  shows "\<exists>q'. observe fifo_monitor ev q = Some q' \<and> spsc_inv q' s'"
proof (cases "c_pc s")
  case C_Idle
  with st show ?thesis by (simp add: consumer_step_def)
next
  case (C_Check head)
  with st have k: "c_seen s \<le> k" "k < length (tails s)" by (auto simp: consumer_step_def split: if_splits)
  note empty = empty_test [OF i C_Check k]
  have k': "k \<le> sent s" using k(2) by simp
  have q: "q = map (\<lambda>i. slots s (i mod kJobQueueSize)) [got s..<sent s]" using i by (simp add: spsc_inv_def)
  show ?thesis
  proof (cases "k = got s")
    case True
    with st C_Check k empty(1) have s': "s' = s\<lparr>c_seen := k, c_pc := C_Idle\<rparr>" "ev = [Miss (Suc k = length (tails s))]"
      by (auto simp: consumer_step_def)
    have "spsc_inv q s'" using i empty(2) k' by (simp add: spsc_inv_def s')
    moreover have "Suc k = length (tails s) \<Longrightarrow> q = []" using True q by simp
    ultimately show ?thesis using s' by auto
  next
    case False
    with st C_Check k empty(1) have s': "s' = s\<lparr>c_seen := k, c_pc := C_Read head\<rparr>" "ev = []"
      by (auto simp: consumer_step_def)
    have "got s < k" using empty(2) False by simp
    with i C_Check k' show ?thesis by (simp add: spsc_inv_def s')
  qed
next
  case (C_Read head)
  with st no_read_race [OF i C_Read] have s': "s' = s\<lparr>c_pc := C_Publish ((head + 1) mod kJobQueueSize) (slots s head)\<rparr>" "ev = []"
    by (auto simp: consumer_step_def)
  with i C_Read show ?thesis by (simp add: spsc_inv_def mod_Suc_eq)
next
  case (C_Publish next_head j)
  with st have s': "s' = s\<lparr>heads := heads s @ [next_head], c_pc := C_Idle\<rparr>" "ev = [Take j]"
    by (auto simp: consumer_step_def)
  have nh: "next_head = Suc (got s) mod kJobQueueSize" "got s < c_seen s" "c_seen s \<le> sent s" "slots s (got s mod kJobQueueSize) = j"
    and c: "counted_index (heads s)"
    and q: "q = map (\<lambda>i. slots s (i mod kJobQueueSize)) [got s..<sent s]" using i C_Publish by (auto simp: spsc_inv_def)
  have "q = j # map (\<lambda>i. slots s (i mod kJobQueueSize)) [Suc (got s)..<sent s]"
    using nh(2-4) q by (simp add: upt_conv_Cons)
  moreover obtain n where n: "length (heads s) = Suc n" using c by (cases "heads s") (auto dest: not_empty_counted)
  then have "spsc_inv (map (\<lambda>i. slots s (i mod kJobQueueSize)) [Suc (got s)..<sent s]) s'"
    using i counted_snoc [OF c] nh(2,3) by (simp add: spsc_inv_def s' nh(1))
  ultimately show ?thesis by (simp add: s')
qed

lemma spsc_step_inv:
  assumes "spsc_inv q s" "spsc_step a s = Some (s', ev)"
  shows "\<exists>q'. observe fifo_monitor ev q = Some q' \<and> spsc_inv q' s'"
proof (cases a)
  case (Enqueue j)
  with assms enqueue_call_inv [of q s j s' ev] show ?thesis by auto
next
  case (Producer k)
  with assms producer_step_inv show ?thesis by simp
next
  case Dequeue
  with assms dequeue_call_inv [of q s s' ev] show ?thesis by auto
next
  case (Consumer k)
  with assms consumer_step_inv show ?thesis by simp
qed

interpretation threads: observed_machine spsc_step "\<lambda>_. True" fifo_monitor spsc_inv
  using spsc_step_inv by unfold_locales blast

lemma spsc_init_inv: "spsc_inv [] spsc_init"
  by (simp add: spsc_inv_def spsc_init_def counted_index_def)

section \<open>Calls without interference\<close>

text \<open>A state between calls of both threads, as the sequential model has it.\<close>

definition same_queue :: "spsc \<Rightarrow> receiver \<Rightarrow> bool" where
  "same_queue s rx \<longleftrightarrow> p_pc s = P_Idle \<and> c_pc s = C_Idle \<and> slots s = job_queue rx
     \<and> last (tails s) = job_tail rx \<and> last (heads s) = job_head rx"

lemma enqueue_alone:
  assumes i: "spsc_inv q s" and m: "same_queue s rx"
  shows "\<exists>s' ev. run spsc_step (if fst (enqueue_job j rx) then [Enqueue j, Producer (got s), Producer 0, Producer 0]
            else [Enqueue j, Producer (got s)]) s = Some (s', ev)
       \<and> same_queue s' (snd (enqueue_job j rx)) \<and> ev = [if fst (enqueue_job j rx) then Accept j else Refuse True]"
proof -
  have g: "p_seen s \<le> got s" "got s < length (heads s)" "Suc (got s) = length (heads s)" "heads s ! got s = job_head rx"
    "heads s \<noteq> []"
    using i m by (auto simp: spsc_inv_def same_queue_def last_conv_nth)
  have "\<not> write_races (s\<lparr>p_seen := got s, p_pc := P_Write j (last (tails s)) nt\<rparr>) t" for t nt
    using m by (simp add: write_races_def reads_done_def same_queue_def)
  with g m show ?thesis
    by (auto simp: enqueue_job_def Let_def enqueue_call_def producer_step_def same_queue_def)
qed

lemma dequeue_alone:
  assumes i: "spsc_inv q s" and m: "same_queue s rx"
  shows "\<exists>s' ev. run spsc_step (if dequeue_job rx \<noteq> None then [Dequeue, Consumer (sent s), Consumer 0, Consumer 0]
            else [Dequeue, Consumer (sent s)]) s = Some (s', ev)
       \<and> (case dequeue_job rx of None \<Rightarrow> same_queue s' rx \<and> ev = [Miss True] | Some (j, rx') \<Rightarrow> same_queue s' rx' \<and> ev = [Take j])"
proof -
  have g: "c_seen s \<le> sent s" "sent s < length (tails s)" "Suc (sent s) = length (tails s)" "tails s ! sent s = job_tail rx"
    "tails s \<noteq> []"
    using i m by (auto simp: spsc_inv_def same_queue_def last_conv_nth)
  have "\<not> read_races (s\<lparr>c_seen := sent s, c_pc := C_Read (last (heads s))\<rparr>) t" for t
    using m by (simp add: read_races_def writes_done_def same_queue_def)
  with g m show ?thesis
    by (auto simp: dequeue_job_def dequeue_call_def consumer_step_def same_queue_def)
qed

section \<open>The property\<close>

text \<open>The jobs accepted and the jobs taken, in order.\<close>

definition accepted :: "spsc_event list \<Rightarrow> job list" where
  "accepted ev = concat (map (\<lambda>e. case e of Accept j \<Rightarrow> [j] | _ \<Rightarrow> []) ev)"

definition taken_jobs :: "spsc_event list \<Rightarrow> job list" where
  "taken_jobs ev = concat (map (\<lambda>e. case e of Take j \<Rightarrow> [j] | _ \<Rightarrow> []) ev)"

lemma accepted_taken_simps [simp]:
  "accepted [] = []" "accepted (e # es) = (case e of Accept j \<Rightarrow> [j] | _ \<Rightarrow> []) @ accepted es"
  "taken_jobs [] = []" "taken_jobs (e # es) = (case e of Take j \<Rightarrow> [j] | _ \<Rightarrow> []) @ taken_jobs es"
  by (simp_all add: accepted_def taken_jobs_def)

lemma observe_fifo:
  "observe fifo_monitor ev q = Some q' \<Longrightarrow> length q < kJobQueueSize \<Longrightarrow>
     Race \<notin> set ev \<and> q @ accepted ev = taken_jobs ev @ q' \<and> length q' < kJobQueueSize"
proof (induction ev arbitrary: q)
  case (Cons e ev)
  then show ?case
    by (cases e) (force split: if_splits list.splits)+
qed simp

text \<open>
  C12: the job queue is safe and first-in first-out under every interleaving of the two threads' memory
  accesses, stale index loads included. No access to an array entry is a data race; the jobs taken are the jobs accepted, in order,
  up to fewer than \<open>kJobQueueSize\<close> still queued; and a call that sees the other thread's latest index reports full
  exactly on a full queue and empty exactly on an empty one.
\<close>

theorem spsc_interleavings_fifo:
  assumes "run spsc_step turns spsc_init = Some (s, ev)"
  shows "Race \<notin> set ev \<and> (\<exists>q. observe fifo_monitor ev [] = Some q
    \<and> accepted ev = taken_jobs ev @ q \<and> length q < kJobQueueSize)"
proof -
  from threads.run_observed [OF spsc_init_inv _ assms] obtain q where
    "observe fifo_monitor ev [] = Some q" by (auto simp: list_all_iff)
  with observe_fifo [OF this] show ?thesis by auto
qed

text \<open>The producer is between its write and its store when the worker looks; the worker then uses a stale tail once.\<close>

definition demo_turns :: "turn list" where
  "demo_turns = [Enqueue (demo_job 1), Producer 0, Producer 0, Dequeue, Consumer 0, Producer 0,
     Dequeue, Consumer 0, Dequeue, Consumer 1, Consumer 0, Enqueue (demo_job 2), Producer 0, Consumer 0, Producer 0, Producer 0]"

theorem spsc_interleavings_fifo_witness:
  "\<exists>s ev. run spsc_step demo_turns spsc_init = Some (s, ev)
     \<and> ev = [Miss True, Accept (demo_job 1), Miss False, Take (demo_job 1), Accept (demo_job 2)]
     \<and> Race \<notin> set ev \<and> (\<exists>q. accepted ev = taken_jobs ev @ q \<and> q = [demo_job 2])"
proof -
  obtain s ev where r: "run spsc_step demo_turns spsc_init = Some (s, ev)"
    and ev: "ev = [Miss True, Accept (demo_job 1), Miss False, Take (demo_job 1), Accept (demo_job 2)]"
    by (simp add: demo_turns_def spsc_init_def enqueue_call_def producer_step_def dequeue_call_def consumer_step_def
        write_races_def read_races_def writes_done_def reads_done_def kJobQueueSize_def kRingSize_def)
  from spsc_interleavings_fifo [OF r] r ev show ?thesis by auto
qed

end
