(* ===== verification/Frame_Observers.thy ===== *)
theory Frame_Observers
  imports Frame_Handler
begin

text \<open>
  The consumers of the frame handler (\<open>src/frame_handler.hpp\<close>) only observe: which of the slab, chunk,
  abort, frame-ready and re-latch callbacks are registered changes what is called, and nothing
  else. A handler with some of them behaves as one with all of them whose other calls are
  ignored. The two resync callbacks take decisions and are kept.
\<close>

section \<open>What a consumer sees\<close>

fun wanted :: "callbacks \<Rightarrow> event \<Rightarrow> bool" where
  "wanted c (Ev_Chunk off a n) = chunk_cb c"
| "wanted c (Ev_Abort r) = frame_abort_cb c"
| "wanted c (Ev_Ready cs intact) = frame_ready_cb c"
| "wanted c (Ev_Release i) = release_slab_cb c"
| "wanted c (Ev_Relatch r) = relatch_cb c"
| "wanted c e = True"

definition everything :: "callbacks \<Rightarrow> callbacks" where
  "everything c = c\<lparr>release_slab_cb := True, frame_ready_cb := True, chunk_cb := True, frame_abort_cb := True, relatch_cb := True\<rparr>"

text \<open>The handler with the callbacks \<open>c\<close>; every other field is untouched and updated independently of them.\<close>

definition with_cb :: "callbacks \<Rightarrow> frame_handler \<Rightarrow> frame_handler" where
  "with_cb c fh = fh\<lparr>cbk := c\<rparr>"

lemma with_cb_fields [simp]:
  "cbk (with_cb c fh) = c"
  "held_slabs (with_cb c fh) = held_slabs fh" "chain_total_bytes (with_cb c fh) = chain_total_bytes fh"
  "total_frames (with_cb c fh) = total_frames fh" "trunc_frames (with_cb c fh) = trunc_frames fh"
  "lost_frames (with_cb c fh) = lost_frames fh" "start_SOD (with_cb c fh) = start_SOD fh"
  "is_parsing_failure (with_cb c fh) = is_parsing_failure fh" "is_passed_header (with_cb c fh) = is_passed_header fh"
  "tile_hndr (with_cb c fh) = tile_hndr fh" "fh_cs (with_cb c fh) = fh_cs fh" "geom_sig (with_cb c fh) = geom_sig fh"
  "relatch_k (with_cb c fh) = relatch_k fh" "parse_fail_streak (with_cb c fh) = parse_fail_streak fh"
  "frame_parse_failed (with_cb c fh) = frame_parse_failed fh" "relatches (with_cb c fh) = relatches fh"
  "resync_armed (with_cb c fh) = resync_armed fh" "resync_soft (with_cb c fh) = resync_soft fh"
  "abort_armed (with_cb c fh) = abort_armed fh"
  by (simp_all add: with_cb_def)

lemma with_cb_update [simp]:
  "(with_cb c fh)\<lparr>held_slabs := v0\<rparr> = with_cb c (fh\<lparr>held_slabs := v0\<rparr>)"
  "(with_cb c fh)\<lparr>chain_total_bytes := v1\<rparr> = with_cb c (fh\<lparr>chain_total_bytes := v1\<rparr>)"
  "(with_cb c fh)\<lparr>total_frames := v2\<rparr> = with_cb c (fh\<lparr>total_frames := v2\<rparr>)"
  "(with_cb c fh)\<lparr>trunc_frames := v3\<rparr> = with_cb c (fh\<lparr>trunc_frames := v3\<rparr>)"
  "(with_cb c fh)\<lparr>lost_frames := v4\<rparr> = with_cb c (fh\<lparr>lost_frames := v4\<rparr>)"
  "(with_cb c fh)\<lparr>start_SOD := v5\<rparr> = with_cb c (fh\<lparr>start_SOD := v5\<rparr>)"
  "(with_cb c fh)\<lparr>is_parsing_failure := v6\<rparr> = with_cb c (fh\<lparr>is_parsing_failure := v6\<rparr>)"
  "(with_cb c fh)\<lparr>is_passed_header := v7\<rparr> = with_cb c (fh\<lparr>is_passed_header := v7\<rparr>)"
  "(with_cb c fh)\<lparr>tile_hndr := v8\<rparr> = with_cb c (fh\<lparr>tile_hndr := v8\<rparr>)"
  "(with_cb c fh)\<lparr>fh_cs := v9\<rparr> = with_cb c (fh\<lparr>fh_cs := v9\<rparr>)"
  "(with_cb c fh)\<lparr>geom_sig := v10\<rparr> = with_cb c (fh\<lparr>geom_sig := v10\<rparr>)"
  "(with_cb c fh)\<lparr>relatch_k := v11\<rparr> = with_cb c (fh\<lparr>relatch_k := v11\<rparr>)"
  "(with_cb c fh)\<lparr>parse_fail_streak := v12\<rparr> = with_cb c (fh\<lparr>parse_fail_streak := v12\<rparr>)"
  "(with_cb c fh)\<lparr>frame_parse_failed := v13\<rparr> = with_cb c (fh\<lparr>frame_parse_failed := v13\<rparr>)"
  "(with_cb c fh)\<lparr>relatches := v14\<rparr> = with_cb c (fh\<lparr>relatches := v14\<rparr>)"
  "(with_cb c fh)\<lparr>resync_armed := v15\<rparr> = with_cb c (fh\<lparr>resync_armed := v15\<rparr>)"
  "(with_cb c fh)\<lparr>resync_soft := v16\<rparr> = with_cb c (fh\<lparr>resync_soft := v16\<rparr>)"
  "(with_cb c fh)\<lparr>abort_armed := v17\<rparr> = with_cb c (fh\<lparr>abort_armed := v17\<rparr>)"
  by (simp_all add: with_cb_def)

definition seen_by :: "callbacks \<Rightarrow> frame_handler \<times> event list \<Rightarrow> frame_handler \<times> event list" where
  "seen_by c r = (with_cb c (fst r), filter (wanted c) (snd r))"

lemma everything_fields [simp]:
  "release_slab_cb (everything c)" "frame_ready_cb (everything c)" "chunk_cb (everything c)" "frame_abort_cb (everything c)"
  "relatch_cb (everything c)" "resync_gap_cb (everything c) = resync_gap_cb c" "resync_point_cb (everything c) = resync_point_cb c"
  by (simp_all add: everything_def)

lemma wanted_maps [simp]:
  "filter (wanted c) (map Ev_Precinct ps) = map Ev_Precinct ps"
  "filter (wanted c) (map Ev_Release is) = (if release_slab_cb c then map Ev_Release is else [])"
  by (auto simp: filter_map o_def)

text \<open>A step that \<open>c\<close> sees as \<open>r\<close>, when all see \<open>r'\<close>; for steps that may be undefined and for those with a flag.\<close>

definition observes :: "callbacks \<Rightarrow> frame_handler \<times> event list \<Rightarrow> frame_handler \<times> event list \<Rightarrow> bool" where
  "observes c r r' \<longleftrightarrow> cbk (fst r') = everything c \<and> r = seen_by c r'"

definition observes_opt :: "callbacks \<Rightarrow> (frame_handler \<times> event list) option \<Rightarrow> (frame_handler \<times> event list) option \<Rightarrow> bool" where
  "observes_opt c = rel_option (observes c)"

definition observes_flag ::
    "callbacks \<Rightarrow> (bool \<times> frame_handler \<times> event list) option \<Rightarrow> (bool \<times> frame_handler \<times> event list) option \<Rightarrow> bool" where
  "observes_flag c = rel_option (rel_prod (=) (observes c))"

lemma observesE:
  assumes "observes c r r'"
  obtains fh ev where "r' = (fh, ev)" "r = (with_cb c fh, filter (wanted c) ev)" "cbk fh = everything c"
  using assms by (cases r') (auto simp: observes_def seen_by_def)

lemma observes_optE:
  assumes "observes_opt c r r'"
  obtains (undef) "r = None" "r' = None"
  | (def) fh ev where "r' = Some (fh, ev)" "r = Some (with_cb c fh, filter (wanted c) ev)" "cbk fh = everything c"
  using assms by (cases r; cases r') (auto simp: observes_opt_def elim: observesE)

lemma observes_flagE:
  assumes "observes_flag c r r'"
  obtains (undef) "r = None" "r' = None"
  | (def) b fh ev where "r' = Some (b, fh, ev)" "r = Some (b, with_cb c fh, filter (wanted c) ev)" "cbk fh = everything c"
  using assms by (cases r; cases r') (auto simp: observes_flag_def rel_prod_conv elim: observesE)

lemma observes_iff [simp]:
  "observes c (g, ev') (fh, ev) \<longleftrightarrow> cbk fh = everything c \<and> g = with_cb c fh \<and> ev' = filter (wanted c) ev"
  "observes_opt c None None" "observes_opt c (Some r) (Some r') = observes c r r'"
  "observes_flag c None None" "observes_flag c (Some (b, r)) (Some (b', r')) \<longleftrightarrow> b = b' \<and> observes c r r'"
  by (auto simp: observes_def seen_by_def observes_opt_def observes_flag_def)

section \<open>The parts\<close>

lemma fire_abort_observed:
  "cbk fh = everything c \<Longrightarrow> observes c (fire_abort r (with_cb c fh)) (fire_abort r fh)"
  by (auto simp: fire_abort_def Let_def)

lemma deliver_chunk_observed:
  "cbk fh = everything c \<Longrightarrow> observes c (deliver_chunk off a n (with_cb c fh)) (deliver_chunk off a n fh)"
  by (auto simp: deliver_chunk_def)

lemma release_held_slabs_observed:
  "cbk fh = everything c \<Longrightarrow> observes c (release_held_slabs (with_cb c fh)) (release_held_slabs fh)"
  by (auto simp: release_held_slabs_def)

lemma restart_tiles_observed:
  assumes "cbk fh = everything c"
  obtains (undef) "restart_tiles fh = None" "restart_tiles (with_cb c fh) = None"
  | (def) fh' where "restart_tiles fh = Some fh'" "restart_tiles (with_cb c fh) = Some (with_cb c fh')" "cbk fh' = everything c"
  using assms by (cases "restart (tile_hndr fh)") (auto simp: restart_tiles_def)

lemma end_frame_streak_cb [simp]:
  "end_frame_streak b (with_cb c fh) = with_cb c (end_frame_streak b fh)" "cbk (end_frame_streak b fh) = cbk fh"
  "fh_cs (end_frame_streak b fh) = fh_cs fh"
  by (auto simp: end_frame_streak_def)

lemma append_data_cb [simp]:
  "append_data a n i (with_cb c fh) = with_cb c (append_data a n i fh)" "cbk (append_data a n i fh) = cbk fh"
  by (auto simp: append_data_def)

lemma action_observed: "cbk fh = everything c \<Longrightarrow> observes c (action r (with_cb c fh)) (action r fh)"
  by (auto simp: action_def Let_def split: prod.splits)

lemma check_geometry_cb:
  "check_geometry sig (with_cb c fh) = map_sum id (map_prod id (with_cb c)) (check_geometry sig fh)"
  "check_geometry sig fh = Inr (rl, fh') \<Longrightarrow> cbk fh' = cbk fh"
  by (auto simp: check_geometry_def Let_def dest: arg_cong [of _ _ cbk] split: if_splits)

lemma on_gap_observed:
  assumes "cbk fh = everything c"
  shows "observes c (on_gap p (with_cb c fh)) (on_gap p fh)"
  using fire_abort_observed [OF assms, of kAbortGap] assms
  by (auto simp: on_gap_def Let_def elim!: observesE)

text \<open>An abort, the release of the slabs and the reset of the tiles, as at the slab cap and for stale chunks.\<close>

lemma close_observed:
  assumes "cbk fh = everything c"
  obtains fh1 ev1 fh2 ev2 where "fire_abort r fh = (fh1, ev1)" "fire_abort r (with_cb c fh) = (with_cb c fh1, filter (wanted c) ev1)"
    "release_held_slabs fh1 = (fh2, ev2)" "release_held_slabs (with_cb c fh1) = (with_cb c fh2, filter (wanted c) ev2)"
    "cbk fh2 = everything c"
proof -
  from fire_abort_observed [OF assms] obtain fh1 ev1 where
    1: "fire_abort r fh = (fh1, ev1)" "fire_abort r (with_cb c fh) = (with_cb c fh1, filter (wanted c) ev1)"
      "cbk fh1 = everything c" by (rule observesE)
  from release_held_slabs_observed [OF 1(3)] that 1 show thesis by (auto elim!: observesE)
qed

lemma on_slab_cap_observed:
  assumes "cbk fh = everything c"
  shows "observes_opt c (on_slab_cap (with_cb c fh)) (on_slab_cap fh)"
proof -
  obtain fh1 ev1 fh2 ev2 where 1: "fire_abort kAbortSlabCap fh = (fh1, ev1)"
    "fire_abort kAbortSlabCap (with_cb c fh) = (with_cb c fh1, filter (wanted c) ev1)"
    "release_held_slabs fh1 = (fh2, ev2)" "release_held_slabs (with_cb c fh1) = (with_cb c fh2, filter (wanted c) ev2)"
    "cbk fh2 = everything c" by (rule close_observed [OF assms])
  from 1(5) show ?thesis
    by (cases rule: restart_tiles_observed) (simp_all add: on_slab_cap_def 1 assms)
qed

lemma drop_stale_observed:
  assumes "cbk fh = everything c"
  shows "observes_opt c (drop_stale (with_cb c fh)) (drop_stale fh)"
proof -
  obtain fh1 ev1 fh2 ev2 where 1: "fire_abort kAbortMissedEOC fh = (fh1, ev1)"
    "fire_abort kAbortMissedEOC (with_cb c fh) = (with_cb c fh1, filter (wanted c) ev1)"
    "release_held_slabs fh1 = (fh2, ev2)" "release_held_slabs (with_cb c fh1) = (with_cb c fh2, filter (wanted c) ev2)"
    "cbk fh2 = everything c" by (rule close_observed [OF assms])
  from 1(5) show ?thesis
    by (cases rule: restart_tiles_observed) (simp_all add: drop_stale_def 1 assms)
qed

lemma skip_body_observed:
  assumes "cbk fh = everything c"
  shows "observes_opt c (skip_body p (with_cb c fh)) (skip_body p fh)"
proof -
  let ?close = "\<lambda>fh. if is_parsing_failure fh \<or> is_passed_header fh
      then let (fh, ev) = fire_abort kAbortDamagedEOC fh
           in (end_frame_streak False (fh\<lparr>trunc_frames := trunc_frames fh + 1, total_frames := total_frames fh + 1\<rparr>), ev)
      else (fh, [])"
  have "observes c (?close (with_cb c fh)) (?close fh)"
    using fire_abort_observed [OF assms, of kAbortDamagedEOC] assms by (auto elim!: observesE)
  then obtain fh1 ev1 where
    1: "?close fh = (fh1, ev1)" "?close (with_cb c fh) = (with_cb c fh1, filter (wanted c) ev1)" "cbk fh1 = everything c"
    by (rule observesE)
  from 1(3) have "cbk (fh1\<lparr>is_parsing_failure := False, is_passed_header := False\<rparr>) = everything c" by simp
  from release_held_slabs_observed [OF this] obtain fh2 ev2 where
    2: "release_held_slabs (fh1\<lparr>is_parsing_failure := False, is_passed_header := False\<rparr>) = (fh2, ev2)"
      "release_held_slabs (with_cb c (fh1\<lparr>is_parsing_failure := False, is_passed_header := False\<rparr>)) = (with_cb c fh2, filter (wanted c) ev2)"
      "cbk fh2 = everything c" by (rule observesE)
  from 2(3) show ?thesis
    unfolding skip_body_def 1(1,2) by (cases rule: restart_tiles_observed) (simp_all add: 2 assms)
qed

lemma latch_header_observed:
  assumes "cbk fh = everything c"
  shows "observes_flag c (latch_header m U sig rl (with_cb c fh)) (latch_header m U sig rl fh)"
proof (cases "parse_main_header m (reset 0 (fh_cs fh)) (th_hdr (tile_hndr fh))")
  case None
  then show ?thesis by (simp add: latch_header_def)
next
  case (Some r)
  obtain sod h cs where r: "r = (sod, h, cs)" by (cases r)
  show ?thesis
  proof (cases "if sod = 0 then Some (False, (tile_hndr fh)\<lparr>th_hdr := h\<rparr>) else create U ((tile_hndr fh)\<lparr>th_hdr := h\<rparr>)")
    case None
    then show ?thesis using Some r by (simp add: latch_header_def split: if_splits)
  next
    case made: (Some q)
    obtain ok th where q: "q = (ok, th)" by (cases q)
    have "cbk (fh\<lparr>start_SOD := sod, fh_cs := cs, tile_hndr := th\<rparr>) = everything c" using assms by simp
    from fire_abort_observed [OF this] obtain fh2 ev2 where
      2: "fire_abort kAbortParse (fh\<lparr>start_SOD := sod, fh_cs := cs, tile_hndr := th\<rparr>) = (fh2, ev2)"
        "fire_abort kAbortParse (with_cb c (fh\<lparr>start_SOD := sod, fh_cs := cs, tile_hndr := th\<rparr>)) = (with_cb c fh2, filter (wanted c) ev2)"
        "cbk fh2 = everything c" by (rule observesE)
    from made q 2 show ?thesis
      by (cases "sod = 0") (auto simp: latch_header_def Some r assms Let_def split: option.splits)
  qed
qed

lemma judge_header_observed:
  assumes "cbk fh = everything c"
  shows "observes_flag c (judge_header m U p (with_cb c fh)) (judge_header m U p fh)"
proof -
  let ?check = "\<lambda>sig fh. if 2 \<le> pkt_MH m p then check_geometry sig fh else Inr (None, fh)"
  obtain sig sod where s: "(if 2 \<le> pkt_MH m p then geometry_signature m (j2k_payload p) (psize p) else (0, None)) = (sig, sod)"
    by (metis prod.exhaust)
  from fire_abort_observed [OF assms] obtain fh1 ev1 where
    1: "fire_abort kAbortParse fh = (fh1, ev1)" "fire_abort kAbortParse (with_cb c fh) = (with_cb c fh1, filter (wanted c) ev1)"
      "cbk fh1 = everything c" by (rule observesE)
  show ?thesis
  proof (cases "?check sig fh")
    case (Inl u)
    then have "?check sig (with_cb c fh) = Inl u" by (auto simp: check_geometry_cb split: if_splits)
    with Inl s 1 show ?thesis by (simp add: judge_header_def)
  next
    case (Inr q)
    obtain rl fh2 where q: "q = (rl, fh2)" by (cases q)
    with Inr have c2: "cbk fh2 = everything c" "?check sig (with_cb c fh) = Inr (rl, with_cb c fh2)"
      using assms check_geometry_cb(2) [of sig fh rl fh2] by (auto simp: check_geometry_cb(1) split: if_splits)
    with Inr q s latch_header_observed [OF c2(1), of m U sig rl] show ?thesis
      by (auto simp: judge_header_def Let_def split: option.splits)
  qed
qed

lemma main_packet_observed:
  assumes "cbk fh = everything c"
  shows "observes_flag c (main_packet m U p (with_cb c fh)) (main_packet m U p fh)"
  using drop_stale_observed [OF assms]
proof (cases rule: observes_optE)
  case undef
  then show ?thesis by (simp add: main_packet_def)
next
  case (def fh1 ev1)
  let ?fh = "fh1\<lparr>is_parsing_failure := False, frame_parse_failed := False\<rparr>"
  have "cbk ?fh = everything c" using def(3) by simp
  from deliver_chunk_observed [OF this] obtain fh3 ev3 where
    3: "deliver_chunk (chain_total_bytes fh1) (j2k_payload p) (psize p) ?fh = (fh3, ev3)"
      "deliver_chunk (chain_total_bytes fh1) (j2k_payload p) (psize p) (with_cb c ?fh) = (with_cb c fh3, filter (wanted c) ev3)"
      "cbk fh3 = everything c" by (rule observesE)
  have "cbk (append_data (j2k_payload p) (psize p) (slab_idx p) fh3) = everything c" using 3(3) by simp
  from judge_header_observed [OF this, of m U p] show ?thesis
    by (cases rule: observes_flagE) (simp_all add: main_packet_def def 3)
qed

lemma parsed_observed:
  assumes "cbk fh = everything c"
  shows "observes c
    (let (fh, ev3) = action r (with_cb c fh);
         (fh, ev4) = (if is_parsing_failure fh then fire_abort kAbortParse fh else (fh, []))
     in (fh, filter (wanted c) ev1 @ ev3 @ ev4))
    (let (fh, ev3) = action r fh;
         (fh, ev4) = (if is_parsing_failure fh then fire_abort kAbortParse fh else (fh, []))
     in (fh, ev1 @ ev3 @ ev4))"
proof -
  from action_observed [OF assms] obtain fh2 ev3 where
    2: "action r fh = (fh2, ev3)" "action r (with_cb c fh) = (with_cb c fh2, filter (wanted c) ev3)"
      "cbk fh2 = everything c" by (rule observesE)
  from fire_abort_observed [OF 2(3), of kAbortParse] 2 show ?thesis by (auto elim!: observesE)
qed

lemma body_packet_observed:
  assumes "cbk fh = everything c"
  shows "observes_opt c (body_packet m p (with_cb c fh)) (body_packet m p fh)"
proof -
  from deliver_chunk_observed [OF assms] obtain fh1 ev1 where
    1: "deliver_chunk (chain_total_bytes fh) (j2k_payload p) (psize p) fh = (fh1, ev1)"
      "deliver_chunk (chain_total_bytes fh) (j2k_payload p) (psize p) (with_cb c fh) = (with_cb c fh1, filter (wanted c) ev1)"
      "cbk fh1 = everything c" by (rule observesE)
  define fh2 where "fh2 = append_data (j2k_payload p) (psize p) (slab_idx p) fh1"
  define rb where "rb = ucast (chain_total_bytes fh1) + pkt_POS m p"
  define fh3 where "fh3 = fh2\<lparr>tile_hndr := append_signal rb (pkt_PID m p) (tile_hndr fh2)\<rparr>"
  define offer where "offer \<longleftrightarrow> resync_armed fh3 \<and> resync_point_cb c"
  define fh4 where "fh4 = (if offer \<and> accept_point p then fh3\<lparr>resync_armed := False\<rparr> else fh3)"
  define ev2 where "ev2 = (if offer then [Ev_Resync_Point rb (pkt_PID m p)] else [])"
  have c4: "cbk fh4 = everything c" "cbk fh2 = everything c" "cbk fh3 = everything c" using 1(3) by (simp_all add: fh4_def fh3_def fh2_def)
  have b: "body_packet m p fh = (if pkt_ORDB m p \<and> is_passed_header fh2
      then if \<not> is_parsing_failure fh4 \<and> \<not> resync_soft fh4
           then do { r \<leftarrow> parse m (tile_hndr fh4) (fh_cs fh4);
                     Some (let (fh, ev3) = action r fh4;
                        (fh, ev4) = (if is_parsing_failure fh then fire_abort kAbortParse fh else (fh, []))
                        in (fh, (ev1 @ ev2) @ ev3 @ ev4)) }
           else Some (fh4, ev1 @ ev2)
      else Some (fh2, ev1))"
    using c4(3) unfolding body_packet_def 1(1) prod.case Let_def rb_def [symmetric] fh2_def [symmetric] fh3_def [symmetric]
    by (simp add: offer_def [symmetric] fh4_def [symmetric] ev2_def case_prod_beta)
  have w: "filter (wanted c) ev2 = ev2" by (simp add: ev2_def)
  have b': "body_packet m p (with_cb c fh) = (if pkt_ORDB m p \<and> is_passed_header fh2
      then if \<not> is_parsing_failure fh4 \<and> \<not> resync_soft fh4
           then do { r \<leftarrow> parse m (tile_hndr fh4) (fh_cs fh4);
                     Some (let (fh, ev3) = action r (with_cb c fh4);
                        (fh, ev4) = (if is_parsing_failure fh then fire_abort kAbortParse fh else (fh, []))
                        in (fh, filter (wanted c) (ev1 @ ev2) @ ev3 @ ev4)) }
           else Some (with_cb c fh4, filter (wanted c) ev1 @ ev2)
      else Some (with_cb c fh2, filter (wanted c) ev1))"
  proof -
    have f: "(if offer \<and> accept_point p then (with_cb c fh3)\<lparr>resync_armed := False\<rparr> else with_cb c fh3) = with_cb c fh4"
      by (simp add: fh4_def)
    show ?thesis
      unfolding body_packet_def with_cb_fields 1(2) prod.case Let_def append_data_cb rb_def [symmetric] fh2_def [symmetric]
        with_cb_update fh3_def [symmetric] offer_def [symmetric] f [unfolded with_cb_update]
      by (simp add: w ev2_def [symmetric] case_prod_beta)
  qed
  from parsed_observed [OF c4(1), of _ "ev1 @ ev2"] c4 show ?thesis
    unfolding b b' by (cases "parse m (tile_hndr fh4) (fh_cs fh4)") (auto simp: w)
qed

text \<open>The flush at the end of a frame.\<close>

definition flush_part :: "memory \<Rightarrow> bool \<Rightarrow> frame_handler \<Rightarrow> (frame_handler \<times> event list) option" where
  "flush_part m intact fh = (if intact
     then do { r \<leftarrow> flush m (tile_hndr fh) (fh_cs fh);
               let (fh, ev) = action r fh;
               Some (if is_parsing_failure fh then fh\<lparr>frame_parse_failed := True\<rparr> else fh, ev) }
     else Some (fh, []))"

lemma flush_part_observed:
  assumes "cbk fh = everything c"
  shows "observes_opt c (flush_part m b (with_cb c fh)) (flush_part m b fh)"
proof (cases "flush m (tile_hndr fh) (fh_cs fh)")
  case (Some r)
  from action_observed [OF assms] obtain fh2 ev3 where
    "action r fh = (fh2, ev3)" "action r (with_cb c fh) = (with_cb c fh2, filter (wanted c) ev3)"
      "cbk fh2 = everything c" by (rule observesE)
  with Some assms show ?thesis by (simp add: flush_part_def)
qed (simp add: flush_part_def assms)

lemma end_of_frame_observed:
  assumes "cbk fh = everything c"
  shows "observes_opt c (end_of_frame m (with_cb c fh)) (end_of_frame m fh)"
proof -
  let ?intact = "\<not> is_parsing_failure fh \<and> is_passed_header fh \<and> \<not> resync_soft fh"
  let ?fh = "fh\<lparr>abort_armed := False, resync_armed := False, resync_soft := False\<rparr>"
  have u: "end_of_frame m g = do { (g, ev1) \<leftarrow> flush_part m (\<not> is_parsing_failure g \<and> is_passed_header g \<and> \<not> resync_soft g)
          (g\<lparr>abort_armed := False, resync_armed := False, resync_soft := False\<rparr>);
        let i = (\<not> is_parsing_failure g0 \<and> is_passed_header g0 \<and> \<not> resync_soft g0);
        let g = end_frame_streak (i \<and> \<not> is_parsing_failure g) g;
        let ev2 = (if frame_ready_cb (cbk g) then [Ev_Ready (cs_chunks (fh_cs g)) i] else []);
        let (g, ev3) = release_held_slabs (g\<lparr>trunc_frames := trunc_frames g + (if is_parsing_failure g then 1 else 0),
              total_frames := total_frames g + 1, is_parsing_failure := False, is_passed_header := False\<rparr>);
        g \<leftarrow> restart_tiles g;
        Some (g, ev1 @ ev2 @ ev3) }" if "g0 = g" for g g0
    unfolding that
    by (cases "is_parsing_failure g"; cases "is_passed_header g"; cases "resync_soft g") (simp_all add: end_of_frame_def flush_part_def Let_def cong: if_cong)
  have "cbk ?fh = everything c" using assms by simp
  from flush_part_observed [OF this, of m ?intact] show ?thesis
  proof (cases rule: observes_optE)
    case undef
    then show ?thesis by (simp add: u [OF refl])
  next
    case (def fh1 ev1)
    let ?fh1 = "end_frame_streak (\<not> is_parsing_failure fh \<and> is_passed_header fh \<and> \<not> resync_soft fh \<and> \<not> is_parsing_failure fh1) fh1"
    let ?fh2 = "?fh1\<lparr>trunc_frames := trunc_frames ?fh1 + (if is_parsing_failure ?fh1 then 1 else 0),
       total_frames := Suc (total_frames ?fh1), is_parsing_failure := False, is_passed_header := False\<rparr>"
    have "cbk ?fh2 = everything c" using def(3) by simp
    from release_held_slabs_observed [OF this] obtain fh3 ev3 where
      3: "release_held_slabs ?fh2 = (fh3, ev3)" "release_held_slabs (with_cb c ?fh2) = (with_cb c fh3, filter (wanted c) ev3)"
        "cbk fh3 = everything c" by (rule observesE)
    from 3(3) show ?thesis
      by (cases rule: restart_tiles_observed) (simp_all add: u [OF refl] def 3 Let_def split del: if_split, simp)
  qed
qed

text \<open>A main packet, or a body packet of a tracked frame.\<close>

definition packet_part :: "memory \<Rightarrow> uninit \<Rightarrow> packet \<Rightarrow> frame_handler \<Rightarrow> (bool \<times> frame_handler \<times> event list) option" where
  "packet_part m U p fh =
     (if 1 \<le> pkt_MH m p then main_packet m U p fh else do { (fh, ev) \<leftarrow> body_packet m p fh; Some (True, fh, ev) })"

lemma packet_part_observed:
  "cbk fh = everything c \<Longrightarrow> observes_flag c (packet_part m U p (with_cb c fh)) (packet_part m U p fh)"
  using main_packet_observed [of fh c m U p] body_packet_observed [of fh c m p] by (auto simp: packet_part_def elim!: observes_optE)

lemma pull_data_steps:
  assumes "on_gap p fh = (fh1, ev1)" "on_slab_cap fh1 = Some (fh2, ev2)"
    "\<not> (pkt_MH m p = 0 \<and> (\<not> is_passed_header fh2 \<or> is_parsing_failure fh2))"
  shows "pull_data m U p fh = do { (cont, fh, ev3) \<leftarrow> packet_part m U p fh2;
    if cont \<and> marker p then do { (fh, ev4) \<leftarrow> end_of_frame m fh; Some (fh, ev1 @ ev2 @ ev3 @ ev4) }
    else Some (fh, ev1 @ ev2 @ ev3) }"
  by (simp only: pull_data_def packet_part_def assms if_False Let_def prod.case bind.bind_lunit)

lemma pull_data_observed:
  assumes "cbk fh = everything c"
  shows "observes_opt c (pull_data m U p (with_cb c fh)) (pull_data m U p fh)"
proof -
  from on_gap_observed [OF assms] obtain fh1 ev1 where
    1: "on_gap p fh = (fh1, ev1)" "on_gap p (with_cb c fh) = (with_cb c fh1, filter (wanted c) ev1)" "cbk fh1 = everything c"
    by (rule observesE)
  from on_slab_cap_observed [OF 1(3)] show ?thesis
  proof (cases rule: observes_optE)
    case undef
    then show ?thesis by (simp add: pull_data_def 1)
  next
    case 2: (def fh2 ev2)
    let ?skip = "pkt_MH m p = 0 \<and> (\<not> is_passed_header fh2 \<or> is_parsing_failure fh2)"
    show ?thesis
    proof (cases ?skip)
      case True
      from skip_body_observed [OF 2(3), of p] True show ?thesis
        by (cases rule: observes_optE) (simp_all add: pull_data_def 1 2)
    next
      case False
      note steps = pull_data_steps [OF 1(1) 2(1) False, of U] pull_data_steps [OF 1(2) 2(2), of m U]
      from packet_part_observed [OF 2(3), of m U p] show ?thesis
      proof (cases rule: observes_flagE)
        case undef
        with steps False show ?thesis by simp
      next
        case 3: (def cont fh3 ev3)
        from end_of_frame_observed [OF 3(3), of m] show ?thesis
          using steps False 3 by (cases rule: observes_optE) simp_all
      qed
    qed
  qed
qed

section \<open>The property\<close>

lemma run_pull_observed: "cbk fh = everything c \<Longrightarrow> observes_opt c (run pull_step is (with_cb c fh)) (run pull_step is fh)"
proof (induction "is" arbitrary: fh)
  case (Cons i "is")
  from pull_data_observed [OF Cons.prems, of "fst i" "fst (snd i)" "snd (snd i)"] show ?case
  proof (cases rule: observes_optE)
    case (def fh1 ev1)
    from Cons.IH [OF def(3)] def show ?thesis by (cases rule: observes_optE) (simp_all add: pull_step_def)
  qed (simp add: pull_step_def)
qed simp

text \<open>
  C21: consumers only observe. Over any sequence of packets, a frame handler with the callbacks \<open>c\<close> runs through the same states as one where
  also every other slab, chunk, abort, frame-ready and re-latch callback is registered, and makes the same calls, in the same order, to the callbacks that \<open>c\<close> has.
\<close>

theorem callbacks_only_observe:
  "run pull_step is (fh\<lparr>cbk := c\<rparr>) = map_option (seen_by c) (run pull_step is (fh\<lparr>cbk := everything c\<rparr>))"
proof -
  have "cbk (fh\<lparr>cbk := everything c\<rparr>) = everything c" by simp
  from run_pull_observed [OF this, of "is"] have
    "observes_opt c (run pull_step is (fh\<lparr>cbk := c\<rparr>)) (run pull_step is (fh\<lparr>cbk := everything c\<rparr>))" by (simp add: with_cb_def)
  then show ?thesis by (cases rule: observes_optE) (simp_all add: seen_by_def)
qed

end
