(* ===== verification/Diagnostics.thy ===== *)
theory Diagnostics
  imports Tile_Walk Cpp_Text
begin

text \<open>
  The diagnostics of the parser that build options switch on: log files and codestream dumps
  (\<open>ENABLE_LOGGING\<close> and \<open>ENABLE_SAVEJ2C\<close>, \<open>src/packet_parser/utils.cpp\<close>) and the counters of
  \<open>PARSER_OVERSHOOT_INSTR\<close> (\<open>src/packet_parser/tile_handler.hpp\<close>). The parser is repeated with
  its diagnostic statements; without them it is the parser of \<open>Tile_Handler\<close>.

  Shown: the diagnostics do not influence the parser as long as log files can be opened, and how the counters
  account for every packet the walk passes over.
\<close>

section \<open>Build options and state\<close>

text \<open>\<open>can_open\<close> says which paths \<open>fopen\<close> succeeds for.\<close>

record build =
  opt_logging :: bool
  opt_savej2c :: bool
  opt_instr :: bool
  can_open :: "string \<Rightarrow> bool"

record OvershootStats =
  precincts_parsed :: u64
  sum_precinct_bytes :: u64
  snaps_with_drift :: u64
  max_drift_bytes :: u64
  sum_drift_bytes :: u64
  failed_parses :: u64
  recoveries :: u64
  skipped_precincts :: u64
  recover_no_signal :: u64
  recover_bad_pid :: u64
  recover_backward :: u64
  last_fail_c :: u32
  last_fail_r :: u32
  last_fail_p :: u32
  last_fail_crp_idx :: u32
  last_fail_src_pos :: u32

datatype file_event = Opened string | Line string string | Closed string | Dumped string "byte list"

record diag =
  ostats :: OvershootStats
  log_file :: "string option"
  file_trace :: "file_event list"

definition stats_zero :: OvershootStats where
  "stats_zero = \<lparr>precincts_parsed = 0, sum_precinct_bytes = 0, snaps_with_drift = 0, max_drift_bytes = 0, sum_drift_bytes = 0,
     failed_parses = 0, recoveries = 0, skipped_precincts = 0, recover_no_signal = 0, recover_bad_pid = 0, recover_backward = 0,
     last_fail_c = 0, last_fail_r = 0, last_fail_p = 0, last_fail_crp_idx = 0, last_fail_src_pos = 0\<rparr>"

definition reset_overshoot_stats :: "diag \<Rightarrow> diag" where
  "reset_overshoot_stats d = d\<lparr>ostats := stats_zero\<rparr>"

definition diag_init :: diag where
  "diag_init = \<lparr>ostats = stats_zero, log_file = None, file_trace = []\<rparr>"

section \<open>Files\<close>

text \<open>\<open>%05lu\<close>.\<close>

definition pad5 :: "nat \<Rightarrow> string" where
  "pad5 n = replicate (5 - length (show_nat n)) CHR ''0'' @ show_nat n"

definition log_path :: "nat \<Rightarrow> string" where
  "log_path n = ''log_'' @ pad5 n @ ''.log''"

definition j2c_path :: "nat \<Rightarrow> string" where
  "j2c_path n = ''out_'' @ pad5 n @ ''.j2c''"

definition file_note :: "file_event list \<Rightarrow> diag \<Rightarrow> diag" where
  "file_note es d = d\<lparr>file_trace := file_trace d @ es\<rparr>"

definition log_init :: "build \<Rightarrow> nat \<Rightarrow> diag \<Rightarrow> diag" where
  "log_init B n d =
     (if opt_logging B
      then if can_open B (log_path n) then file_note [Opened (log_path n)] (d\<lparr>log_file := Some (log_path n)\<rparr>)
           else d\<lparr>log_file := None\<rparr>
      else d)"

text \<open>\<open>fprintf\<close> on a null pointer is undefined.\<close>

definition log_put :: "build \<Rightarrow> string \<Rightarrow> diag \<Rightarrow> diag option" where
  "log_put B msg d =
     (if opt_logging B then case log_file d of None \<Rightarrow> None | Some f \<Rightarrow> Some (file_note [Line f msg] d) else Some d)"

definition log_close :: "build \<Rightarrow> diag \<Rightarrow> diag" where
  "log_close B d =
     (if opt_logging B then case log_file d of None \<Rightarrow> d | Some f \<Rightarrow> file_note [Closed f] (d\<lparr>log_file := None\<rparr>) else d)"

definition for_each_chunk :: "(addr \<Rightarrow> nat \<Rightarrow> 'a \<Rightarrow> 'a) \<Rightarrow> codestream \<Rightarrow> 'a \<Rightarrow> 'a" where
  "for_each_chunk fn cs = fold (\<lambda>c. fn (chunk_base c) (chunk_len c)) (cs_chunks cs)"

definition save_j2c :: "build \<Rightarrow> memory \<Rightarrow> nat \<Rightarrow> codestream \<Rightarrow> diag \<Rightarrow> diag" where
  "save_j2c B m n cs d =
     (if opt_savej2c B \<and> can_open B (j2c_path n)
      then file_note [Dumped (j2c_path n) (for_each_chunk (\<lambda>base len out. out @ mem_read m base len) cs [])] d
      else d)"

text \<open>
  The line per code block that \<open>parse_packet_header\<close> writes after its body, and the line of an empty packet in
  \<open>read_packet\<close>. \<open>%d\<close> prints the 32 bits of the length as a signed number.
\<close>

definition block_line :: "prec \<Rightarrow> nat \<Rightarrow> blk \<Rightarrow> string" where
  "block_line pr b blk =
     show_nat (res_num pr) @ '','' @ show_nat (if res_num pr = 0 then 0 else (b + 1) mod 256) @ '','' @
     show_int (i32 (int (blk_length blk)))"

definition log_block :: "prec \<Rightarrow> nat \<times> blk \<Rightarrow> diag \<Rightarrow> diag" where
  "log_block pr x d = (case log_file d of None \<Rightarrow> d | Some f \<Rightarrow> file_note [Line f (block_line pr (fst x) (snd x))] d)"

definition blocks_in_order :: "prec \<Rightarrow> (nat \<times> blk) list" where
  "blocks_in_order pr =
     concat (map (\<lambda>b. map (Pair b) (take (ncbw pr * ncbh pr) (case pb_blk (prec_pband pr ! b) of None \<Rightarrow> [] | Some blks \<Rightarrow> blks)))
       [0..<prec_num_bands pr])"

definition log_packet :: "build \<Rightarrow> bool \<Rightarrow> bool \<Rightarrow> prec \<Rightarrow> diag \<Rightarrow> diag option" where
  "log_packet B nothing ok pr d =
     (if nothing then log_put B ''EMPTY****************************'' d
      else Some (if ok then fold (log_block pr) (blocks_in_order pr) d else d))"

section \<open>The parser with diagnostics\<close>

text \<open>
  \<open>read_packet\<close> and its diagnostic output. A packet is empty when its first bit is zero; a failed
  header returns before any body is read.
\<close>

definition read_packet_d :: "build \<Rightarrow> memory \<Rightarrow> prec \<Rightarrow> coc_marker \<Rightarrow> codestream \<Rightarrow> diag \<Rightarrow>
    (bool \<times> prec \<times> codestream \<times> diag) option" where
  "read_packet_d B m pr coc cs d =
     do { (ok, pr, cs') \<leftarrow> read_packet m pr coc cs;
          d \<leftarrow> log_packet B (fst (get_bit m cs) = 0) ok pr d;
          Some (ok, pr, cs', d) }"

definition parse_one_precinct_d :: "build \<Rightarrow> memory \<Rightarrow> tile \<Rightarrow> coc_marker list \<Rightarrow> codestream \<Rightarrow> diag \<Rightarrow>
    (bool \<times> tile \<times> codestream \<times> diag) option" where
  "parse_one_precinct_d B m t cocs cs d =
     do { ct \<leftarrow> arr_get (crp t) (crp_idx t);
          tcp \<leftarrow> arr_get (tcomps t) (crp_c ct);
          rp \<leftarrow> arr_get (tc_res tcp) (crp_r ct);
          pp \<leftarrow> arr_get (res_prec rp) (crp_p ct);
          coc \<leftarrow> arr_get cocs (crp_c ct);
          (ok, pp, cs, d) \<leftarrow> read_packet_d B m pp coc cs d;
          let rp = rp\<lparr>res_prec := (res_prec rp)[crp_p ct := pp]\<rparr>;
          let tcp = tcp\<lparr>tc_res := (tc_res tcp)[crp_r ct := rp]\<rparr>;
          Some (ok, t\<lparr>tcomps := (tcomps t)[crp_c ct := tcp]\<rparr>, cs, d) }"

text \<open>A counter is changed in builds with \<open>PARSER_OVERSHOOT_INSTR\<close> only.\<close>

definition tally :: "build \<Rightarrow> (OvershootStats \<Rightarrow> OvershootStats) \<Rightarrow> diag \<Rightarrow> diag" where
  "tally B f d = (if opt_instr B then d\<lparr>ostats := f (ostats d)\<rparr> else d)"

definition record_precinct :: "build \<Rightarrow> codestream \<Rightarrow> u32 \<Rightarrow> diag \<Rightarrow> diag" where
  "record_precinct B cs before_pos =
     tally B (\<lambda>s. s\<lparr>precincts_parsed := precincts_parsed s + 1,
       sum_precinct_bytes := sum_precinct_bytes s + (ucast (get_pos cs) - ucast before_pos)\<rparr>)"

definition record_failure :: "build \<Rightarrow> codestream \<Rightarrow> crp_status \<Rightarrow> nat \<Rightarrow> diag \<Rightarrow> diag" where
  "record_failure B cs ct idx =
     tally B (\<lambda>s. s\<lparr>failed_parses := failed_parses s + 1, last_fail_c := word_of_nat (crp_c ct),
       last_fail_r := word_of_nat (crp_r ct), last_fail_p := word_of_nat (crp_p ct),
       last_fail_crp_idx := word_of_nat idx, last_fail_src_pos := get_pos cs\<rparr>)"

definition try_recover_d :: "build \<Rightarrow> tile_handler \<Rightarrow> tile \<Rightarrow> codestream \<Rightarrow> diag \<Rightarrow>
    bool \<times> tile_handler \<times> tile \<times> codestream \<times> diag" where
  "try_recover_d B th t cs d =
     (let cur_pos = get_pos cs;
          q = dropWhile (\<lambda>s. byte_offset s \<le> cur_pos) (signal_queue th);
          th = th\<lparr>signal_queue := q\<rparr>
      in case q of
           [] \<Rightarrow> (False, th, t, cs, tally B (\<lambda>s. s\<lparr>recover_no_signal := recover_no_signal s + 1\<rparr>) d)
         | sig # rest \<Rightarrow>
             let nc = unat (Csiz (mh_siz (th_hdr th)))
             in if nc = 0 then (False, th, t, cs, d)
                else let c = unat (pid sig) mod nc; s = unat (pid sig) div nc
                     in if length (crp_idx_by_pid th) \<le> c \<or> length (crp_idx_by_pid th ! c) \<le> s
                        then (False, th, t, cs, tally B (\<lambda>s. s\<lparr>recover_bad_pid := recover_bad_pid s + 1\<rparr>) d)
                        else let new_crp_idx = crp_idx_by_pid th ! c ! s
                             in if new_crp_idx < crp_idx t
                                then (False, th, t, cs, tally B (\<lambda>s. s\<lparr>recover_backward := recover_backward s + 1\<rparr>) d)
                                else (True, th\<lparr>signal_queue := rest\<rparr>, t\<lparr>crp_idx := new_crp_idx\<rparr>,
                                      reset (byte_offset sig) cs,
                                      tally B (\<lambda>s. s\<lparr>recoveries := recoveries s + 1, skipped_precincts :=
                                        skipped_precincts s + word_of_nat (new_crp_idx - crp_idx t)\<rparr>) d))"

partial_function (option) parse_loop_d :: "build \<Rightarrow> memory \<Rightarrow> tile_handler \<Rightarrow> codestream \<Rightarrow> crp_status list \<Rightarrow> diag \<Rightarrow>
    (bool \<times> tile_handler \<times> codestream \<times> crp_status list \<times> diag) option" where
  "parse_loop_d B m th cs ev d =
     (if signal_queue th = [] then Some (True, th, cs, ev, d)
      else if tiles th = [] then None
      else if byte_offset (last (signal_queue th)) \<le> get_pos cs then Some (True, th, cs, ev, d)
      else do {
        ct \<leftarrow> arr_get (crp (tiles th ! 0)) (crp_idx (tiles th ! 0));
        (ok, t, cs', d) \<leftarrow> parse_one_precinct_d B m (tiles th ! 0) (mh_cocs (th_hdr th)) cs d;
        let t = t\<lparr>crp_idx := Suc (crp_idx t)\<rparr>;
        if ok then parse_loop_d B m (put_tile t th) cs' (ev @ fire_precinct th ct) (record_precinct B cs' (get_pos cs) d)
        else do {
          let (rec, th, t, cs, d) = try_recover_d B th t cs' (record_failure B cs' ct (crp_idx t - 1) d);
          if rec then parse_loop_d B m (put_tile t th) cs ev d
          else Some (False, put_tile t th, cs, ev, d) } })"

definition parse_d :: "build \<Rightarrow> memory \<Rightarrow> tile_handler \<Rightarrow> codestream \<Rightarrow> diag \<Rightarrow>
    (bool \<times> tile_handler \<times> codestream \<times> crp_status list \<times> diag) option" where
  "parse_d B m th cs d = parse_loop_d B m th cs [] d"

partial_function (option) flush_loop_d :: "build \<Rightarrow> memory \<Rightarrow> tile_handler \<Rightarrow> codestream \<Rightarrow> crp_status list \<Rightarrow> diag \<Rightarrow>
    (bool \<times> tile_handler \<times> codestream \<times> crp_status list \<times> diag) option" where
  "flush_loop_d B m th cs ev d =
     (if tiles th = [] then None
      else if crp_idx (tiles th ! 0) < length (crp (tiles th ! 0))
      then do {
        ct \<leftarrow> arr_get (crp (tiles th ! 0)) (crp_idx (tiles th ! 0));
        (ok, t, cs', d) \<leftarrow> parse_one_precinct_d B m (tiles th ! 0) (mh_cocs (th_hdr th)) cs d;
        if ok then flush_loop_d B m (put_tile (t\<lparr>crp_idx := Suc (crp_idx t)\<rparr>) th) cs' (ev @ fire_precinct th ct)
                     (record_precinct B cs' (get_pos cs) d)
        else do {
          let (rec, th, t, cs, d) = try_recover_d B th t cs' (record_failure B cs' ct (crp_idx t) d);
          if rec then flush_loop_d B m (put_tile t th) cs ev d
          else Some (False, put_tile t th, cs, ev, d) } }
      else Some (True, th, cs, ev, d))"

definition flush_d :: "build \<Rightarrow> memory \<Rightarrow> tile_handler \<Rightarrow> codestream \<Rightarrow> diag \<Rightarrow>
    (bool \<times> tile_handler \<times> codestream \<times> crp_status list \<times> diag) option" where
  "flush_d B m th cs d = flush_loop_d B m th cs [] d"

declare parse_loop_d.simps [code] flush_loop_d.simps [code]

section \<open>Diagnostics are not read\<close>

text \<open>The part of the diagnostic state that decides whether logging is defined.\<close>

definition log_ok :: "build \<Rightarrow> diag \<Rightarrow> bool" where
  "log_ok B d \<longleftrightarrow> (opt_logging B \<longrightarrow> log_file d \<noteq> None)"

lemma file_note_fields [simp]:
  "log_file (file_note es d) = log_file d" "ostats (file_note es d) = ostats d" "file_trace (file_note es d) = file_trace d @ es"
  by (simp_all add: file_note_def)

lemma tally_fields [simp]:
  "log_file (tally B f d) = log_file d" "file_trace (tally B f d) = file_trace d"
  "ostats (tally B f d) = (if opt_instr B then f (ostats d) else ostats d)"
  by (simp_all add: tally_def)

lemma record_fields [simp]:
  "log_file (record_precinct B cs p d) = log_file d" "log_file (record_failure B cs ct i d) = log_file d"
  "file_trace (record_precinct B cs p d) = file_trace d" "file_trace (record_failure B cs ct i d) = file_trace d"
  by (simp_all add: record_precinct_def record_failure_def)

text \<open>No dump is written while parsing.\<close>

definition dumps :: "file_event list \<Rightarrow> (string \<times> byte list) list" where
  "dumps es = concat (map (\<lambda>e. case e of Dumped p bs \<Rightarrow> [(p, bs)] | _ \<Rightarrow> []) es)"

lemma dumps_simps [simp]:
  "dumps [] = []" "dumps (es @ es') = dumps es @ dumps es'" "dumps (Opened p # es) = dumps es" "dumps (Line p l # es) = dumps es"
  "dumps (Closed p # es) = dumps es" "dumps (Dumped p bs # es) = (p, bs) # dumps es"
  by (simp_all add: dumps_def)

definition only_logs :: "diag \<Rightarrow> diag \<Rightarrow> bool" where
  "only_logs d d' \<longleftrightarrow> log_file d' = log_file d \<and> dumps (file_trace d') = dumps (file_trace d)"

lemma only_logs_refl [simp]: "only_logs d d"
  by (simp add: only_logs_def)

lemma only_logs_trans: "only_logs d d1 \<Longrightarrow> only_logs d1 d2 \<Longrightarrow> only_logs d d2"
  by (simp add: only_logs_def)

lemma only_logs_ok: "only_logs d d' \<Longrightarrow> log_ok B d' = log_ok B d"
  by (simp add: only_logs_def log_ok_def)

lemma only_logs_tally [simp]:
  "only_logs d (tally B f d')  = only_logs d d'" "only_logs d (record_precinct B cs p d') = only_logs d d'"
  "only_logs d (record_failure B cs ct i d') = only_logs d d'" "only_logs (tally B f d') d  = only_logs d' d"
  "only_logs (record_precinct B cs p d') d = only_logs d' d" "only_logs (record_failure B cs ct i d') d = only_logs d' d"
  by (simp_all add: only_logs_def)

lemma log_put_only: "log_put B msg d = Some d' \<Longrightarrow> only_logs d d' \<and> ostats d' = ostats d"
  by (auto simp: log_put_def only_logs_def split: if_splits option.splits)

lemma log_put_defined: "log_ok B d \<Longrightarrow> \<exists>d'. log_put B msg d = Some d'"
  by (auto simp: log_put_def log_ok_def split: option.splits)

lemma log_blocks_only: "only_logs d (fold (log_block pr) xs d) \<and> ostats (fold (log_block pr) xs d) = ostats d"
proof (induction xs arbitrary: d)
  case (Cons x xs)
  have "only_logs d (log_block pr x d)" "ostats (log_block pr x d) = ostats d"
    by (auto simp: log_block_def only_logs_def split: option.splits)
  with Cons [of "log_block pr x d"] only_logs_trans show ?case by auto
qed simp

lemma log_packet_only: "log_packet B e ok pr d = Some d' \<Longrightarrow> only_logs d d' \<and> ostats d' = ostats d"
  using log_blocks_only [of d pr "blocks_in_order pr"] by (auto simp: log_packet_def log_put_only split: if_splits dest: log_put_only)

lemma log_packet_defined: "log_ok B d \<Longrightarrow> \<exists>d'. log_packet B e ok pr d = Some d'"
  by (simp add: log_packet_def log_put_defined)

lemma parse_one_precinct_d_cases:
  assumes "parse_one_precinct_d B m t cocs cs d = Some (ok, t', cs', d')"
  shows "parse_one_precinct m t cocs cs = Some (ok, t', cs')" "only_logs d d'" "ostats d' = ostats d"
  using assms by (auto simp: parse_one_precinct_d_def parse_one_precinct_def read_packet_d_def Let_def
      split: bind_splits dest!: log_packet_only)

lemma parse_one_precinct_d_defined:
  assumes "parse_one_precinct m t cocs cs = Some (ok, t', cs')" "log_ok B d"
  obtains d' where "parse_one_precinct_d B m t cocs cs d = Some (ok, t', cs', d')"
proof -
  from assms(1) obtain ct tcp rp pp coc pp' where p: "arr_get (crp t) (crp_idx t) = Some ct" "arr_get (tcomps t) (crp_c ct) = Some tcp"
    "arr_get (tc_res tcp) (crp_r ct) = Some rp" "arr_get (res_prec rp) (crp_p ct) = Some pp" "arr_get cocs (crp_c ct) = Some coc"
    "read_packet m pp coc cs = Some (ok, pp', cs')"
    "t' = t\<lparr>tcomps := (tcomps t)[crp_c ct := tcp\<lparr>tc_res := (tc_res tcp)[crp_r ct := rp\<lparr>res_prec := (res_prec rp)[crp_p ct := pp']\<rparr>]\<rparr>]\<rparr>"
    by (auto simp: parse_one_precinct_def Let_def split: bind_splits)
  obtain d' where "log_packet B (fst (get_bit m cs) = 0) ok pp' d = Some d'" using log_packet_defined [OF assms(2)] by blast
  with p have "parse_one_precinct_d B m t cocs cs d = Some (ok, t', cs', d')"
    by (simp add: parse_one_precinct_d_def read_packet_d_def Let_def del: arr_get_Some)
  then show ?thesis by (rule that)
qed

lemma try_recover_d_erase:
  "try_recover th t cs = (case try_recover_d B th t cs d of (ok, th, t, cs, _) \<Rightarrow> (ok, th, t, cs))"
proof (cases "dropWhile (\<lambda>s. byte_offset s \<le> get_pos cs) (signal_queue th)")
  case Nil
  show ?thesis unfolding try_recover_def try_recover_d_def Let_def Nil by simp
next
  case (Cons sig rest)
  show ?thesis unfolding try_recover_def try_recover_d_def Let_def Cons by simp
qed

lemma try_recover_d_only: "try_recover_d B th t cs d = (ok, th', t', cs', d') \<Longrightarrow> only_logs d d'"
  by (auto simp: try_recover_d_def Let_def split: list.splits if_splits)

text \<open>The walks: what one with diagnostics returns, one without returns, and conversely while the log is open.\<close>

definition forget :: "bool \<times> tile_handler \<times> codestream \<times> crp_status list \<times> diag \<Rightarrow>
    bool \<times> tile_handler \<times> codestream \<times> crp_status list" where
  "forget r = (case r of (ok, th, cs, ev, _) \<Rightarrow> (ok, th, cs, ev))"

abbreviation diag_of :: "bool \<times> tile_handler \<times> codestream \<times> crp_status list \<times> diag \<Rightarrow> diag" where
  "diag_of r \<equiv> snd (snd (snd (snd r)))"

text \<open>The round of a walk that parses the packet \<open>ct\<close>.\<close>

definition parse_go :: "tile_handler \<Rightarrow> codestream \<Rightarrow> crp_status \<Rightarrow> bool" where
  "parse_go th cs ct \<longleftrightarrow> signal_queue th \<noteq> [] \<and> tiles th \<noteq> [] \<and> \<not> byte_offset (last (signal_queue th)) \<le> get_pos cs
     \<and> arr_get (crp (tiles th ! 0)) (crp_idx (tiles th ! 0)) = Some ct"

definition flush_go :: "tile_handler \<Rightarrow> codestream \<Rightarrow> crp_status \<Rightarrow> bool" where
  "flush_go th cs ct \<longleftrightarrow> tiles th \<noteq> [] \<and> crp_idx (tiles th ! 0) < length (crp (tiles th ! 0))
     \<and> arr_get (crp (tiles th ! 0)) (crp_idx (tiles th ! 0)) = Some ct"

abbreviation precinct_d :: "build \<Rightarrow> memory \<Rightarrow> tile_handler \<Rightarrow> codestream \<Rightarrow> diag \<Rightarrow> (bool \<times> tile \<times> codestream \<times> diag) option" where
  "precinct_d B m th cs d \<equiv> parse_one_precinct_d B m (tiles th ! 0) (mh_cocs (th_hdr th)) cs d"

abbreviation next_packet :: "tile \<Rightarrow> tile" where
  "next_packet t \<equiv> t\<lparr>crp_idx := Suc (crp_idx t)\<rparr>"

lemma parse_loop_d_induct [consumes 1, case_names stop fire recover fail]:
  assumes ret: "parse_loop_d B m th cs ev d = Some r"
    and stop: "\<And>th cs ev d. signal_queue th = [] \<or> tiles th \<noteq> [] \<and> byte_offset (last (signal_queue th)) \<le> get_pos cs \<Longrightarrow>
      P th cs ev d (True, th, cs, ev, d)"
    and fire: "\<And>th cs ev d ct t cs1 d1 r. parse_go th cs ct \<Longrightarrow> precinct_d B m th cs d = Some (True, t, cs1, d1) \<Longrightarrow>
      P (put_tile (next_packet t) th) cs1 (ev @ fire_precinct th ct) (record_precinct B cs1 (get_pos cs) d1) r \<Longrightarrow> P th cs ev d r"
    and recover: "\<And>th cs ev d ct t cs1 d1 th2 t2 cs2 d2 r. parse_go th cs ct \<Longrightarrow> precinct_d B m th cs d = Some (False, t, cs1, d1) \<Longrightarrow>
      try_recover_d B th (next_packet t) cs1 (record_failure B cs1 ct (crp_idx t) d1) = (True, th2, t2, cs2, d2) \<Longrightarrow>
      P (put_tile t2 th2) cs2 ev d2 r \<Longrightarrow> P th cs ev d r"
    and fail: "\<And>th cs ev d ct t cs1 d1 th2 t2 cs2 d2. parse_go th cs ct \<Longrightarrow> precinct_d B m th cs d = Some (False, t, cs1, d1) \<Longrightarrow>
      try_recover_d B th (next_packet t) cs1 (record_failure B cs1 ct (crp_idx t) d1) = (False, th2, t2, cs2, d2) \<Longrightarrow>
      P th cs ev d (False, put_tile t2 th2, cs2, ev, d2)"
  shows "P th cs ev d r"
proof -
  have "B' = B \<longrightarrow> m' = m \<longrightarrow> P th cs ev d r" if ret: "parse_loop_d B' m' th cs ev d = Some r" for B' m'
  proof (rule parse_loop_d.raw_induct [where P = "\<lambda>B' m' th cs ev d r. B' = B \<longrightarrow> m' = m \<longrightarrow> P th cs ev d r", OF _ ret], goal_cases)
    case (1 f B' m' th cs ev d r)
    show ?case
    proof (intro impI)
      assume eq: "B' = B" "m' = m"
      consider (stop) "signal_queue th = [] \<or> tiles th \<noteq> [] \<and> byte_offset (last (signal_queue th)) \<le> get_pos cs" "r = (True, th, cs, ev, d)"
        | (walk) ct ok t cs1 d1 where "parse_go th cs ct" "precinct_d B m th cs d = Some (ok, t, cs1, d1)"
        using "1"(2) by (auto simp: eq parse_go_def Let_def split: if_splits bind_splits)
      then show "P th cs ev d r"
      proof cases
        case stop
        then show ?thesis using assms(2) by blast
      next
        case walk
        obtain rec th2 t2 cs2 d2 where
          r: "try_recover_d B th (next_packet t) cs1 (record_failure B cs1 ct (crp_idx t) d1) = (rec, th2, t2, cs2, d2)"
          by (metis prod.exhaust)
        have "if ok then f B m (put_tile (next_packet t) th) cs1 (ev @ fire_precinct th ct) (record_precinct B cs1 (get_pos cs) d1) = Some r
          else if rec then f B m (put_tile t2 th2) cs2 ev d2 = Some r else r = (False, put_tile t2 th2, cs2, ev, d2)"
          using "1"(2) [unfolded eq] walk r by (cases ok; cases rec) (auto simp: parse_go_def Let_def simp del: arr_get_Some split: if_splits)
        then show ?thesis
          using "1"(1) eq walk r fire [OF walk(1)] recover [OF walk(1)] fail [OF walk(1)] by (cases ok; cases rec) auto
      qed
    qed
  qed
  with ret show ?thesis by blast
qed

lemma flush_loop_d_induct [consumes 1, case_names stop fire recover fail]:
  assumes ret: "flush_loop_d B m th cs ev d = Some r"
    and stop: "\<And>th cs ev d. tiles th \<noteq> [] \<Longrightarrow> \<not> crp_idx (tiles th ! 0) < length (crp (tiles th ! 0)) \<Longrightarrow> P th cs ev d (True, th, cs, ev, d)"
    and fire: "\<And>th cs ev d ct t cs1 d1 r. flush_go th cs ct \<Longrightarrow> precinct_d B m th cs d = Some (True, t, cs1, d1) \<Longrightarrow>
      P (put_tile (next_packet t) th) cs1 (ev @ fire_precinct th ct) (record_precinct B cs1 (get_pos cs) d1) r \<Longrightarrow> P th cs ev d r"
    and recover: "\<And>th cs ev d ct t cs1 d1 th2 t2 cs2 d2 r. flush_go th cs ct \<Longrightarrow> precinct_d B m th cs d = Some (False, t, cs1, d1) \<Longrightarrow>
      try_recover_d B th t cs1 (record_failure B cs1 ct (crp_idx t) d1) = (True, th2, t2, cs2, d2) \<Longrightarrow>
      P (put_tile t2 th2) cs2 ev d2 r \<Longrightarrow> P th cs ev d r"
    and fail: "\<And>th cs ev d ct t cs1 d1 th2 t2 cs2 d2. flush_go th cs ct \<Longrightarrow> precinct_d B m th cs d = Some (False, t, cs1, d1) \<Longrightarrow>
      try_recover_d B th t cs1 (record_failure B cs1 ct (crp_idx t) d1) = (False, th2, t2, cs2, d2) \<Longrightarrow>
      P th cs ev d (False, put_tile t2 th2, cs2, ev, d2)"
  shows "P th cs ev d r"
proof -
  have "B' = B \<longrightarrow> m' = m \<longrightarrow> P th cs ev d r" if ret: "flush_loop_d B' m' th cs ev d = Some r" for B' m'
  proof (rule flush_loop_d.raw_induct [where P = "\<lambda>B' m' th cs ev d r. B' = B \<longrightarrow> m' = m \<longrightarrow> P th cs ev d r", OF _ ret], goal_cases)
    case (1 f B' m' th cs ev d r)
    show ?case
    proof (intro impI)
      assume eq: "B' = B" "m' = m"
      consider (stop) "tiles th \<noteq> []" "\<not> crp_idx (tiles th ! 0) < length (crp (tiles th ! 0))" "r = (True, th, cs, ev, d)"
        | (walk) ct ok t cs1 d1 where "flush_go th cs ct" "precinct_d B m th cs d = Some (ok, t, cs1, d1)"
        using "1"(2) by (auto simp: eq flush_go_def Let_def split: if_splits bind_splits)
      then show "P th cs ev d r"
      proof cases
        case stop
        then show ?thesis using assms(2) by blast
      next
        case walk
        obtain rec th2 t2 cs2 d2 where
          r: "try_recover_d B th t cs1 (record_failure B cs1 ct (crp_idx t) d1) = (rec, th2, t2, cs2, d2)"
          by (metis prod.exhaust)
        have "if ok then f B m (put_tile (next_packet t) th) cs1 (ev @ fire_precinct th ct) (record_precinct B cs1 (get_pos cs) d1) = Some r
          else if rec then f B m (put_tile t2 th2) cs2 ev d2 = Some r else r = (False, put_tile t2 th2, cs2, ev, d2)"
          using "1"(2) [unfolded eq] walk r by (cases ok; cases rec) (auto simp: flush_go_def Let_def simp del: arr_get_Some split: if_splits)
        then show ?thesis
          using "1"(1) eq walk r fire [OF walk(1)] recover [OF walk(1)] fail [OF walk(1)] by (cases ok; cases rec) auto
      qed
    qed
  qed
  with ret show ?thesis by blast
qed

lemma parse_round:
  assumes "parse_go th cs ct" "parse_one_precinct m (tiles th ! 0) (mh_cocs (th_hdr th)) cs = Some (ok, t, cs1)"
    and "try_recover th (next_packet t) cs1 = (rec, th2, t2, cs2)"
  shows "parse_loop m th cs ev = (if ok then parse_loop m (put_tile (next_packet t) th) cs1 (ev @ fire_precinct th ct)
      else if rec then parse_loop m (put_tile t2 th2) cs2 ev else Some (False, put_tile t2 th2, cs2, ev))"
  using assms by (subst parse_loop.simps) (simp add: parse_go_def Let_def del: arr_get_Some)

lemma flush_round:
  assumes "flush_go th cs ct" "parse_one_precinct m (tiles th ! 0) (mh_cocs (th_hdr th)) cs = Some (ok, t, cs1)"
    and "try_recover th t cs1 = (rec, th2, t2, cs2)"
  shows "flush_loop m th cs ev = (if ok then flush_loop m (put_tile (next_packet t) th) cs1 (ev @ fire_precinct th ct)
      else if rec then flush_loop m (put_tile t2 th2) cs2 ev else Some (False, put_tile t2 th2, cs2, ev))"
  using assms by (subst flush_loop.simps) (simp add: flush_go_def Let_def del: arr_get_Some)

lemma try_recover_d_plain: "try_recover_d B th t cs d = (ok, th', t', cs', d') \<Longrightarrow> try_recover th t cs = (ok, th', t', cs')"
  using try_recover_d_erase [of th t cs B d] by simp

lemma fire_round: "try_recover th t cs = (fst (try_recover th t cs), fst (snd (try_recover th t cs)),
    fst (snd (snd (try_recover th t cs))), snd (snd (snd (try_recover th t cs))))"
  by simp

lemma parse_loop_d_erase:
  "parse_loop_d B m th cs ev d = Some r \<Longrightarrow> parse_loop m th cs ev = Some (forget r) \<and> only_logs d (diag_of r)"
proof (induction rule: parse_loop_d_induct)
  case (stop th cs ev d)
  then show ?case by (subst parse_loop.simps) (auto simp: forget_def)
next
  case (fire th cs ev d ct t cs1 d1 r)
  note p = parse_one_precinct_d_cases [OF fire(2)]
  from fire(3) p parse_round [OF fire(1) p(1) fire_round] show ?case by (auto intro: only_logs_trans)
next
  case (recover th cs ev d ct t cs1 d1 th2 t2 cs2 d2 r)
  note p = parse_one_precinct_d_cases [OF recover(2)]
  from recover(4) p parse_round [OF recover(1) p(1) try_recover_d_plain [OF recover(3)]] try_recover_d_only [OF recover(3)]
  show ?case by (auto intro: only_logs_trans)
next
  case (fail th cs ev d ct t cs1 d1 th2 t2 cs2 d2)
  note p = parse_one_precinct_d_cases [OF fail(2)]
  from p parse_round [OF fail(1) p(1) try_recover_d_plain [OF fail(3)]] try_recover_d_only [OF fail(3)]
  show ?case by (auto simp: forget_def intro: only_logs_trans)
qed

lemma flush_loop_d_erase:
  "flush_loop_d B m th cs ev d = Some r \<Longrightarrow> flush_loop m th cs ev = Some (forget r) \<and> only_logs d (diag_of r)"
proof (induction rule: flush_loop_d_induct)
  case (stop th cs ev d)
  then show ?case by (subst flush_loop.simps) (auto simp: forget_def)
next
  case (fire th cs ev d ct t cs1 d1 r)
  note p = parse_one_precinct_d_cases [OF fire(2)]
  from fire(3) p flush_round [OF fire(1) p(1) fire_round] show ?case by (auto intro: only_logs_trans)
next
  case (recover th cs ev d ct t cs1 d1 th2 t2 cs2 d2 r)
  note p = parse_one_precinct_d_cases [OF recover(2)]
  from recover(4) p flush_round [OF recover(1) p(1) try_recover_d_plain [OF recover(3)]] try_recover_d_only [OF recover(3)]
  show ?case by (auto intro: only_logs_trans)
next
  case (fail th cs ev d ct t cs1 d1 th2 t2 cs2 d2)
  note p = parse_one_precinct_d_cases [OF fail(2)]
  from p flush_round [OF fail(1) p(1) try_recover_d_plain [OF fail(3)]] try_recover_d_only [OF fail(3)]
  show ?case by (auto simp: forget_def intro: only_logs_trans)
qed

text \<open>The converse, by induction on the plain walk.\<close>

lemma parse_loop_d_defined:
  assumes ret: "parse_loop m th cs ev = Some r" and "log_ok B d"
  shows "\<exists>r'. parse_loop_d B m th cs ev d = Some r'"
proof -
  have "\<forall>d. log_ok B d \<longrightarrow> (\<exists>r'. parse_loop_d B m th cs ev d = Some r')"
  proof (rule parse_loop.raw_induct [where P = "\<lambda>m th cs ev r. \<forall>d. log_ok B d \<longrightarrow> (\<exists>r'. parse_loop_d B m th cs ev d = Some r')", OF _ ret], goal_cases)
    case (1 f m th cs ev r)
    show ?case
    proof (intro allI impI)
      fix d assume d: "log_ok B d"
      consider (stop) "signal_queue th = [] \<or> tiles th \<noteq> [] \<and> byte_offset (last (signal_queue th)) \<le> get_pos cs"
        | (walk) ct ok t cs1 where "parse_go th cs ct" "parse_one_precinct m (tiles th ! 0) (mh_cocs (th_hdr th)) cs = Some (ok, t, cs1)"
        using "1"(2) by (auto simp: parse_go_def Let_def split: if_splits bind_splits)
      then show "\<exists>r'. parse_loop_d B m th cs ev d = Some r'"
      proof cases
        case stop
        then show ?thesis by (subst parse_loop_d.simps) auto
      next
        case walk
        from parse_one_precinct_d_defined [OF walk(2) d] obtain d1 where p: "precinct_d B m th cs d = Some (ok, t, cs1, d1)" .
        have d1: "log_ok B d1" using parse_one_precinct_d_cases(2) [OF p] d only_logs_ok by blast
        obtain rec th2 t2 cs2 d2 where
          r: "try_recover_d B th (next_packet t) cs1 (record_failure B cs1 ct (crp_idx t) d1) = (rec, th2, t2, cs2, d2)"
          by (metis prod.exhaust)
        have d2: "log_ok B d2" "log_ok B (record_precinct B cs1 (get_pos cs) d1)"
          using try_recover_d_only [OF r] d1 by (auto simp: log_ok_def only_logs_def)
        have "if ok then f m (put_tile (next_packet t) th) cs1 (ev @ fire_precinct th ct) = Some r
          else rec \<longrightarrow> f m (put_tile t2 th2) cs2 ev = Some r"
          using "1"(2) walk try_recover_d_plain [OF r] by (cases ok; cases rec) (auto simp: parse_go_def Let_def simp del: arr_get_Some)
        with "1"(1) d2 have "if ok then \<exists>r. parse_loop_d B m (put_tile (next_packet t) th) cs1 (ev @ fire_precinct th ct) (record_precinct B cs1 (get_pos cs) d1) = Some r
          else rec \<longrightarrow> (\<exists>r. parse_loop_d B m (put_tile t2 th2) cs2 ev d2 = Some r)" by (cases ok) auto
        with walk(1) p r show ?thesis
          by (subst parse_loop_d.simps) (cases ok; cases rec; auto simp: parse_go_def Let_def simp del: arr_get_Some)
      qed
    qed
  qed
  with assms(2) show ?thesis by blast
qed

lemma flush_loop_d_defined:
  assumes ret: "flush_loop m th cs ev = Some r" and "log_ok B d"
  shows "\<exists>r'. flush_loop_d B m th cs ev d = Some r'"
proof -
  have "\<forall>d. log_ok B d \<longrightarrow> (\<exists>r'. flush_loop_d B m th cs ev d = Some r')"
  proof (rule flush_loop.raw_induct [where P = "\<lambda>m th cs ev r. \<forall>d. log_ok B d \<longrightarrow> (\<exists>r'. flush_loop_d B m th cs ev d = Some r')", OF _ ret], goal_cases)
    case (1 f m th cs ev r)
    show ?case
    proof (intro allI impI)
      fix d assume d: "log_ok B d"
      consider (stop) "tiles th \<noteq> []" "\<not> crp_idx (tiles th ! 0) < length (crp (tiles th ! 0))"
        | (walk) ct ok t cs1 where "flush_go th cs ct" "parse_one_precinct m (tiles th ! 0) (mh_cocs (th_hdr th)) cs = Some (ok, t, cs1)"
        using "1"(2) by (auto simp: flush_go_def Let_def split: if_splits bind_splits)
      then show "\<exists>r'. flush_loop_d B m th cs ev d = Some r'"
      proof cases
        case stop
        then show ?thesis by (subst flush_loop_d.simps) auto
      next
        case walk
        from parse_one_precinct_d_defined [OF walk(2) d] obtain d1 where p: "precinct_d B m th cs d = Some (ok, t, cs1, d1)" .
        have d1: "log_ok B d1" using parse_one_precinct_d_cases(2) [OF p] d only_logs_ok by blast
        obtain rec th2 t2 cs2 d2 where
          r: "try_recover_d B th t cs1 (record_failure B cs1 ct (crp_idx t) d1) = (rec, th2, t2, cs2, d2)"
          by (metis prod.exhaust)
        have d2: "log_ok B d2" "log_ok B (record_precinct B cs1 (get_pos cs) d1)"
          using try_recover_d_only [OF r] d1 by (auto simp: log_ok_def only_logs_def)
        have "if ok then f m (put_tile (next_packet t) th) cs1 (ev @ fire_precinct th ct) = Some r
          else rec \<longrightarrow> f m (put_tile t2 th2) cs2 ev = Some r"
          using "1"(2) walk try_recover_d_plain [OF r] by (cases ok; cases rec) (auto simp: flush_go_def Let_def simp del: arr_get_Some)
        with "1"(1) d2 have "if ok then \<exists>r. flush_loop_d B m (put_tile (next_packet t) th) cs1 (ev @ fire_precinct th ct) (record_precinct B cs1 (get_pos cs) d1) = Some r
          else rec \<longrightarrow> (\<exists>r. flush_loop_d B m (put_tile t2 th2) cs2 ev d2 = Some r)" by (cases ok) auto
        with walk(1) p r show ?thesis
          by (subst flush_loop_d.simps) (cases ok; cases rec; auto simp: flush_go_def Let_def simp del: arr_get_Some)
      qed
    qed
  qed
  with assms(2) show ?thesis by blast
qed

text \<open>Diagnostics do not influence the tile handler.\<close>

lemma parse_d_plain: "log_ok B d \<Longrightarrow> map_option forget (parse_d B m th cs d) = parse m th cs"
  using parse_loop_d_erase [of B m th cs "[]" d] parse_loop_d_defined [of m th cs "[]" _ B d]
  by (cases "parse m th cs"; cases "parse_d B m th cs d") (auto simp: parse_def parse_d_def)

lemma flush_d_plain: "log_ok B d \<Longrightarrow> map_option forget (flush_d B m th cs d) = flush m th cs"
  using flush_loop_d_erase [of B m th cs "[]" d] flush_loop_d_defined [of m th cs "[]" _ B d]
  by (cases "flush m th cs"; cases "flush_d B m th cs d") (auto simp: flush_def flush_d_def)

lemma parse_d_only: "parse_d B m th cs d = Some r \<Longrightarrow> only_logs d (diag_of r)"
  using parse_loop_d_erase by (auto simp: parse_d_def)

lemma flush_d_only: "flush_d B m th cs d = Some r \<Longrightarrow> only_logs d (diag_of r)"
  using flush_loop_d_erase by (auto simp: flush_d_def)

section \<open>The counters\<close>

text \<open>
  What a walk keeps while it goes from position \<open>i\<close> with \<open>n\<close> callbacks fired to another position.
  \<open>over\<close> says whether it passes over a packet that failed: \<open>parse\<close> does, \<open>flush\<close> counts it among the skipped ones.
\<close>

definition balance :: "bool \<Rightarrow> nat \<Rightarrow> nat \<Rightarrow> OvershootStats \<Rightarrow> u64 list" where
  "balance over i n s =
     [precincts_parsed s - word_of_nat n,
      failed_parses s - recoveries s - recover_no_signal s - recover_bad_pid s - recover_backward s,
      word_of_nat i - precincts_parsed s - (if over then failed_parses s else 0) - skipped_precincts s,
      snaps_with_drift s, max_drift_bytes s, sum_drift_bytes s]"

lemma balance_fire:
  "opt_instr B \<Longrightarrow> balance over (Suc i) (n + 1) (ostats (record_precinct B cs p d)) = balance over i n (ostats d)"
  by (simp add: balance_def record_precinct_def)

lemma balance_recover:
  assumes "opt_instr B" "Csiz (mh_siz (th_hdr th)) \<noteq> 0" "try_recover_d B th t cs (record_failure B cs ct k d) = (ok, th', t', cs', d')"
    and "i = (if over then crp_idx t - 1 else crp_idx t)" "over \<Longrightarrow> 0 < crp_idx t"
  shows "balance over (crp_idx t') n (ostats d') = balance over i n (ostats d)"
proof (cases "dropWhile (\<lambda>s. byte_offset s \<le> get_pos cs) (signal_queue th)")
  case Nil
  from assms(1,3-5) show ?thesis
    unfolding try_recover_d_def Let_def Nil by (auto simp: record_failure_def balance_def of_nat_diff)
next
  case (Cons sig rest)
  have nc: "unat (Csiz (mh_siz (th_hdr th))) \<noteq> 0" using assms(2) by (simp add: unat_eq_0)
  from assms(1,3-5) nc show ?thesis
    unfolding try_recover_d_def Let_def Cons
    by (auto simp: record_failure_def balance_def of_nat_diff not_less split: if_splits)
qed

text \<open>The walks keep the balance.\<close>

abbreviation walk_balance :: "bool \<Rightarrow> tile_handler \<Rightarrow> crp_status list \<Rightarrow> diag \<Rightarrow> u64 list" where
  "walk_balance over th ev d \<equiv> balance over (crp_idx (tiles th ! 0)) (length ev) (ostats d)"

lemma parse_loop_d_balance:
  assumes "parse_loop_d B m th cs ev d = Some r" and B: "opt_instr B"
    and "Csiz (mh_siz (th_hdr th)) \<noteq> 0" "prec_cb th"
  shows "walk_balance True (fst (snd r)) (fst (snd (snd (snd r)))) (diag_of r) = walk_balance True th ev d"
  using assms(1,3,4)
proof (induction rule: parse_loop_d_induct)
  case (fire th cs ev d ct t cs1 d1 r)
  note p = parse_one_precinct_d_cases [OF fire(2)]
  note f = parse_one_precinct_frame [OF p(1)]
  have "tiles th \<noteq> []" using fire(1) by (simp add: parse_go_def)
  with fire f p(3) balance_fire [OF B, of True "crp_idx t" "length ev" cs1 "get_pos cs" d1] show ?case
    by (simp add: put_tile_def fire_precinct_def)
next
  case (recover th cs ev d ct t cs1 d1 th2 t2 cs2 d2 r)
  note p = parse_one_precinct_d_cases [OF recover(2)]
  note f = parse_one_precinct_frame [OF p(1)] try_recover_frame [OF try_recover_d_plain [OF recover(3)]]
  have "tiles th \<noteq> []" using recover(1) by (simp add: parse_go_def)
  with recover f p(3) balance_recover [OF B recover(5,3), of "crp_idx t" True "length ev"] show ?case
    by (simp add: put_tile_def)
next
  case (fail th cs ev d ct t cs1 d1 th2 t2 cs2 d2)
  note p = parse_one_precinct_d_cases [OF fail(2)]
  note f = parse_one_precinct_frame [OF p(1)] try_recover_frame [OF try_recover_d_plain [OF fail(3)]]
  have "tiles th \<noteq> []" using fail(1) by (simp add: parse_go_def)
  with fail f p(3) balance_recover [OF B fail(4,3), of "crp_idx t" True "length ev"] show ?case
    by (simp add: put_tile_def)
qed simp

lemma flush_loop_d_balance:
  assumes "flush_loop_d B m th cs ev d = Some r" and B: "opt_instr B"
    and "Csiz (mh_siz (th_hdr th)) \<noteq> 0" "prec_cb th"
  shows "walk_balance False (fst (snd r)) (fst (snd (snd (snd r)))) (diag_of r) = walk_balance False th ev d"
  using assms(1,3,4)
proof (induction rule: flush_loop_d_induct)
  case (fire th cs ev d ct t cs1 d1 r)
  note p = parse_one_precinct_d_cases [OF fire(2)]
  note f = parse_one_precinct_frame [OF p(1)]
  have "tiles th \<noteq> []" using fire(1) by (simp add: flush_go_def)
  with fire f p(3) balance_fire [OF B, of False "crp_idx t" "length ev" cs1 "get_pos cs" d1] show ?case
    by (simp add: put_tile_def fire_precinct_def)
next
  case (recover th cs ev d ct t cs1 d1 th2 t2 cs2 d2 r)
  note p = parse_one_precinct_d_cases [OF recover(2)]
  note f = parse_one_precinct_frame [OF p(1)] try_recover_frame [OF try_recover_d_plain [OF recover(3)]]
  have "tiles th \<noteq> []" using recover(1) by (simp add: flush_go_def)
  with recover f p(3) balance_recover [OF B recover(5,3), of "crp_idx t" False "length ev"] show ?case
    by (simp add: put_tile_def)
next
  case (fail th cs ev d ct t cs1 d1 th2 t2 cs2 d2)
  note p = parse_one_precinct_d_cases [OF fail(2)]
  note f = parse_one_precinct_frame [OF p(1)] try_recover_frame [OF try_recover_d_plain [OF fail(3)]]
  have "tiles th \<noteq> []" using fail(1) by (simp add: flush_go_def)
  with fail f p(3) balance_recover [OF B fail(4,3), of "crp_idx t" False "length ev"] show ?case
    by (simp add: put_tile_def)
qed simp

definition gained :: "(OvershootStats \<Rightarrow> u64) \<Rightarrow> diag \<Rightarrow> diag \<Rightarrow> u64" where
  "gained f d d' = f (ostats d') - f (ostats d)"

text \<open>
  C20: the counters account for the walk: in a call of \<open>parse\<close> (\<open>over\<close>) or \<open>flush\<close>, the precincts counted as parsed are those reported; every failed
  packet is counted once more under what became of its recovery; the walk advances by the parsed and
  the skipped packets, and in \<open>parse\<close> also by the failed ones, which \<open>flush\<close> counts as skipped; the
  three drift counters never change.
\<close>

theorem overshoot_counters_account:
  assumes "(if over then parse_d B m th cs d else flush_d B m th cs d) = Some (ok, th', cs', ev, d')"
    and "opt_instr B" "prec_cb th" "Csiz (mh_siz (th_hdr th)) \<noteq> 0"
  shows "gained precincts_parsed d d' = word_of_nat (length ev)
    \<and> gained failed_parses d d' = gained recoveries d d' + gained recover_no_signal d d' + gained recover_bad_pid d d'
        + gained recover_backward d d'
    \<and> word_of_nat (crp_idx (tiles th' ! 0)) = word_of_nat (crp_idx (tiles th ! 0)) + gained precincts_parsed d d'
        + gained skipped_precincts d d' + (if over then gained failed_parses d d' else 0)
    \<and> gained snaps_with_drift d d' = 0 \<and> gained max_drift_bytes d d' = 0 \<and> gained sum_drift_bytes d d' = 0"
proof -
  have "walk_balance over th' ev d' = walk_balance over th [] d"
    using assms parse_loop_d_balance [of B m th cs "[]" d] flush_loop_d_balance [of B m th cs "[]" d]
    by (cases over) (auto simp: parse_d_def flush_d_def)
  then show ?thesis by (auto simp: balance_def gained_def algebra_simps split: if_splits)
qed

definition full_build :: build where
  "full_build = \<lparr>opt_logging = True, opt_savej2c = True, opt_instr = True, can_open = (\<lambda>_. True)\<rparr>"

lemma flush_two_packets:
  "map_option (\<lambda>r. length (fst (snd (snd (snd r)))))
     (flush_d full_build (\<lambda>_. 0) two_precincts (append_chunk 0 2 codestream_init) (diag_init\<lparr>log_file := Some ''log''\<rparr>)) = Some 2"
  by code_simp

theorem overshoot_counters_account_witness:
  "\<exists>ok th' cs' ev d'. flush_d full_build (\<lambda>_. 0) two_precincts (append_chunk 0 2 codestream_init) (diag_init\<lparr>log_file := Some ''log''\<rparr>)
       = Some (ok, th', cs', ev, d')
     \<and> precincts_parsed (ostats d') = 2"
proof -
  let ?d = "diag_init\<lparr>log_file := Some ''log''\<rparr>"
  obtain ok th' cs' ev d' where r: "flush_d full_build (\<lambda>_. 0) two_precincts (append_chunk 0 2 codestream_init) ?d = Some (ok, th', cs', ev, d')"
    and l: "length ev = 2"
    using flush_two_packets by auto
  have "prec_cb two_precincts" "Csiz (mh_siz (th_hdr two_precincts)) \<noteq> 0" "opt_instr full_build"
    by (simp_all add: two_precincts_def full_build_def Let_def tile_handler_init_def main_header_zero_def siz_zero_def)
  with overshoot_counters_account [of False full_build "\<lambda>_. 0" two_precincts "append_chunk 0 2 codestream_init" ?d ok th' cs' ev d'] r l
  have "gained precincts_parsed ?d d' = 2" by simp
  with r show ?thesis by (simp add: gained_def diag_init_def stats_zero_def)
qed

end
