(* ===== verification/Frame_Files.thy ===== *)
theory Frame_Files
  imports Frame_Contract Diagnostics
begin

text \<open>
  \<open>frame_handler::pull_data\<close> (\<open>src/frame_handler.hpp\<close>) with the diagnostics of \<open>Diagnostics\<close>: a log file
  per frame, opened at its main packet and closed at its end, a line for every failed call of the
  tile handler, and a dump of every completed frame. The state is the frame handler and the
  diagnostic state.

  Shown: in any build whose log files can be opened, the frame handler behaves as without
  diagnostics; and the dumps are exactly the completed frames, each under its own name.
\<close>

section \<open>The frame handler with diagnostics\<close>

definition action_d :: "build \<Rightarrow> bool \<times> tile_handler \<times> codestream \<times> crp_status list \<times> diag \<Rightarrow> frame_handler \<Rightarrow>
    (frame_handler \<times> diag \<times> event list) option" where
  "action_d B r fh =
     (let (ok, th, cs, ps, d) = r; (fh, ev) = action (ok, th, cs, ps) fh
      in do { d \<leftarrow> (if ok then Some d else log_put B ''**************** FAILURE'' d); Some (fh, d, ev) })"

definition main_packet_d :: "build \<Rightarrow> memory \<Rightarrow> uninit \<Rightarrow> packet \<Rightarrow> frame_handler \<Rightarrow> diag \<Rightarrow>
    (bool \<times> frame_handler \<times> diag \<times> event list) option" where
  "main_packet_d B m U p fh d =
     (let d = log_init B (total_frames fh) d
      in do { (cont, fh, ev) \<leftarrow> main_packet m U p fh; Some (cont, fh, d, ev) })"

definition body_packet_d :: "build \<Rightarrow> memory \<Rightarrow> packet \<Rightarrow> frame_handler \<Rightarrow> diag \<Rightarrow>
    (frame_handler \<times> diag \<times> event list) option" where
  "body_packet_d B m p fh d =
     (let (fh, ev1) = deliver_chunk (chain_total_bytes fh) (j2k_payload p) (psize p) fh;
          resync_byte = ucast (chain_total_bytes fh) + pkt_POS m p;
          fh = append_data (j2k_payload p) (psize p) (slab_idx p) fh
      in if pkt_ORDB m p \<and> is_passed_header fh
         then let fh = fh\<lparr>tile_hndr := append_signal resync_byte (pkt_PID m p) (tile_hndr fh)\<rparr>;
                  offer = resync_armed fh \<and> resync_point_cb (cbk fh);
                  ev2 = (if offer then [Ev_Resync_Point resync_byte (pkt_PID m p)] else []);
                  fh = (if offer \<and> accept_point p then fh\<lparr>resync_armed := False\<rparr> else fh)
              in if \<not> is_parsing_failure fh \<and> \<not> resync_soft fh
                 then do { r \<leftarrow> parse_d B m (tile_hndr fh) (fh_cs fh) d;
                           (fh, d, ev3) \<leftarrow> action_d B r fh;
                           let (fh, ev4) = (if is_parsing_failure fh then fire_abort kAbortParse fh else (fh, []));
                           Some (fh, d, ev1 @ ev2 @ ev3 @ ev4) }
                 else Some (fh, d, ev1 @ ev2)
         else Some (fh, d, ev1))"

definition end_of_frame_d :: "build \<Rightarrow> memory \<Rightarrow> frame_handler \<Rightarrow> diag \<Rightarrow> (frame_handler \<times> diag \<times> event list) option" where
  "end_of_frame_d B m fh d =
     (let fh = fh\<lparr>abort_armed := False, resync_armed := False\<rparr>;
          frame_intact = (\<not> is_parsing_failure fh \<and> is_passed_header fh \<and> \<not> resync_soft fh);
          fh = fh\<lparr>resync_soft := False\<rparr>
      in do {
        (fh, d, ev1) \<leftarrow> (if frame_intact
           then do { r \<leftarrow> flush_d B m (tile_hndr fh) (fh_cs fh) d;
                     (fh, d, ev) \<leftarrow> action_d B r fh;
                     Some (if is_parsing_failure fh then fh\<lparr>frame_parse_failed := True\<rparr> else fh, d, ev) }
           else Some (fh, d, []));
        let fh = end_frame_streak (frame_intact \<and> \<not> is_parsing_failure fh) fh;
        let d = save_j2c B m (total_frames fh) (fh_cs fh) d;
        let ev2 = (if frame_ready_cb (cbk fh) then [Ev_Ready (cs_chunks (fh_cs fh)) frame_intact] else []);
        let fh = fh\<lparr>trunc_frames := trunc_frames fh + (if is_parsing_failure fh then 1 else 0),
                    total_frames := total_frames fh + 1,
                    is_parsing_failure := False, is_passed_header := False\<rparr>;
        let d = log_close B d;
        let (fh, ev3) = release_held_slabs fh;
        fh \<leftarrow> restart_tiles fh;
        Some (fh, d, ev1 @ ev2 @ ev3) })"

definition pull_data_d :: "build \<Rightarrow> memory \<Rightarrow> uninit \<Rightarrow> packet \<Rightarrow> frame_handler \<times> diag \<Rightarrow>
    ((frame_handler \<times> diag) \<times> event list) option" where
  "pull_data_d B m U p s =
     (let (fh, d) = s; (fh, ev1) = on_gap p fh in
      do { (fh, ev2) \<leftarrow> on_slab_cap fh;
           if pkt_MH m p = 0 \<and> (\<not> is_passed_header fh \<or> is_parsing_failure fh)
           then do { (fh, ev3) \<leftarrow> skip_body p fh; Some ((fh, d), ev1 @ ev2 @ ev3) }
           else do {
             (cont, fh, d, ev3) \<leftarrow> (if 1 \<le> pkt_MH m p then main_packet_d B m U p fh d
                                 else do { (fh, d, ev) \<leftarrow> body_packet_d B m p fh d; Some (True, fh, d, ev) });
             if cont \<and> marker p
             then do { (fh, d, ev4) \<leftarrow> end_of_frame_d B m fh d; Some ((fh, d), ev1 @ ev2 @ ev3 @ ev4) }
             else Some ((fh, d), ev1 @ ev2 @ ev3) } })"

definition pull_step_d :: "build \<Rightarrow> memory \<times> uninit \<times> packet \<Rightarrow> frame_handler \<times> diag \<Rightarrow>
    ((frame_handler \<times> diag) \<times> event list) option" where
  "pull_step_d B i = pull_data_d B (fst i) (fst (snd i)) (snd (snd i))"

section \<open>Diagnostics do not influence the frame handler\<close>

text \<open>A call of the tile handler followed by \<open>ACTION\<close>, with the log open.\<close>

lemma action_d_eq:
  assumes "log_ok B d" "only_logs d d1"
  obtains d2 where "only_logs d d2" "\<And>fh. action_d B (ok, th, cs, ps, d1) fh = Some (fst (action (ok, th, cs, ps) fh), d2, snd (action (ok, th, cs, ps) fh))"
proof (cases ok)
  case True
  with assms(2) that [of d1] show ?thesis by (simp add: action_d_def case_prod_beta)
next
  case False
  from assms have "log_ok B d1" using only_logs_ok by blast
  from log_put_defined [OF this] obtain d2 where "log_put B ''**************** FAILURE'' d1 = Some d2" by blast
  with False log_put_only [OF this] assms(2) only_logs_trans that [of d2] show ?thesis
    by (auto simp: action_d_def case_prod_beta)
qed

lemma parse_action_d:
  assumes "log_ok B d"
  obtains (undef) "parse m th cs = None" "parse_d B m th cs d = None"
  | (def) ok th' cs' ps d1 d2 where "parse m th cs = Some (ok, th', cs', ps)" "parse_d B m th cs d = Some (ok, th', cs', ps, d1)"
      "only_logs d d2" "\<And>fh. action_d B (ok, th', cs', ps, d1) fh = Some (fst (action (ok, th', cs', ps) fh), d2, snd (action (ok, th', cs', ps) fh))"
proof (cases "parse_d B m th cs d")
  case None
  with parse_d_plain [OF assms, of m th cs] undef show ?thesis by simp
next
  case (Some r)
  obtain ok th' cs' ps d1 where r: "r = (ok, th', cs', ps, d1)" by (metis prod.exhaust)
  from action_d_eq [OF assms parse_d_only [OF Some], of ok th' cs' ps] obtain d2 where a: "only_logs d d2"
    "\<And>fh. action_d B (ok, th', cs', ps, d1) fh = Some (fst (action (ok, th', cs', ps) fh), d2, snd (action (ok, th', cs', ps) fh))"
    using r by (auto)
  have "parse m th cs = Some (ok, th', cs', ps)" using parse_d_plain [OF assms, of m th cs] Some r by (simp add: forget_def)
  from def [OF this Some [unfolded r] a] show ?thesis .
qed

lemma flush_action_d:
  assumes "log_ok B d"
  obtains (undef) "flush m th cs = None" "flush_d B m th cs d = None"
  | (def) ok th' cs' ps d1 d2 where "flush m th cs = Some (ok, th', cs', ps)" "flush_d B m th cs d = Some (ok, th', cs', ps, d1)"
      "only_logs d d2" "\<And>fh. action_d B (ok, th', cs', ps, d1) fh = Some (fst (action (ok, th', cs', ps) fh), d2, snd (action (ok, th', cs', ps) fh))"
proof (cases "flush_d B m th cs d")
  case None
  with flush_d_plain [OF assms, of m th cs] undef show ?thesis by simp
next
  case (Some r)
  obtain ok th' cs' ps d1 where r: "r = (ok, th', cs', ps, d1)" by (metis prod.exhaust)
  from action_d_eq [OF assms flush_d_only [OF Some], of ok th' cs' ps] obtain d2 where a: "only_logs d d2"
    "\<And>fh. action_d B (ok, th', cs', ps, d1) fh = Some (fst (action (ok, th', cs', ps) fh), d2, snd (action (ok, th', cs', ps) fh))"
    using r by (auto)
  have "flush m th cs = Some (ok, th', cs', ps)" using flush_d_plain [OF assms, of m th cs] Some r by (simp add: forget_def)
  from def [OF this Some [unfolded r] a] show ?thesis .
qed

text \<open>Results of the parts of \<open>pull_data\<close> with and without diagnostics.\<close>

definition adds_logs :: "diag \<Rightarrow> (frame_handler \<times> event list) option \<Rightarrow> (frame_handler \<times> diag \<times> event list) option \<Rightarrow> bool" where
  "adds_logs d r r' \<longleftrightarrow> (case r of None \<Rightarrow> r' = None | Some (fh, ev) \<Rightarrow> \<exists>d'. only_logs d d' \<and> r' = Some (fh, d', ev))"

lemma body_packet_d_eq:
  "body_packet_d B m p fh d =
     (if walks m p fh
      then do { r \<leftarrow> parse_d B m (tile_hndr (signalled m p fh)) (fh_cs (signalled m p fh)) d;
                (fh1, d, ev3) \<leftarrow> action_d B r (signalled m p fh);
                let (fh2, ev4) = (if is_parsing_failure fh1 then fire_abort kAbortParse fh1 else (fh1, []));
                Some (fh2, d, arrival_events m p fh @ ev3 @ ev4) }
      else Some (signalled m p fh, d, arrival_events m p fh))"
proof -
  define fh0 where "fh0 = fh\<lparr>abort_armed := True\<rparr>"
  define ce where "ce = (if chunk_cb (cbk fh) then [Ev_Chunk (chain_total_bytes fh) (j2k_payload p) (psize p)] else [])"
  define rb where "rb = ucast (chain_total_bytes fh) + pkt_POS m p"
  define fh1 where "fh1 = append_data (j2k_payload p) (psize p) (slab_idx p) fh0"
  define fh2 where "fh2 = fh1\<lparr>tile_hndr := append_signal rb (pkt_PID m p) (tile_hndr fh1)\<rparr>"
  define fh3 where "fh3 = (if resync_armed fh2 \<and> resync_point_cb (cbk fh2) \<and> accept_point p then fh2\<lparr>resync_armed := False\<rparr> else fh2)"
  have dc: "deliver_chunk (chain_total_bytes fh) (j2k_payload p) (psize p) fh = (fh0, ce)" "chain_total_bytes fh0 = chain_total_bytes fh"
    by (simp_all add: deliver_chunk_def fh0_def ce_def)
  have f: "is_passed_header fh1 = is_passed_header fh" "resync_armed fh2 = resync_armed fh" "cbk fh2 = cbk fh"
    "is_parsing_failure fh3 = is_parsing_failure fh" "resync_soft fh3 = resync_soft fh"
    by (simp_all add: fh3_def fh2_def fh1_def fh0_def append_data_def)
  have s: "signalled m p fh = (if pkt_ORDB m p \<and> is_passed_header fh1 then fh3 else fh1)"
    by (simp only: signalled_def Let_def fh0_def [symmetric] rb_def [symmetric] fh1_def [symmetric] fh2_def [symmetric] fh3_def)
  have a: "arrival_events m p fh = ce @ (if pkt_ORDB m p \<and> is_passed_header fh1 \<and> resync_armed fh2 \<and> resync_point_cb (cbk fh2)
      then [Ev_Resync_Point rb (pkt_PID m p)] else [])"
    by (simp only: arrival_events_def ce_def rb_def f)
  have b: "body_packet_d B m p fh d =
     (if pkt_ORDB m p \<and> is_passed_header fh1
      then if \<not> is_parsing_failure fh3 \<and> \<not> resync_soft fh3
           then do { r \<leftarrow> parse_d B m (tile_hndr fh3) (fh_cs fh3) d;
                     (fh4, d, ev3) \<leftarrow> action_d B r fh3;
                     let (fh5, ev4) = (if is_parsing_failure fh4 then fire_abort kAbortParse fh4 else (fh4, []));
                     Some (fh5, d, arrival_events m p fh @ ev3 @ ev4) }
           else Some (fh3, d, arrival_events m p fh)
      else Some (fh1, d, ce))"
    unfolding body_packet_d_def dc prod.case Let_def rb_def [symmetric] fh1_def [symmetric] fh2_def [symmetric] conj_assoc fh3_def [symmetric] a
    by (cases "pkt_ORDB m p \<and> is_passed_header fh1") (simp_all cong: if_cong)
  show ?thesis unfolding b s walks_def f by (auto simp: a f)
qed

lemma body_packet_d_adds:
  assumes "log_ok B d"
  shows "adds_logs d (body_packet m p fh) (body_packet_d B m p fh d)"
proof (cases "walks m p fh")
  case False
  then show ?thesis by (simp add: adds_logs_def body_packet_eq body_packet_d_eq)
next
  case True
  from assms show ?thesis
  proof (cases rule: parse_action_d [where m = m and th = "tile_hndr (signalled m p fh)" and cs = "fh_cs (signalled m p fh)"])
    case undef
    with True show ?thesis by (simp add: adds_logs_def body_packet_eq body_packet_d_eq)
  next
    case (def ok th' cs' ps d1 d2)
    with True show ?thesis
      by (simp add: adds_logs_def body_packet_eq body_packet_d_eq after_walk_def case_prod_unfold Let_def del: signalled_fields)
  qed
qed

text \<open>The end of a frame: the log lines of \<open>flush\<close>, then the dump, then the log is closed.\<close>

definition finish_frame :: "bool \<Rightarrow> frame_handler \<Rightarrow> event list \<Rightarrow> (frame_handler \<times> event list) option" where
  "finish_frame frame_intact fh ev1 =
     (let fh = end_frame_streak (frame_intact \<and> \<not> is_parsing_failure fh) fh;
          ev2 = (if frame_ready_cb (cbk fh) then [Ev_Ready (cs_chunks (fh_cs fh)) frame_intact] else []);
          fh = fh\<lparr>trunc_frames := trunc_frames fh + (if is_parsing_failure fh then 1 else 0),
                  total_frames := total_frames fh + 1, is_parsing_failure := False, is_passed_header := False\<rparr>;
          (fh, ev3) = release_held_slabs fh
      in do { fh \<leftarrow> restart_tiles fh; Some (fh, ev1 @ ev2 @ ev3) })"

definition before_finish :: "frame_handler \<Rightarrow> frame_handler" where
  "before_finish fh = fh\<lparr>abort_armed := False, resync_armed := False, resync_soft := False\<rparr>"

definition after_flush :: "frame_handler \<Rightarrow> frame_handler" where
  "after_flush fh = (if is_parsing_failure fh then fh\<lparr>frame_parse_failed := True\<rparr> else fh)"

abbreviation intact :: "frame_handler \<Rightarrow> bool" where
  "intact fh \<equiv> \<not> is_parsing_failure fh \<and> is_passed_header fh \<and> \<not> resync_soft fh"

abbreviation close_files :: "build \<Rightarrow> memory \<Rightarrow> frame_handler \<Rightarrow> diag \<Rightarrow> diag" where
  "close_files B m fh d \<equiv> log_close B (save_j2c B m (total_frames fh) (fh_cs fh) d)"

lemma streak_fields [simp]:
  "total_frames (end_frame_streak b fh) = total_frames fh" "fh_cs (end_frame_streak b fh) = fh_cs fh" "cbk (end_frame_streak b fh) = cbk fh"
  "is_parsing_failure (end_frame_streak b fh) = is_parsing_failure fh" "trunc_frames (end_frame_streak b fh) = trunc_frames fh"
  by (simp_all add: end_frame_streak_def)

lemma end_of_frame_eq:
  "end_of_frame m fh =
     (if intact fh then do { r \<leftarrow> flush m (tile_hndr fh) (fh_cs fh);
        finish_frame True (after_flush (fst (action r (before_finish fh)))) (snd (action r (before_finish fh))) }
      else finish_frame False (before_finish fh) [])"
  by (cases "is_parsing_failure fh"; cases "is_passed_header fh"; cases "resync_soft fh")
    (simp_all add: end_of_frame_def finish_frame_def before_finish_def after_flush_def [symmetric] Let_def case_prod_beta
        split del: if_split cong: if_cong)

lemma end_of_frame_d_eq:
  "end_of_frame_d B m fh d =
     (if intact fh then do { r \<leftarrow> flush_d B m (tile_hndr fh) (fh_cs fh) d; (fh, d, ev) \<leftarrow> action_d B r (before_finish fh);
        map_option (\<lambda>(fh', ev). (fh', close_files B m (after_flush fh) d, ev)) (finish_frame True (after_flush fh) ev) }
      else map_option (\<lambda>(fh', ev). (fh', close_files B m (before_finish fh) d, ev)) (finish_frame False (before_finish fh) []))"
proof -
  have "map_option f (finish_frame b fh ev) = (let fh = end_frame_streak (b \<and> \<not> is_parsing_failure fh) fh;
          ev2 = (if frame_ready_cb (cbk fh) then [Ev_Ready (cs_chunks (fh_cs fh)) b] else []);
          fh = fh\<lparr>trunc_frames := trunc_frames fh + (if is_parsing_failure fh then 1 else 0),
                  total_frames := total_frames fh + 1, is_parsing_failure := False, is_passed_header := False\<rparr>;
          (fh, ev3) = release_held_slabs fh
      in do { fh \<leftarrow> restart_tiles fh; Some (f (fh, ev @ ev2 @ ev3)) })" for f :: "_ \<Rightarrow> frame_handler \<times> diag \<times> event list" and b fh ev
    by (simp add: finish_frame_def Let_def case_prod_unfold map_option_bind o_def)
  then show ?thesis
    by (cases "is_parsing_failure fh"; cases "is_passed_header fh"; cases "resync_soft fh")
      (simp_all add: end_of_frame_d_def before_finish_def after_flush_def [symmetric] Let_def case_prod_unfold
        split del: if_split cong: if_cong)
qed

lemma action_fields:
  "total_frames (fst (action (ok, th, cs, ps) fh)) = total_frames fh" "fh_cs (fst (action (ok, th, cs, ps) fh)) = cs"
  "cbk (fst (action (ok, th, cs, ps) fh)) = cbk fh"
  by (simp_all add: action_def Let_def)

lemma after_flush_fields [simp]:
  "total_frames (after_flush fh) = total_frames fh" "fh_cs (after_flush fh) = fh_cs fh" "cbk (after_flush fh) = cbk fh"
  "total_frames (before_finish fh) = total_frames fh" "fh_cs (before_finish fh) = fh_cs fh" "cbk (before_finish fh) = cbk fh"
  by (simp_all add: after_flush_def before_finish_def)

lemma end_of_frame_d_cases:
  assumes "log_ok B d"
  obtains (undef) "end_of_frame m fh = None" "end_of_frame_d B m fh d = None"
  | (def) fh' ev d1 cs where "end_of_frame m fh = Some (fh', ev)" "only_logs d d1" "cs_chunks cs = cs_chunks (fh_cs fh)"
      "end_of_frame_d B m fh d = Some (fh', log_close B (save_j2c B m (total_frames fh) cs d1), ev)"
proof (cases "intact fh")
  case False
  show ?thesis
  proof (cases "finish_frame False (before_finish fh) []")
    case None
    with False show ?thesis by (intro undef) (simp_all only: end_of_frame_eq end_of_frame_d_eq, simp_all)
  next
    case (Some r)
    with False show ?thesis
      by (cases r, intro def [of "fst r" "snd r" d "fh_cs fh"]) (simp_all only: end_of_frame_eq end_of_frame_d_eq, simp_all)
  qed
next
  case True
  from assms show ?thesis
  proof (cases rule: flush_action_d [where m = m and th = "tile_hndr fh" and cs = "fh_cs fh"])
    case undef
    with True that(1) show ?thesis by (simp add: end_of_frame_eq end_of_frame_d_eq)
  next
    case (def ok th' cs' ps d1 d2)
    let ?a = "action (ok, th', cs', ps) (before_finish fh)"
    have c: "cs_chunks cs' = cs_chunks (fh_cs fh)" using keeps_flush [OF def(1)] by (simp add: keeps_def)
    have e: "end_of_frame m fh = finish_frame True (after_flush (fst ?a)) (snd ?a)"
      "end_of_frame_d B m fh d = map_option (\<lambda>(fh', ev). (fh', log_close B (save_j2c B m (total_frames fh) cs' d2), ev))
         (finish_frame True (after_flush (fst ?a)) (snd ?a))"
      using True def by (simp_all add: end_of_frame_eq end_of_frame_d_eq action_fields)
    show ?thesis
    proof (cases "finish_frame True (after_flush (fst ?a)) (snd ?a)")
      case None
      with e that(1) show ?thesis by simp
    next
      case (Some r)
      obtain fh' ev where "r = (fh', ev)" by (cases r)
      with Some e c def(3) show ?thesis by (intro that(2) [of fh' ev d2 cs']) simp_all
    qed
  qed
qed

text \<open>The log is open while a frame is tracked.\<close>

definition files_inv :: "build \<Rightarrow> frame_handler \<times> diag \<Rightarrow> bool" where
  "files_inv B s \<longleftrightarrow> (is_passed_header (fst s) \<longrightarrow> log_ok B (snd s))"

definition opens :: "build \<Rightarrow> bool" where
  "opens B \<longleftrightarrow> (opt_logging B \<longrightarrow> (\<forall>n. can_open B (log_path n)))"

lemma log_init_ok: "opens B \<Longrightarrow> log_ok B (log_init B n d) \<and> dumps (file_trace (log_init B n d)) = dumps (file_trace d)"
  by (simp add: opens_def log_ok_def log_init_def)

lemma on_gap_passed: "on_gap p fh = (fh', ev) \<Longrightarrow> is_passed_header fh' = is_passed_header fh"
  by (auto simp: on_gap_def part_defs split: if_splits)

lemma on_slab_cap_passed: "on_slab_cap fh = Some (fh', ev) \<Longrightarrow> is_passed_header fh' \<Longrightarrow> is_passed_header fh"
  by (auto simp: on_slab_cap_def part_defs split: if_splits bind_splits)

lemma skip_body_passed: "skip_body p fh = Some (fh', ev) \<Longrightarrow> is_passed_header fh' \<Longrightarrow> is_passed_header fh"
  by (auto simp: skip_body_def part_defs split: if_splits bind_splits)

lemma finish_frame_passed: "finish_frame b fh ev = Some (fh', ev') \<Longrightarrow> \<not> is_passed_header fh'"
  by (auto simp: finish_frame_def part_defs split: if_splits bind_splits)

lemma end_of_frame_passed: "end_of_frame m fh = Some (fh', ev) \<Longrightarrow> \<not> is_passed_header fh'"
  by (auto simp: end_of_frame_eq dest: finish_frame_passed split: if_splits bind_splits)

lemma body_packet_d_cases:
  assumes "log_ok B d"
  obtains (undef) "body_packet m p fh = None" "body_packet_d B m p fh d = None"
  | (def) fh' ev d' where "body_packet m p fh = Some (fh', ev)" "body_packet_d B m p fh d = Some (fh', d', ev)" "only_logs d d'"
  using body_packet_d_adds [OF assms, of m p fh] by (auto simp: adds_logs_def split: option.splits)

text \<open>Completed frames: the chunks handed to the frame-ready callback.\<close>

definition readies :: "event list \<Rightarrow> chunk list list" where
  "readies ev = concat (map (\<lambda>e. case e of Ev_Ready cs _ \<Rightarrow> [cs] | _ \<Rightarrow> []) ev)"

definition chunk_data :: "memory \<Rightarrow> chunk list \<Rightarrow> byte list" where
  "chunk_data m cs = concat (map (chunk_bytes m) cs)"

text \<open>Parts of \<open>pull_data\<close> that complete no frame.\<close>

definition quiet :: "frame_handler \<Rightarrow> frame_handler \<Rightarrow> event list \<Rightarrow> bool" where
  "quiet fh fh' ev \<longleftrightarrow> readies ev = [] \<and> total_frames fh \<le> total_frames fh' \<and> cbk fh' = cbk fh"

lemma readies_simps [simp]:
  "readies [] = []" "readies (ev @ ev') = readies ev @ readies ev'" "readies (Ev_Chunk o1 a n # ev) = readies ev"
  "readies (Ev_Abort r # ev) = readies ev" "readies (Ev_Ready cs b # ev) = cs # readies ev" "readies (Ev_Release i # ev) = readies ev"
  "readies (Ev_Relatch w # ev) = readies ev" "readies (Ev_Precinct ct # ev) = readies ev" "readies (Ev_Resync_Gap k # ev) = readies ev"
  "readies (Ev_Resync_Point k1 k2 # ev) = readies ev"
  by (simp_all add: readies_def)

lemma readies_map [simp]: "readies (map Ev_Release is) = []" "readies (map Ev_Precinct cts) = []"
  by (induction "is") (simp_all, induction cts, simp_all)

lemma quiet_trans: "quiet fh fh1 ev1 \<Longrightarrow> quiet fh1 fh2 ev2 \<Longrightarrow> quiet fh fh2 (ev1 @ ev2)"
  by (simp add: quiet_def)

lemma on_gap_quiet: "on_gap p fh = (fh', ev) \<Longrightarrow> quiet fh fh' ev"
  by (auto simp: on_gap_def part_defs quiet_def split: if_splits)

lemma on_slab_cap_quiet: "on_slab_cap fh = Some (fh', ev) \<Longrightarrow> quiet fh fh' ev"
  by (auto simp: on_slab_cap_def part_defs quiet_def split: if_splits bind_splits)

lemma skip_body_quiet: "skip_body p fh = Some (fh', ev) \<Longrightarrow> quiet fh fh' ev"
  by (auto simp: skip_body_def part_defs quiet_def split: if_splits bind_splits)

lemma drop_stale_quiet: "drop_stale fh = Some (fh', ev) \<Longrightarrow> quiet fh fh' ev"
  by (auto simp: drop_stale_def part_defs quiet_def split: if_splits bind_splits)

lemma body_packet_quiet: "body_packet m p fh = Some (fh', ev) \<Longrightarrow> quiet fh fh' ev"
  by (auto simp: body_packet_eq arrival_events_def after_walk_def action_def fire_abort_def quiet_def Let_def case_prod_beta
      split: if_splits bind_splits)

lemma latch_header_quiet: "latch_header m U sig rl fh = Some (cont, fh', ev) \<Longrightarrow> quiet fh fh' ev"
  by (auto simp: latch_header_def part_defs quiet_def split: if_splits bind_splits option.splits)

lemma check_geometry_quiet: "check_geometry sig fh = Inr (rl, fh') \<Longrightarrow> quiet fh fh' []"
proof -
  assume "check_geometry sig fh = Inr (rl, fh')"
  moreover have "case check_geometry sig fh of Inl u \<Rightarrow> True | Inr r \<Rightarrow> quiet fh (snd r) []"
    by (simp add: check_geometry_def Let_def quiet_def)
  ultimately show ?thesis by simp
qed

lemma judge_header_quiet:
  assumes jh: "judge_header m U p fh = Some (cont, fh', ev)"
  shows "quiet fh fh' ev"
proof -
  let ?gs = "if 2 \<le> pkt_MH m p then geometry_signature m (payload p + 8) (psize p) else (0, None)"
  let ?v = "if 2 \<le> pkt_MH m p then check_geometry (fst ?gs) fh else Inr (None, fh)"
  show ?thesis
  proof (cases ?v)
    case (Inl u)
    with jh show ?thesis by (auto simp: judge_header_def part_defs quiet_def case_prod_beta)
  next
    case (Inr r)
    then have r: "quiet fh (snd r) []"
      using check_geometry_quiet [of "fst ?gs" fh "fst r" "snd r"] by (auto simp: quiet_def split: if_splits)
    show ?thesis
    proof (cases "ready (tile_hndr (snd r)) \<or> pkt_MH m p < 2")
      case True
      with jh Inr r show ?thesis
        by (auto simp: judge_header_def quiet_def Let_def case_prod_beta split: if_splits option.splits)
    next
      case False
      with jh Inr have "latch_header m U (fst ?gs) (fst r) (snd r) = Some (cont, fh', ev)"
        by (simp add: judge_header_def Let_def case_prod_beta)
      from quiet_trans [OF r latch_header_quiet [OF this]] show ?thesis by simp
    qed
  qed
qed

lemma main_packet_quiet:
  assumes "main_packet m U p fh = Some (cont, fh', ev)"
  shows "quiet fh fh' ev"
  using assms
proof (rule main_packet_cases)
  fix fh0 ev1 dc ev3
  assume ds: "drop_stale fh = Some (fh0, ev1)"
    and dc: "dc = deliver_chunk (chain_total_bytes fh0) (payload p + 8) (psize p) (fh0\<lparr>is_parsing_failure := False, frame_parse_failed := False\<rparr>)"
    and jh: "judge_header m U p (append_data (payload p + 8) (psize p) (slab_idx p) (fst dc)) = Some (cont, fh', ev3)"
    and ev: "ev = ev1 @ snd dc @ ev3"
  from drop_stale_quiet [OF ds] judge_header_quiet [OF jh] show ?thesis
    by (auto simp: ev dc quiet_def deliver_chunk_def append_data_def)
qed

lemma finish_frame_ready:
  "finish_frame b fh ev = Some (fh', ev') \<Longrightarrow> total_frames fh' = total_frames fh + 1 \<and> cbk fh' = cbk fh
     \<and> readies ev' = readies ev @ (if frame_ready_cb (cbk fh) then [cs_chunks (fh_cs fh)] else [])"
  by (auto simp: finish_frame_def part_defs split: bind_splits)

lemma end_of_frame_ready:
  assumes "end_of_frame m fh = Some (fh', ev)"
  shows "total_frames fh' = total_frames fh + 1" "cbk fh' = cbk fh"
    "readies ev = (if frame_ready_cb (cbk fh) then [cs_chunks (fh_cs fh)] else [])"
proof -
  have "total_frames fh' = total_frames fh + 1 \<and> cbk fh' = cbk fh
     \<and> readies ev = (if frame_ready_cb (cbk fh) then [cs_chunks (fh_cs fh)] else [])"
  proof (cases "intact fh")
    case False
    with assms have "finish_frame False (before_finish fh) [] = Some (fh', ev)" by (simp only: end_of_frame_eq if_False)
    from finish_frame_ready [OF this] show ?thesis by simp
  next
    case True
    with assms obtain ok th cs ps where f: "flush m (tile_hndr fh) (fh_cs fh) = Some (ok, th, cs, ps)"
      "finish_frame True (after_flush (fst (action (ok, th, cs, ps) (before_finish fh)))) (snd (action (ok, th, cs, ps) (before_finish fh))) = Some (fh', ev)"
      by (auto simp: end_of_frame_eq split: bind_splits)
    have "cs_chunks cs = cs_chunks (fh_cs fh)" using keeps_flush [OF f(1)] by (simp add: keeps_def)
    with finish_frame_ready [OF f(2)] show ?thesis by (simp add: action_fields) (simp add: action_def Let_def)
  qed
  then show "total_frames fh' = total_frames fh + 1" "cbk fh' = cbk fh"
    "readies ev = (if frame_ready_cb (cbk fh) then [cs_chunks (fh_cs fh)] else [])" by auto
qed

text \<open>What one end of a frame adds to the dumps.\<close>

definition new_dumps :: "build \<Rightarrow> memory \<Rightarrow> nat \<Rightarrow> chunk list list \<Rightarrow> (string \<times> byte list) list" where
  "new_dumps B m n css = (if opt_savej2c B \<and> can_open B (j2c_path n) then map (\<lambda>cs. (j2c_path n, chunk_data m cs)) css else [])"

lemma for_each_chunk_data: "for_each_chunk (\<lambda>base len out. out @ mem_read m base len) cs [] = chunk_data m (cs_chunks cs)"
proof -
  have "fold (\<lambda>c out. out @ mem_read m (chunk_base c) (chunk_len c)) xs out = out @ chunk_data m xs" for xs out
    by (induction xs arbitrary: out) (simp_all add: chunk_data_def chunk_bytes_def)
  then show ?thesis by (simp add: for_each_chunk_def)
qed

lemma close_files_dumps:
  "dumps (file_trace (log_close B (save_j2c B m n cs d))) = dumps (file_trace d) @ new_dumps B m n [cs_chunks cs]"
  by (simp add: log_close_def save_j2c_def new_dumps_def for_each_chunk_data split: option.split)

lemma pull_data_d_step:
  assumes B: "opens B" and inv: "files_inv B (fh, d)"
  obtains (undef) "pull_data m U p fh = None" "pull_data_d B m U p (fh, d) = None"
  | (kept) fh' ev d' where "pull_data m U p fh = Some (fh', ev)" "pull_data_d B m U p (fh, d) = Some ((fh', d'), ev)" "files_inv B (fh', d')"
      "dumps (file_trace d') = dumps (file_trace d)" "quiet fh fh' ev"
  | (ended) fh1 fh' ev1 ev2 d' where "pull_data m U p fh = Some (fh', ev1 @ ev2)" "end_of_frame m fh1 = Some (fh', ev2)"
      "pull_data_d B m U p (fh, d) = Some ((fh', d'), ev1 @ ev2)" "files_inv B (fh', d')"
      "dumps (file_trace d') = dumps (file_trace d) @ new_dumps B m (total_frames fh1) [cs_chunks (fh_cs fh1)]"
      "quiet fh fh1 ev1"
proof -
  obtain fh1 ev1 where g: "on_gap p fh = (fh1, ev1)" by fastforce
  note e = pull_data_def pull_data_d_def
  show thesis
  proof (cases "on_slab_cap fh1")
    case None
    with g show ?thesis by (intro undef) (simp_all add: e)
  next
    case (Some r)
    obtain fh2 ev2 where r: "r = (fh2, ev2)" by (cases r)
    note c = Some [unfolded r]
    have inv2: "files_inv B (fh2, d)" using inv on_gap_passed [OF g] on_slab_cap_passed [OF c] by (auto simp: files_inv_def)
    have q2: "quiet fh fh2 (ev1 @ ev2)" using quiet_trans [OF on_gap_quiet [OF g] on_slab_cap_quiet [OF c]] .
    let ?skip = "pkt_MH m p = 0 \<and> (\<not> is_passed_header fh2 \<or> is_parsing_failure fh2)"
    show ?thesis
    proof (cases ?skip)
      case True
      show ?thesis
      proof (cases "skip_body p fh2")
        case None
        with True g c show ?thesis by (intro undef) (simp_all add: e)
      next
        case (Some q)
        obtain fh3 ev3 where q: "q = (fh3, ev3)" by (cases q)
        have "files_inv B (fh3, d)" using skip_body_passed [OF Some [unfolded q]] inv2 by (auto simp: files_inv_def)
        moreover have "quiet fh fh3 (ev1 @ ev2 @ ev3)" using quiet_trans [OF q2 skip_body_quiet [OF Some [unfolded q]]] by simp
        ultimately show ?thesis using True g c Some q by (intro kept [of fh3 "ev1 @ ev2 @ ev3" d]) (simp_all add: e)
      qed
    next
      case False
      let ?part = "if 1 \<le> pkt_MH m p then main_packet m U p fh2 else do { (fh, ev) \<leftarrow> body_packet m p fh2; Some (True, fh, ev) }"
      let ?part_d = "if 1 \<le> pkt_MH m p then main_packet_d B m U p fh2 d else do { (fh, d, ev) \<leftarrow> body_packet_d B m p fh2 d; Some (True, fh, d, ev) }"
      have ns: "?skip = False" using False by blast
      have pd: "pull_data m U p fh = ?part \<bind> (\<lambda>(cont, fh, ev3). if cont \<and> marker p
            then end_of_frame m fh \<bind> (\<lambda>(fh, ev4). Some (fh, ev1 @ ev2 @ ev3 @ ev4)) else Some (fh, ev1 @ ev2 @ ev3))"
          "pull_data_d B m U p (fh, d) = ?part_d \<bind> (\<lambda>(cont, fh, d, ev3). if cont \<and> marker p
            then end_of_frame_d B m fh d \<bind> (\<lambda>(fh, d, ev4). Some ((fh, d), ev1 @ ev2 @ ev3 @ ev4)) else Some ((fh, d), ev1 @ ev2 @ ev3))"
        by (simp_all only: e g c ns Let_def prod.case if_False Option.bind.simps(2))
      have "?part = None \<and> ?part_d = None \<or> (\<exists>cont fh3 ev3 d3. ?part = Some (cont, fh3, ev3) \<and> ?part_d = Some (cont, fh3, d3, ev3)
          \<and> log_ok B d3 \<and> dumps (file_trace d3) = dumps (file_trace d))"
      proof (cases "1 \<le> pkt_MH m p")
        case True
        with log_init_ok [OF B, of "total_frames fh2" d] show ?thesis by (cases "main_packet m U p fh2") (auto simp: main_packet_d_def)
      next
        case body: False
        then have "log_ok B d" using False inv2 by (simp add: files_inv_def)
        then show ?thesis
        proof (cases rule: body_packet_d_cases [where m = m and p = p and fh = fh2])
          case undef
          with body show ?thesis by simp
        next
          case (def fh' ev d')
          with body \<open>log_ok B d\<close> only_logs_ok [OF def(3)] show ?thesis by (auto simp: only_logs_def)
        qed
      qed
      then show ?thesis
      proof (elim disjE exE conjE, goal_cases)
        case 1
        then show ?thesis by (intro undef) (simp_all only: pd Option.bind.simps(1))
      next
        case some: (2 cont fh3 ev3 d3)
        have "quiet fh2 fh3 ev3"
          using some(1) main_packet_quiet body_packet_quiet by (fastforce split: if_splits bind_splits)
        note q3 = quiet_trans [OF q2 this, unfolded append_assoc]
        note pd = pd [unfolded some(1,2) Option.bind.simps(2) prod.case]
        show ?thesis
        proof (cases "cont \<and> marker p")
          case fin: False
          with pd have "pull_data m U p fh = Some (fh3, ev1 @ ev2 @ ev3)"
            "pull_data_d B m U p (fh, d) = Some ((fh3, d3), ev1 @ ev2 @ ev3)" by (simp_all only: if_False)
          with some(3,4) q3 show ?thesis by (intro kept [of fh3 "ev1 @ ev2 @ ev3" d3]) (auto simp: files_inv_def)
        next
          case fin: True
          from some(3) show ?thesis
          proof (cases rule: end_of_frame_d_cases [where m = m and fh = fh3])
            case undef
            with fin pd that(1) show ?thesis by simp
          next
            case (def fh' ev d1 cs)
            let ?d = "log_close B (save_j2c B m (total_frames fh3) cs d1)"
            have "pull_data m U p fh = Some (fh', (ev1 @ ev2 @ ev3) @ ev)"
              "pull_data_d B m U p (fh, d) = Some ((fh', ?d), (ev1 @ ev2 @ ev3) @ ev)"
              using fin pd def(1,4) by simp_all
            moreover have "files_inv B (fh', ?d)" using end_of_frame_passed [OF def(1)] by (simp add: files_inv_def)
            ultimately show ?thesis
              using def(1-3) some(4) q3 by (intro ended) (auto simp: close_files_dumps only_logs_def)
          qed
        qed
      qed
    qed
  qed
qed

lemma pull_step_app [simp]:
  "pull_step (m, U, p) fh = pull_data m U p fh" "pull_step_d B (m, U, p) s = pull_data_d B m U p s"
  by (simp_all add: pull_step_def pull_step_d_def)

interpretation logged: erased_machine pull_step "pull_step_d B" fst "\<lambda>s. opens B \<and> files_inv B s" for B
proof
  fix s :: "frame_handler \<times> diag" and i :: "memory \<times> uninit \<times> packet"
  assume inv: "opens B \<and> files_inv B s"
  obtain fh d where s: "s = (fh, d)" by (cases s)
  obtain m U p where i: "i = (m, U, p)" by (metis prod.exhaust)
  from inv s have "opens B" "files_inv B (fh, d)" by auto
  then have "pull_data m U p fh = map_option (map_prod fst id) (pull_data_d B m U p (fh, d))
     \<and> (\<forall>s' ev. pull_data_d B m U p (fh, d) = Some (s', ev) \<longrightarrow> files_inv B s')"
    by (cases rule: pull_data_d_step [where m = m and U = U and p = p]) auto
  then show "pull_step i (fst s) = map_option (map_prod fst id) (pull_step_d B i s)"
    and "\<And>s' ev. pull_step_d B i s = Some (s', ev) \<Longrightarrow> opens B \<and> files_inv B s'"
    using inv by (auto simp: s i)
qed

text \<open>
  C22: diagnostics are erasable. In a build whose log files can be opened, with any of the logging, dump and
  counter options on, a sequence of \<open>pull_data\<close> calls that starts between two frames behaves as in a build without
  diagnostics: it is defined exactly when that one is, the frame handler ends in the same state, and the
  callbacks are the same, in the same order.
\<close>

theorem diagnostics_erasable:
  assumes "opens B" "\<not> is_passed_header fh"
  shows "run pull_step is fh = map_option (map_prod fst id) (run (pull_step_d B) is (fh, d))"
  using logged.run_erased [of B "(fh, d)" "is"] assms by (simp add: files_inv_def)

lemma full_build_opens: "opens full_build"
  by (simp add: opens_def full_build_def)

theorem diagnostics_erasable_witness:
  "map_option snd (run (pull_step_d full_build) frame_packets (latched_handler, diag_init))
     = Some [Ev_Chunk 0 8 4, Ev_Chunk 4 108 3,
         Ev_Ready [\<lparr>chunk_base = 8, chunk_len = 4\<rparr>, \<lparr>chunk_base = 108, chunk_len = 3\<rparr>] True,
         Ev_Release 7, Ev_Release 8]"
proof -
  have "\<not> is_passed_header latched_handler" using latched_handler_between by (simp add: between_frames_def)
  from diagnostics_erasable [OF full_build_opens this, of frame_packets diag_init] run_frame_packets show ?thesis
    by (simp add: option.map_comp o_def)
qed

section \<open>Dumps\<close>

text \<open>A file name determines the frame number.\<close>

lemma pad5_val: "digits_val (pad5 n) = n"
proof -
  have "digits_val (replicate k CHR ''0'' @ ds) = digits_val ds" for k ds
    by (induction k) (simp_all add: digits_val_def code_def)
  then show ?thesis by (simp add: pad5_def show_nat_digits)
qed

lemma path_inj: "inj j2c_path" "inj log_path"
  using pad5_val by (auto intro!: injI simp: j2c_path_def log_path_def) (metis)+

text \<open>The bytes of the frames completed by a sequence of calls.\<close>

fun frames_done :: "(memory \<times> uninit \<times> packet) list \<Rightarrow> frame_handler \<Rightarrow> byte list list" where
  "frames_done [] fh = []"
| "frames_done (i # is) fh =
     (case pull_step i fh of None \<Rightarrow> []
      | Some (fh', ev) \<Rightarrow> map (chunk_data (fst i)) (readies ev) @ frames_done is fh')"

lemma run_dumps:
  assumes B: "opens B" "opt_savej2c B" "\<And>n. can_open B (j2c_path n)"
  shows "files_inv B (fh, d) \<Longrightarrow> frame_ready_cb (cbk fh) \<Longrightarrow> run (pull_step_d B) is (fh, d) = Some ((fh', d'), ev) \<Longrightarrow>
    \<exists>ns. sorted_wrt (<) ns \<and> set ns \<subseteq> {total_frames fh..<total_frames fh'} \<and> length ns = length (frames_done is fh)
      \<and> total_frames fh \<le> total_frames fh'
      \<and> dumps (file_trace d') = dumps (file_trace d) @ zip (map j2c_path ns) (frames_done is fh)"
proof (induction "is" arbitrary: fh d ev)
  case (Cons i "is")
  obtain m U p where i: "i = (m, U, p)" by (metis prod.exhaust)
  from B(1) Cons.prems(1) show ?case
  proof (cases rule: pull_data_d_step [where m = m and U = U and p = p])
    case undef
    with Cons.prems(3) show ?thesis by (simp add: i)
  next
    case (kept fh1 ev1 d1)
    with Cons.prems(3) obtain ev2 where "run (pull_step_d B) is (fh1, d1) = Some ((fh', d'), ev2)"
      by (auto simp: i split: bind_splits)
    from Cons.IH [OF kept(3) _ this] kept Cons.prems(2) obtain ns where
      "sorted_wrt (<) ns" "set ns \<subseteq> {total_frames fh1..<total_frames fh'}" "length ns = length (frames_done is fh1)"
      "total_frames fh1 \<le> total_frames fh'" "dumps (file_trace d') = dumps (file_trace d1) @ zip (map j2c_path ns) (frames_done is fh1)"
      by (auto simp: quiet_def)
    with kept show ?thesis by (intro exI [of _ ns]) (auto simp: i quiet_def)
  next
    case (ended fh0 fh1 ev1 ev2 d1)
    note r = end_of_frame_ready [OF ended(2)]
    from ended Cons.prems(3) obtain ev3 where run: "run (pull_step_d B) is (fh1, d1) = Some ((fh', d'), ev3)"
      by (auto simp: i split: bind_splits)
    have q: "readies ev1 = []" "total_frames fh \<le> total_frames fh0" "cbk fh0 = cbk fh" using ended(6) by (auto simp: quiet_def)
    from Cons.IH [OF ended(4) _ run] Cons.prems(2) r(2) q(3) obtain ns where ns:
      "sorted_wrt (<) ns" "set ns \<subseteq> {total_frames fh1..<total_frames fh'}" "length ns = length (frames_done is fh1)"
      "total_frames fh1 \<le> total_frames fh'" "dumps (file_trace d') = dumps (file_trace d1) @ zip (map j2c_path ns) (frames_done is fh1)"
      by auto
    have "frames_done (i # is) fh = chunk_data m (cs_chunks (fh_cs fh0)) # frames_done is fh1"
      using ended(1) r(3) q Cons.prems(2) by (simp add: i)
    with ns ended(5) r(1) q(2) B show ?thesis
      by (intro exI [of _ "total_frames fh0 # ns"]) (auto simp: new_dumps_def)
  qed
qed simp

text \<open>
  C23: what is dumped. With \<open>ENABLE_SAVEJ2C\<close>, when every file can be opened, the dumps that a sequence of calls adds are
  the frames handed to the frame-ready callback, all of them and in order, each with exactly the bytes of its
  chunks at that moment. Their names carry strictly increasing frame numbers, and different frames are
  written under different names.
\<close>

theorem dumps_are_the_frames:
  assumes "opens B" "opt_savej2c B" "\<forall>n. can_open B (j2c_path n)"
    and "\<not> is_passed_header fh" "frame_ready_cb (cbk fh)"
    and "run (pull_step_d B) is (fh, d) = Some ((fh', d'), ev)"
  shows "\<exists>ns. dumps (file_trace d') = dumps (file_trace d) @ zip (map j2c_path ns) (frames_done is fh)
    \<and> length ns = length (frames_done is fh) \<and> sorted_wrt (<) ns \<and> distinct (map j2c_path ns)
    \<and> set ns \<subseteq> {total_frames fh..<total_frames fh'}"
proof -
  from run_dumps [OF assms(1,2) _ _ assms(5,6)] assms(3,4) obtain ns where
    "sorted_wrt (<) ns" "set ns \<subseteq> {total_frames fh..<total_frames fh'}" "length ns = length (frames_done is fh)"
    "dumps (file_trace d') = dumps (file_trace d) @ zip (map j2c_path ns) (frames_done is fh)"
    by (auto simp: files_inv_def)
  moreover from this have "distinct (map j2c_path ns)"
    using path_inj(1) by (auto simp: distinct_map strict_sorted_iff intro: inj_on_subset)
  ultimately show ?thesis by blast
qed

lemma run_frame_packets_d:
  "map_option (dumps \<circ> file_trace \<circ> snd \<circ> fst) (run (pull_step_d full_build) frame_packets (latched_handler, diag_init))
     = Some [(''out_00000.j2c'', [0xFF, 0x4F, 0xFF, 0x93, 0, 0, 0])]"
  "frames_done frame_packets latched_handler = [[0xFF, 0x4F, 0xFF, 0x93, 0, 0, 0]]"
  by code_simp+

theorem dumps_are_the_frames_witness:
  "\<exists>fh' d' ev ns. run (pull_step_d full_build) frame_packets (latched_handler, diag_init) = Some ((fh', d'), ev)
     \<and> dumps (file_trace d') = zip (map j2c_path ns) [[0xFF, 0x4F, 0xFF, 0x93, 0, 0, 0]] \<and> length ns = 1"
proof -
  obtain fh' d' ev where r: "run (pull_step_d full_build) frame_packets (latched_handler, diag_init) = Some ((fh', d'), ev)"
    using run_frame_packets_d(1) by auto
  have "\<not> is_passed_header latched_handler" "frame_ready_cb (cbk latched_handler)"
    using latched_handler_between by (auto simp: between_frames_def)
  from dumps_are_the_frames [OF full_build_opens _ _ this r] r run_frame_packets_d(2) show ?thesis
    by (auto simp: full_build_def diag_init_def)
qed

section \<open>Limits of the log files\<close>

text \<open>A log file that cannot be opened makes the first line written to it undefined.\<close>

lemma log_needs_open: "opt_logging B \<Longrightarrow> \<not> can_open B (log_path n) \<Longrightarrow> log_put B msg (log_init B n d) = None"
  by (simp add: log_put_def log_init_def)

text \<open>
  Two main packets with the EOC between them lost. The log is opened before the abandoned frame is counted, so it
  is opened twice under the number of the abandoned frame, the first handle is never closed, and the
  dump of the second frame carries another number than its log.
\<close>

lemma log_and_dump_differ:
  "map_option (file_trace \<circ> snd \<circ> fst) (run (pull_step_d full_build)
     [(frame_mem, no_storage, plain_packet 0 4 False 7), (frame_mem, no_storage, plain_packet 0 4 False 8),
      (frame_mem, no_storage, plain_packet 100 3 True 9)] (latched_handler, diag_init))
   = Some [Opened ''log_00000.log'', Opened ''log_00000.log'',
       Dumped ''out_00001.j2c'' [0xFF, 0x4F, 0xFF, 0x93, 0, 0, 0], Closed ''log_00000.log'']"
  by code_simp

text \<open>The end of a frame that failed is skipped over, and its log stays open.\<close>

lemma failed_frame_leaves_log_open:
  "pkt_MH m p = 0 \<Longrightarrow> is_parsing_failure fh \<Longrightarrow> \<not> gap p \<Longrightarrow> length (held_slabs fh) < 3072
   \<Longrightarrow> pull_data_d B m U p (fh, d) = Some (s', ev) \<Longrightarrow> snd s' = d"
  by (auto simp: pull_data_d_def on_gap_def on_slab_cap_def split: bind_splits)

end
