(* ===== verification/Lossless.thy ===== *)
theory Lossless
  imports Decoder
begin

text \<open>
  Receiver and hook on a stream that the network delivers completely, though in another order and
  with duplicates (\<open>src/rtp_receiver.cpp\<close>, \<open>src/main.cpp\<close>). Packets are named by their position
  in the stream, of which the sequence number is the low 16 bits.

  Shown: as long as no packet is overtaken by more than the jitter window and the decoder keeps up, the
  hook gets every packet, once and in order, and nothing is counted as dropped.
\<close>

section \<open>Positions and sequence numbers\<close>

abbreviation number :: "u16 \<Rightarrow> nat \<Rightarrow> u16" where
  "number s0 k \<equiv> s0 + word_of_nat k"

lemma number_ahead: "n < 65536 \<Longrightarrow> unat (number s0 (h + n) - number s0 h) = n"
  by (simp add: unat_of_nat)

lemma number_behind:
  assumes "0 < n" "n \<le> 32768"
  shows "seq_diff (number s0 k) (number s0 (k + n)) < 0"
proof -
  have "word_of_nat n + word_of_nat (65536 - n) = (word_of_nat (n + (65536 - n)) :: u16)" by (simp only: of_nat_add)
  also have "\<dots> = 0" using assms by simp
  finally have "- word_of_nat n = (word_of_nat (65536 - n) :: u16)" by (rule minus_unique)
  then have "unat (- word_of_nat n :: u16) = 65536 - n" using assms by (simp only: unat_of_nat) simp
  then have "\<not> unat (number s0 k - number s0 (k + n)) < 32768" using assms(2) by simp
  then show ?thesis using seq_diff_nonneg [of "number s0 k" "number s0 (k + n)"] by simp
qed

lemma number_index_inj:
  assumes "h \<le> k" "k < h + kRingSize" "h \<le> k'" "k' < h + kRingSize" "ring_index (number s0 k) = ring_index (number s0 k')"
  shows "k = k'"
proof -
  have u: "unat (number s0 k - number s0 h) = k - h" "unat (number s0 k' - number s0 h) = k' - h"
    using number_ahead [of "k - h" s0 h] number_ahead [of "k' - h" s0 h] assms(1-4) by (simp_all add: kRingSize_def)
  have "number s0 k = number s0 k'"
    by (rule ring_index_inj [where n = "number s0 h"]) (use u assms in auto)
  with u have "k - h = k' - h" by simp
  with assms(1,3) show ?thesis by simp
qed

section \<open>The receiver on a complete stream\<close>

text \<open>
  The packets at the positions \<open>A\<close> have arrived. Those before \<open>h\<close> have been passed on: given to the hook (\<open>hs\<close>) or
  queued; the others are in the ring; nothing was dropped.
\<close>

definition passed_on :: "u16 \<Rightarrow> nat set \<Rightarrow> u16 list \<Rightarrow> nat \<Rightarrow> receiver \<Rightarrow> bool" where
  "passed_on s0 A hs h rx \<longleftrightarrow>
     {..<h} \<subseteq> A \<and> (\<forall>k \<in> A. k < h + jitter_depth rx) \<and> next_seq rx = number s0 h
     \<and> hs @ map job_seq (jobs rx) = map (number s0) [0..<h]
     \<and> (\<forall>i. filled (ring rx i) \<longleftrightarrow> (\<exists>k \<in> A. h \<le> k \<and> i = ring_index (number s0 k)))
     \<and> total_drops rx = 0"

lemma passed_on_head:
  assumes inv: "rx_inv rx" and p: "passed_on s0 A hs h rx"
  shows "head_filled rx \<longleftrightarrow> h \<in> A"
proof
  have d: "0 < jitter_depth rx" "jitter_depth rx \<le> kRingSize" using inv by (auto simp: rx_inv_def)
  {
    assume "head_filled rx"
    with p obtain k where "k \<in> A" "h \<le> k" "ring_index (number s0 h) = ring_index (number s0 k)"
      by (auto simp: passed_on_def head_filled_def)
    moreover from this p have "k < h + kRingSize" using d(2) by (fastforce simp: passed_on_def)
    ultimately show "h \<in> A" using number_index_inj [of h h k s0] d by (simp add: kRingSize_def)
  next
    assume "h \<in> A"
    with p have f: "filled (ring rx (ring_index (next_seq rx)))" by (auto simp: passed_on_def)
    from slot_of_window [OF inv _ f] d(1) f show "head_filled rx" by (simp add: head_filled_def)
  }
qed

lemma passed_on_dispatch:
  assumes inv: "rx_inv rx" and p: "passed_on s0 A hs h rx" and hf: "head_filled rx" and room: "queue_room rx"
  shows "passed_on s0 A hs (Suc h) ((dispatch_head rx)\<lparr>next_seq := next_seq rx + 1\<rparr>)"
proof -
  have q: "queue_inv rx" and d: "jitter_depth rx \<le> kRingSize" using inv by (auto simp: rx_inv_def)
  note st = dispatch_head_state [OF q]
  have hA: "h \<in> A" using passed_on_head [OF inv p] hf by simp
  have other: "ring_index (number s0 k) \<noteq> ring_index (number s0 h)" if "k \<in> A" "Suc h \<le> k" for k
  proof
    assume e: "ring_index (number s0 k) = ring_index (number s0 h)"
    have "k < h + kRingSize" using that(1) p d by (fastforce simp: passed_on_def)
    with number_index_inj [of h k h s0] that(2) e show False by (simp add: kRingSize_def)
  qed
  have f: "filled (ring ((dispatch_head rx)\<lparr>next_seq := next_seq rx + 1\<rparr>) i)
      \<longleftrightarrow> (\<exists>k \<in> A. Suc h \<le> k \<and> i = ring_index (number s0 k))" for i
  proof (cases "i = ring_index (number s0 h)")
    case True
    with other have "\<not> (\<exists>k \<in> A. Suc h \<le> k \<and> i = ring_index (number s0 k))" by metis
    moreover have "\<not> filled (ring ((dispatch_head rx)\<lparr>next_seq := next_seq rx + 1\<rparr>) i)"
      using True p by (simp add: st passed_on_def)
    ultimately show ?thesis by simp
  next
    case False
    then have "(\<exists>k \<in> A. h \<le> k \<and> i = ring_index (number s0 k)) = (\<exists>k \<in> A. Suc h \<le> k \<and> i = ring_index (number s0 k))"
      by (metis Suc_leD Suc_leI le_neq_implies_less)
    with False p show ?thesis by (simp add: st passed_on_def)
  qed
  have "{..<Suc h} \<subseteq> A" using p hA by (auto simp: passed_on_def less_Suc_eq)
  moreover have "job_seq (head_job rx) = number s0 h" using hf p by (simp add: head_job_def head_filled_def passed_on_def Let_def)
  ultimately show ?thesis
    unfolding passed_on_def [of s0 A hs "Suc h"]
  proof (intro conjI allI)
    show "filled (ring ((dispatch_head rx)\<lparr>next_seq := next_seq rx + 1\<rparr>) i)
        = (\<exists>k \<in> A. Suc h \<le> k \<and> i = ring_index (number s0 k))" for i by (rule f)
  qed (use p room in \<open>auto simp: st total_drops_def dispatch_head_busy passed_on_def\<close>)
qed

lemma passed_on_release:
  "rx_inv rx \<Longrightarrow> passed_on s0 A hs h rx \<Longrightarrow> length (jobs rx) + pending rx < kJobQueueSize \<Longrightarrow>
    \<exists>h'. passed_on s0 A hs h' (release_in_order rx) \<and> h' \<notin> A"
proof (induction rx arbitrary: h rule: release_in_order.induct)
  case (1 rx)
  show ?case
  proof (cases "0 < pending rx \<and> head_filled rx")
    case True
    let ?rx = "(dispatch_head rx)\<lparr>next_seq := next_seq rx + 1\<rparr>"
    have q: "queue_inv rx" using "1.prems" by (simp add: rx_inv_def)
    have room: "queue_room rx" using "1.prems"(3) True by (auto simp: queue_room_def)
    have "length (jobs ?rx) + pending ?rx < kJobQueueSize"
      using "1.prems"(3) True room by (simp add: dispatch_head_state [OF q])
    from "1.IH" [OF True _ passed_on_dispatch [OF "1.prems"(1,2) _ room] this] dispatch_head_inv(1) [OF "1.prems"(1)] True
    show ?thesis by (simp add: release_in_order.simps [of rx])
  next
    case False
    then have "release_in_order rx = rx" unfolding release_in_order.simps [of rx] by (rule if_not_P)
    moreover have "h \<notin> A"
      using release_in_order_moves [OF "1.prems"(1)] passed_on_head [OF "1.prems"(1,2)] calculation by simp
    ultimately show ?thesis using "1.prems"(2) by auto
  qed
qed

lemma passed_on_stored:
  assumes p: "passed_on s0 A hs h rx" and k: "h \<le> k" "k < h + jitter_depth rx"
  shows "passed_on s0 (insert k A) hs h (stored d hdr elen (number s0 k) rx)"
  using p k by (auto simp: passed_on_def stored_def upd_slot_def Let_def total_drops_def)

lemma in_window_stays:
  assumes "rx_inv rx" "unat (seq - next_seq rx) < jitter_depth rx"
  shows "force_advance seq rx = Some rx" "\<not> seq_diff seq (next_seq rx) < 0"
proof -
  have "jitter_depth rx < 32768" using assms(1) by (auto simp: rx_inv_def kRingSize_def)
  with assms(2) depth_test [of rx seq "next_seq rx"] seq_diff_nonneg [of seq "next_seq rx"]
  show "force_advance seq rx = Some rx" "\<not> seq_diff seq (next_seq rx) < 0"
    by (simp_all add: force_advance.simps [of seq rx])
qed

text \<open>One more packet, not overtaken beyond the window and with room for it.\<close>

lemma passed_on_recv:
  assumes inv: "rx_inv rx" "started rx" and p: "passed_on s0 A hs h rx" "h \<notin> A"
    and d: "parse_rtp d = Some (hdr, elen, number s0 k)"
    and w: "\<forall>j. j + jitter_depth rx \<le> k \<longrightarrow> j \<in> A" "\<forall>j \<in> A. j < k + 32768"
    and free: "0 \<le> seq_diff (number s0 k) (next_seq rx) \<Longrightarrow> \<not> in_worker (ring rx (ring_index (number s0 k)))"
    and room: "length (jobs rx) + pending rx + 1 < kJobQueueSize"
  shows "\<exists>rx' h'. handle_dgram d rx = Some rx' \<and> passed_on s0 (insert k A) hs h' rx' \<and> h' \<notin> insert k A"
proof (cases "k < h")
  case True
  then have kA: "k \<in> A" using p(1) by (auto simp: passed_on_def)
  have "h - 1 \<in> A" using True p(1) by (auto simp: passed_on_def)
  with w(2) True have "h \<le> k + 32768" by force
  with True number_behind [of "h - k" s0 k] have "seq_diff (number s0 k) (next_seq rx) < 0"
    using p(1) by (simp add: passed_on_def)
  with handle_dgram_late [OF d] inv(2) have "handle_dgram d rx = Some rx" by (simp add: first_packet_def)
  with p kA show ?thesis by (auto simp: insert_absorb)
next
  case False
  then have k: "h \<le> k" "k < h + jitter_depth rx" using w(1) p(2) by (auto simp: not_le [symmetric])
  have dj: "jitter_depth rx \<le> kRingSize" and n: "next_seq rx = number s0 h" using inv p(1) by (auto simp: rx_inv_def passed_on_def)
  have win: "unat (number s0 k - next_seq rx) < jitter_depth rx"
    using number_ahead [of "k - h" s0 h] k dj n by (simp add: kRingSize_def)
  note st = in_window_stays [OF inv(1) win]
  have h: "handle_dgram d rx = Some (store_packet d hdr elen (number s0 k) rx)"
    using st inv(2) by (simp add: handle_dgram_first [OF d] first_packet_def)
  show ?thesis
  proof (cases "filled (ring rx (ring_index (number s0 k)))")
    case True
    with p(1) obtain k' where k': "k' \<in> A" "h \<le> k'" "ring_index (number s0 k) = ring_index (number s0 k')"
      by (auto simp: passed_on_def)
    then have "k' < h + kRingSize" using p(1) dj by (fastforce simp: passed_on_def)
    with number_index_inj [OF k(1) _ k'(2) _ k'(3)] k(2) dj k'(1) have "k \<in> A" by simp
    with True h p show ?thesis by (auto simp: store_packet_cases [OF inv(1) win] insert_absorb)
  next
    case False
    have nw: "\<not> in_worker (ring rx (ring_index (number s0 k)))" using free st(2) by simp
    let ?rx = "stored d hdr elen (number s0 k) rx"
    note b = parse_rtp_bounds [OF d]
    have i: "rx_inv ?rx" by (rule stored_inv(1) [OF inv(1) win False nw b(2,4) inv(2)])
    have "length (jobs ?rx) + pending ?rx < kJobQueueSize" using room by (simp add: stored_def upd_slot_def Let_def)
    from passed_on_release [OF i passed_on_stored [OF p(1) k] this] h False nw show ?thesis
      by (simp add: store_packet_cases [OF inv(1) win])
  qed
qed

lemma handle_dgram_kept:
  assumes "rx_inv rx" "handle_dgram d rx = Some rx'"
  shows "jitter_depth rx' = jitter_depth rx" "started rx \<Longrightarrow> started rx'"
proof -
  show "jitter_depth rx' = jitter_depth rx"
    using assms by (rule handle_dgram_preserves) (auto simp: first_packet_def stored_def upd_slot_def Let_def dest: head_moves_inv)
  show "started rx'" if "started rx"
    using assms that by (rule handle_dgram_preserves) (auto simp: first_packet_def stored_def upd_slot_def Let_def dest: head_moves_inv)
qed

text \<open>Before the first packet.\<close>

definition unstarted :: "receiver \<Rightarrow> bool" where
  "unstarted rx \<longleftrightarrow> \<not> started rx \<and> (\<forall>i. \<not> filled (ring rx i)) \<and> jobs rx = [] \<and> total_drops rx = 0"

definition complete :: "u16 \<Rightarrow> nat set \<Rightarrow> u16 list \<Rightarrow> receiver \<Rightarrow> bool" where
  "complete s0 A hs rx \<longleftrightarrow>
     (if A = {} then unstarted rx \<and> hs = [] else started rx \<and> (\<exists>h. passed_on s0 A hs h rx \<and> h \<notin> A))"

lemma unstarted_first: "unstarted rx \<Longrightarrow> passed_on s0 {} [] 0 (first_packet (number s0 0) rx)"
  by (simp add: unstarted_def passed_on_def first_packet_def total_drops_def)

lemma handle_dgram_first_eq: "parse_rtp d = Some (hdr, elen, seq) \<Longrightarrow> handle_dgram d rx = handle_dgram d (first_packet seq rx)"
  by (simp add: handle_dgram_first) (simp add: first_packet_def)

lemma complete_recv:
  assumes inv: "rx_inv rx" and c: "complete s0 A hs rx" and d: "parse_rtp d = Some (hdr, elen, number s0 k)"
    and first: "A = {} \<Longrightarrow> k = 0" and w: "\<forall>j. j + jitter_depth rx \<le> k \<longrightarrow> j \<in> A" "\<forall>j \<in> A. j < k + 32768"
    and free: "0 \<le> seq_diff (number s0 k) (next_seq (first_packet (number s0 k) rx)) \<Longrightarrow> \<not> in_worker (ring rx (ring_index (number s0 k)))"
    and room: "length (jobs rx) + pending rx + 1 < kJobQueueSize"
  shows "\<exists>rx'. recv_dgram d rx = Some rx' \<and> complete s0 (insert k A) hs rx' \<and> jitter_depth rx' = jitter_depth rx"
proof -
  let ?rx = "first_packet (number s0 k) rx"
  have i: "rx_inv ?rx" "started ?rx" using first_packet_inv [OF inv] by auto
  have f: "jitter_depth ?rx = jitter_depth rx" "ring ?rx = ring rx" "jobs ?rx = jobs rx" "pending ?rx = pending rx"
    by (simp_all add: first_packet_def)
  obtain h where h: "passed_on s0 A hs h ?rx" "h \<notin> A"
  proof (cases "A = {}")
    case True
    with c first unstarted_first that show thesis by (auto simp: complete_def)
  next
    case False
    with c that show thesis by (auto simp: complete_def first_packet_def)
  qed
  from passed_on_recv [OF i h d] w free room obtain rx' h' where
    r: "handle_dgram d ?rx = Some rx'" "passed_on s0 (insert k A) hs h' rx'" "h' \<notin> insert k A" by (auto simp: f)
  have "\<not> length d < 12" using parse_rtp_bounds [OF d] by simp
  with r handle_dgram_first_eq [OF d, of rx] handle_dgram_kept [OF i(1) r(1)] i(2) show ?thesis
    by (auto simp: recv_dgram_def complete_def f)
qed

section \<open>Receiver and worker\<close>

lemma complete_release: "complete s0 A hs (release_all ev rx) = complete s0 A hs rx"
proof -
  let ?r = "\<lambda>i. if i \<in># releases ev \<and> i < kRingSize then (ring rx i)\<lparr>in_worker := False\<rparr> else ring rx i"
  have "filled (?r i) = filled (ring rx i)" for i by simp
  then show ?thesis
    unfolding release_all_state complete_def unstarted_def passed_on_def total_drops_def by simp
qed

lemma complete_dequeue:
  assumes inv: "rx_inv rx" and d: "dequeue_job rx = Some (j, rx')" and c: "complete s0 A hs rx"
  shows "complete s0 A (hs @ [job_seq j]) rx'" "jitter_depth rx' = jitter_depth rx"
proof -
  note fr = dequeue_job_frame [OF inv d]
  have o: "slot_busy_drops rx' = slot_busy_drops rx" "jitter_depth rx' = jitter_depth rx"
    using d by (auto simp: dequeue_job_def split: if_splits)
  then show "jitter_depth rx' = jitter_depth rx" by simp
  show "complete s0 A (hs @ [job_seq j]) rx'"
    using c fr(2) by (auto simp: complete_def unstarted_def passed_on_def total_drops_def fr(3-8) o split: if_splits)
qed

lemma complete_worker:
  assumes inv: "rx_inv (p_receiver p)" and c: "complete s0 A hs (p_receiver p)" and w: "worker_step U p = Some (p', out)"
  shows "\<exists>hs'. observe note_seq out hs = Some hs' \<and> complete s0 A hs' (p_receiver p')
    \<and> jitter_depth (p_receiver p') = jitter_depth (p_receiver p)"
  using inv w
proof (cases rule: worker_step_cases)
  case idle
  with c show ?thesis by simp
next
  case (job j rx f fh' ev os)
  have "observe note_seq out hs = Some (hs @ [job_seq j])"
    unfolding job(9) using observe_no_frames [OF job(10)] observe_no_frames [of "map Out_Event ev"] job(5)
    by (auto simp: note_seq_def)
  with complete_dequeue [OF inv job(2) c] show ?thesis by (simp add: job(8) complete_release) (simp add: release_all_state)
qed

text \<open>
  The sequence number of a datagram that is an RTP packet, the numbers that arrive during a run, and
  the order of their positions: the first one is 0, a packet comes only when all those \<open>D\<close> or more
  before it have come, and at most 32768 behind the foremost.
\<close>

definition number_of :: "byte list \<Rightarrow> u16 option" where
  "number_of d = (if length d < 12 then None else map_option (\<lambda>(hdr, elen, seq). seq) (parse_rtp d))"

fun arrivals :: "action list \<Rightarrow> u16 list" where
  "arrivals [] = []"
| "arrivals (Recv d # as) = (case number_of d of None \<Rightarrow> [] | Some seq \<Rightarrow> [seq]) @ arrivals as"
| "arrivals (Work U # as) = arrivals as"

fun orderly :: "nat \<Rightarrow> nat list \<Rightarrow> nat list \<Rightarrow> bool" where
  "orderly D A [] \<longleftrightarrow> True"
| "orderly D A (k # ks) \<longleftrightarrow> (A = [] \<longrightarrow> k = 0) \<and> list_all (\<lambda>j. j \<in> set A) [0..<Suc k - D] \<and> list_all (\<lambda>j. j < k + 32768) A
     \<and> orderly D (k # A) ks"

text \<open>
  The decoder keeps up: when a packet arrives that is not behind the head, the slab of its number is free, and
  the queue has room for it and all packets waiting in the ring.
\<close>

definition has_room :: "byte list \<Rightarrow> receiver \<Rightarrow> bool" where
  "has_room d rx \<longleftrightarrow>
     (case number_of d of None \<Rightarrow> True
      | Some seq \<Rightarrow> (0 \<le> seq_diff seq (next_seq (first_packet seq rx)) \<longrightarrow> \<not> in_worker (ring rx (ring_index seq)))
          \<and> length (jobs rx) + pending rx + 1 < kJobQueueSize)"

fun keeps_up :: "action list \<Rightarrow> params_t \<Rightarrow> bool" where
  "keeps_up [] p \<longleftrightarrow> True"
| "keeps_up (a # as) p \<longleftrightarrow> (case a of Recv d \<Rightarrow> has_room d (p_receiver p) | Work U \<Rightarrow> True)
     \<and> (case decoder_step a p of None \<Rightarrow> True | Some (p', out) \<Rightarrow> keeps_up as p')"

lemma complete_recv_dgram:
  assumes inv: "rx_inv rx" and c: "complete s0 (set A) hs rx" and n: "number_of d = Some (number s0 k)"
    and o: "orderly (jitter_depth rx) A (k # ks)" and room: "has_room d rx" and r: "recv_dgram d rx = Some rx'"
  shows "complete s0 (set (k # A)) hs rx'" "jitter_depth rx' = jitter_depth rx"
proof -
  from n obtain hdr elen where d: "parse_rtp d = Some (hdr, elen, number s0 k)"
    by (auto simp: number_of_def split: if_splits)
  have "\<forall>j. j + jitter_depth rx \<le> k \<longrightarrow> j \<in> set A" "\<forall>j \<in> set A. j < k + 32768" "set A = {} \<Longrightarrow> k = 0"
    using o by (auto simp: list_all_iff)
  with complete_recv [OF inv c d] room n r show "complete s0 (set (k # A)) hs rx'" "jitter_depth rx' = jitter_depth rx"
    by (auto simp: has_room_def)
qed

lemma complete_run:
  "dec_inv p \<Longrightarrow> complete s0 (set A) hs (p_receiver p) \<Longrightarrow> run decoder_step as p = Some (p', out) \<Longrightarrow>
   arrivals as = map (number s0) ks \<Longrightarrow> orderly (jitter_depth (p_receiver p)) A ks \<Longrightarrow> keeps_up as p \<Longrightarrow>
   \<exists>hs'. observe note_seq out hs = Some hs' \<and> complete s0 (set ks \<union> set A) hs' (p_receiver p')"
proof (induction as arbitrary: p A hs ks out)
  case (Cons a as)
  from Cons.prems(3) obtain p1 o1 o2 where s: "decoder_step a p = Some (p1, o1)" "run decoder_step as p1 = Some (p', o2)" "out = o1 @ o2"
    by (auto split: bind_splits)
  have rx: "rx_inv (p_receiver p)" using Cons.prems(1) by (simp add: dec_inv_def Let_def)
  have inv1: "dec_inv p1" by (rule decoder_step_inv [OF Cons.prems(1) s(1)])
  have k: "keeps_up as p1" using Cons.prems(6) s(1) by simp
  have step: "\<exists>hs'. observe note_seq out hs = Some hs' \<and> complete s0 (set ks \<union> set A) hs' (p_receiver p')"
    if "observe note_seq o1 hs = Some hs1" "complete s0 (set A1) hs1 (p_receiver p1)" "arrivals as = map (number s0) ks1"
      "orderly (jitter_depth (p_receiver p1)) A1 ks1" "set ks1 \<union> set A1 = set ks \<union> set A" for hs1 A1 ks1
    using Cons.IH [OF inv1 that(2) s(2) that(3,4) k] that(1,5) by (simp add: s(3) observe_append)
  show ?case
  proof (cases a)
    case (Work U)
    then have "worker_step U p = Some (p1, o1)" using s(1) by simp
    from complete_worker [OF rx Cons.prems(2) this] obtain hs1 where "observe note_seq o1 hs = Some hs1"
      "complete s0 (set A) hs1 (p_receiver p1)" "jitter_depth (p_receiver p1) = jitter_depth (p_receiver p)" by blast
    with step [of hs1 A ks] Cons.prems(4,5) Work show ?thesis by simp
  next
    case (Recv d)
    then obtain rx' where r: "recv_dgram d (p_receiver p) = Some rx'" "p1 = p\<lparr>p_receiver := rx'\<rparr>" "o1 = []"
      using s(1) by (auto split: bind_splits)
    show ?thesis
    proof (cases "number_of d")
      case None
      then have "rx' = p_receiver p" using r(1) by (auto simp: number_of_def recv_dgram_def handle_dgram_def split: if_splits)
      with r step [of hs A ks] Cons.prems None Recv show ?thesis by simp
    next
      case (Some seq)
      with Cons.prems(4) Recv obtain k ks1 where ks: "ks = k # ks1" "seq = number s0 k" "arrivals as = map (number s0) ks1"
        by (auto simp: Cons_eq_map_conv)
      have "has_room d (p_receiver p)" using Cons.prems(6) Recv by simp
      from complete_recv_dgram [OF rx Cons.prems(2) _ _ this r(1), of k ks1] Cons.prems(5) Some ks
      have "complete s0 (set (k # A)) hs rx'" "jitter_depth rx' = jitter_depth (p_receiver p)" by auto
      with step [of hs "k # A" ks1] r ks Cons.prems(5) show ?thesis by simp
    qed
  qed
qed simp

lemma decoder_start_complete: "complete s0 (set []) [] (p_receiver decoder_start)"
  by (simp add: complete_def unstarted_def decoder_start_def total_drops_def) (simp add: receiver_start_def slot_empty_def)

text \<open>Three packets, the last two swapped on the way, and a datagram that is no RTP packet.\<close>

definition numbered :: "byte \<Rightarrow> byte list" where
  "numbered n = sample_dgram[3 := n]"

abbreviation swapped :: "action list" where
  "swapped \<equiv> [Recv (numbered 0), Recv (numbered 2), Recv [1, 2], Recv (numbered 1)]"

lemma parse_numbered: "parse_rtp (numbered 0) = Some (12, 22, 0)" "parse_rtp (numbered 1) = Some (12, 22, 1)"
  "parse_rtp (numbered 2) = Some (12, 22, 2)"
  by code_simp+

lemma number_of_numbered: "number_of (numbered 0) = Some 0" "number_of (numbered 1) = Some 1" "number_of (numbered 2) = Some 2"
  using parse_rtp_bounds(1-3) [OF parse_numbered(1)] parse_rtp_bounds(1-3) [OF parse_numbered(2)]
    parse_rtp_bounds(1-3) [OF parse_numbered(3)]
  by (simp_all add: number_of_def parse_numbered)

lemma numbers_swapped: "arrivals swapped = map (number 0) [0, 2, 1]" "orderly 64 [] [0, 2, 1]"
  by (simp_all add: number_of_numbered) (simp add: number_of_def)

text \<open>
  C6: nothing is lost that the network delivers. From the start of the program, take any interleaving of received datagrams and worker
  rounds in which the RTP packets received have the stream positions \<open>ks\<close>, in an order in which no packet is overtaken
  by one 64 or more positions later (duplicates and other datagrams may be mixed in), and in which the decoder keeps up.
  Then the hook has seen, followed by what is queued, all packets before the first one still missing, once and
  in stream order, across wrap-arounds of the sequence number; and no drop has been counted.
\<close>

theorem complete_stream_delivered:
  assumes "run decoder_step as decoder_start = Some (p, out)" and "arrivals as = map (number s0) ks"
    and "orderly 64 [] ks" and "keeps_up as decoder_start"
  shows "\<exists>hs n. observe note_seq out [] = Some hs
    \<and> hs @ map job_seq (jobs (p_receiver p)) = map (number s0) [0..<n] \<and> {..<n} \<subseteq> set ks \<and> n \<notin> set ks
    \<and> total_drops (p_receiver p) = 0"
proof -
  have "jitter_depth (p_receiver decoder_start) = 64" by (simp add: decoder_start_def receiver_start_def)
  with complete_run [OF decoder_start_inv(1) decoder_start_complete assms(1,2)] assms(3,4) obtain hs where
    "observe note_seq out [] = Some hs" "complete s0 (set ks) hs (p_receiver p)" by auto
  then show ?thesis by (cases "ks = []") (auto simp: complete_def unstarted_def passed_on_def)
qed

text \<open>The states of the receiver on the swapped packets: the third one waits in the ring for the second.\<close>

abbreviation waiting :: receiver where
  "waiting \<equiv> stored (numbered 2) 12 22 2 sample_rx"

lemma sample_rx_jobs: "length (jobs sample_rx) = 1" "pending sample_rx = 0" "started sample_rx" "next_seq sample_rx = 1"
  "jitter_depth sample_rx = 64" "ring sample_rx = (\<lambda>_. slot_empty)(0 := slot_empty\<lparr>slot_hdr_len := 12, in_worker := True\<rparr>)"
  by (simp_all add: jobs_def sample_rx_def kJobQueueSize_def kRingSize_def)

lemma sample_rx_inv: "rx_inv sample_rx"
  using recv_dgram_inv [OF receiver_start_inv [of 64], of sample_dgram] recv_sample by (simp add: kRingSize_def)

lemma waiting_state: "recv_dgram (numbered 2) sample_rx = Some waiting"
proof -
  have "unat ((2 :: u16) - next_seq sample_rx) < jitter_depth sample_rx" by (simp add: sample_rx_jobs)
  note st = in_window_stays [OF sample_rx_inv this] store_packet_cases [OF sample_rx_inv this]
  have "\<not> head_filled waiting"
    by (simp add: head_filled_def stored_def upd_slot_def Let_def sample_rx_jobs ring_index_def kRingSize_def slot_empty_def)
  then have "release_in_order waiting = waiting" by (simp add: release_in_order.simps [of waiting])
  with st parse_rtp_bounds(1-3) [OF parse_numbered(3)] show ?thesis
    by (simp add: recv_dgram_def handle_dgram_first [OF parse_numbered(3)] first_packet_def sample_rx_jobs ring_index_def kRingSize_def slot_empty_def)
qed

lemma swapped_run: "\<exists>p. run decoder_step swapped decoder_start = Some (p, []) \<and> keeps_up swapped decoder_start"
proof -
  have n0: "numbered 0 = sample_dgram" by (simp add: numbered_def sample_dgram_def)
  have w: "rx_inv waiting" using recv_dgram_inv [OF sample_rx_inv, of "numbered 2"] waiting_state by auto
  obtain rx where rx: "recv_dgram (numbered 1) waiting = Some rx" using recv_dgram_inv [OF w, of "numbered 1"] by auto
  have short: "recv_dgram [1, 2] r = Some r" "has_room [1, 2] r" for r by (simp_all add: recv_dgram_def has_room_def number_of_def)
  have r0: "recv_dgram (numbered 0) (p_receiver decoder_start) = Some sample_rx"
    using recv_sample by (simp add: n0 decoder_start_def)
  have "has_room (numbered 0) (p_receiver decoder_start)"
    by (simp add: has_room_def number_of_numbered decoder_start_def kJobQueueSize_def kRingSize_def) (simp add: receiver_start_def slot_empty_def)
  moreover have "has_room (numbered 2) sample_rx" "has_room (numbered 1) waiting"
    by (simp_all add: has_room_def number_of_numbered sample_rx_jobs ring_index_def kJobQueueSize_def kRingSize_def stored_def upd_slot_def Let_def slot_empty_def)
  ultimately show ?thesis using r0 waiting_state rx short by simp
qed

theorem complete_stream_delivered_witness:
  "\<exists>p. run decoder_step swapped decoder_start = Some (p, []) \<and> map job_seq (jobs (p_receiver p)) = [0, 1, 2]
     \<and> total_drops (p_receiver p) = 0"
proof -
  obtain p where r: "run decoder_step swapped decoder_start = Some (p, [])" "keeps_up swapped decoder_start"
    using swapped_run by blast
  from complete_stream_delivered [OF r(1) numbers_swapped r(2)] obtain n where n: "map job_seq (jobs (p_receiver p)) = map (number 0) [0..<n]"
    "{..<n} \<subseteq> {0, 2, 1}" "n \<notin> {0, 2, 1}" "total_drops (p_receiver p) = 0" by auto
  have "n = 3"
  proof (rule ccontr)
    assume "n \<noteq> 3"
    with n(3) have "3 < n" by auto
    with n(2) show False by auto
  qed
  with r n show ?thesis by (auto simp: numeral_3_eq_3 numeral_2_eq_2)
qed

end
