(* ===== verification/Spec2Isabelle.thy ===== *)
theory Spec2Isabelle
  imports Main_Program Crp_Complete Packet_Safety Spsc_Queue Frame_Observers Frame_Files Lossless
begin

text \<open>
  A verification of the RTP receiver and incremental parser for HTJ2K (JPEG 2000 Part 15) codestreams
  under \<open>src/\<close>.

  \<^bold>\<open>The program.\<close> \<open>main\<close> (\<open>src/main.cpp\<close>) reads the command line, warns if the network card's interrupt
  shares a CPU with one of its threads, and starts a \<open>rtp::Receiver\<close> (\<open>src/rtp_receiver.hpp\<close>, \<open>src/rtp_receiver.cpp\<close>).
  The receive thread of the receiver writes each datagram into a slab of a ring, puts packets in
  sequence order within a jitter window, and hands slabs to the worker thread through a
  single-producer single-consumer job queue. The worker calls \<open>rtp_receive_hook\<close>, which passes the packet to
  \<open>j2k::frame_handler::pull_data\<close> (\<open>src/frame_handler.hpp\<close>). The frame handler collects the packets of a
  frame as a chain of chunks without copying, holding their slabs, parses the main header
  (\<open>src/packet_parser/j2k_header.cpp\<close>), and has a \<open>tile_handler\<close> (\<open>src/packet_parser/tile_handler.hpp\<close>) walk the packets of the
  codestream (\<open>src/packet_parser/j2k_packet.cpp\<close>) over the chain reader \<open>codestream\<close> (\<open>src/packet_parser/type.hpp\<close>). At the end of a frame
  the slabs go back to the receiver. Consumers are told by callbacks.

  \<^bold>\<open>Conventions.\<close> Memory is a function from addresses to bytes, a pointer is an address. Undefined
  behaviour (an access out of range, a null pointer, a signed overflow) and a loop that does not end are \<open>None\<close>; a C++ return code is a
  Boolean; an exception is the left part of a sum. Uninitialised storage is a
  parameter (\<open>uninit\<close>). A callback, a system call, a thread start or join is an event in the list an
  operation returns. Words keep their width where wrap-around or bit patterns matter; \<open>size_t\<close> counters that stay
  far below their limit are natural numbers, and the places where the source can wrap them are
  written out (\<open>hook_packet\<close>, \<open>sub_u32\<close>, the 64-bit running total \<open>chain_total_bytes\<close>). Since memory has a byte at every
  address, plain pointers are never out of range in the model; indices into arrays, vectors and staging buffers are checked.

  \<^bold>\<open>Theories, in order.\<close>
  \<^item> \<open>Prelude\<close>: types, collections, list and option lemmas; \<open>run\<close> folds a step function over inputs and \<open>observe\<close>
    folds a monitor over events; the locale \<open>observed_machine\<close> carries an invariant between a state and a monitor along a run, \<open>ledger_machine\<close>
    does so for resources that are taken and given back, \<open>erased_machine\<close> removes state that a machine never reads.
  \<^item> \<open>Codestream\<close>: \<open>class codestream\<close>, one definition per method. The locale \<open>byte_source\<close> states what a byte
    reader promises and is interpreted on the chain. Shown: reads across chunk borders are reads of the concatenated
    bytes; bit reads return the bits without the stuffing bits; \<open>take_contiguous\<close> and \<open>reset\<close>; a zero-length chunk makes the reader run away.
  \<^item> \<open>J2k_Header\<close>, \<open>Header_Signature\<close>: the marker segments, \<open>parse_main_header\<close>, and \<open>geometry_signature\<close>, which is a hash of the
    geometry markers by the recurrence of FNV-1a (from another start value) and so agrees on headers that agree there.
  \<^item> \<open>Tag_Tree\<close>, \<open>Structure\<close>, \<open>Crp_Order\<close>: the arena, tag trees, the construction of resolutions, bands, precincts and code blocks, and
    the packet sequence of \<open>prepare_precinct_structure\<close>. \<open>Crp_Complete\<close>: that sequence contains every precinct exactly once, and the two progressions are permutations of each other.
  \<^item> \<open>Packet_Header\<close>: packet headers and bodies (\<open>parse_packet_header\<close>, \<open>read_packet\<close>, \<open>parse_one_precinct\<close>).
  \<^item> \<open>Tile_Handler\<close>: \<open>create\<close>, \<open>restart\<close>, \<open>parse\<close>, \<open>flush\<close>, \<open>try_recover\<close>, signals. \<open>Tile_Walk\<close>: precincts are reported in progression order, each at most
    once, and recovery resumes at the signalled packet. \<open>Packet_Safety\<close>: for HT-only components decoding is defined
    whatever the bytes are, by an invariant on code blocks that \<open>restart\<close> sets up.
  \<^item> \<open>Frame_Handler\<close>: \<open>pull_data\<close> with every branch, and the setters. \<open>Frame_Contract\<close>: the delivery contract of the callbacks as a
    monitor (with the one case in which the code reports both an abort and a completed frame), conservation of slabs, gaps, re-latching. \<open>Frame_Observers\<close>: callbacks do not influence the handler.
  \<^item> \<open>Diagnostics\<close>, \<open>Frame_Files\<close>: the parser and \<open>pull_data\<close> with what the build options \<open>ENABLE_LOGGING\<close>, \<open>ENABLE_SAVEJ2C\<close> and
    \<open>PARSER_OVERSHOOT_INSTR\<close> add: log files, a dump per frame (\<open>src/packet_parser/utils.cpp\<close>) and counters. Files are a trace of what is opened,
    written and closed, and which paths can be opened is a parameter (\<open>build\<close>). Shown: the options do not change
    the behaviour as long as log files open, the dumps are the completed frames, and what the counters count.
  \<^item> \<open>Rtp_Receiver\<close>: header parsing, ring, reordering, dispatch, worker hand-over. \<open>Job_Queue\<close>: the queue refines a
    bounded list (locale \<open>bounded_queue\<close>). \<open>Rtp_Order\<close>: the ring invariant, order, termination, accounting. \<open>Spsc_Queue\<close>: the queue
    at the level of single memory accesses under all interleavings, where a load may return any value the other thread stored since
    the last load (release/acquire coherence). \<open>Receiver_Control\<close>: constructor, \<open>start\<close>, \<open>stop\<close>, and
    the statements of \<open>stop\<close> and of the receive thread interleaved: the order of the calls on socket and threads, the one \<open>recv\<close> that may
    fall between close and join, and that \<open>stop\<close> returns.
  \<^item> \<open>Decoder\<close>: receiver, hook and frame handler composed; a step is one datagram or one job.
    Every slab is owned by exactly one side; the hook sees the datagrams, in order; a payload shorter than the sub-header puts a chunk
    of almost 2^64 bytes into the chain. \<open>Lossless\<close>: on a stream that the network
    delivers completely, reordered within the jitter window, the hook gets every packet.
  \<^item> \<open>Cpp_Text\<close>, \<open>Nic_Affinity\<close>, \<open>Main_Program\<close>: the text functions of the C++ library, the interrupt check, and \<open>main\<close>
    from the command line to the exit code.

  \<^bold>\<open>Loops and bounds.\<close> Loops that the source bounds are structural recursions or have a measure. Loops whose end depends on the input are
  partial functions with value \<open>None\<close> when they do not end: \<open>force_advance\<close>, \<open>parse_loop\<close>, \<open>flush_loop\<close>, \<open>lblockinc_loop\<close>,
  \<open>ht_passes\<close>, \<open>other_passes\<close>, \<open>mentions_from\<close>;
  that they end is proved where they do (the receive loop in \<open>Rtp_Order\<close>, the packet walk in \<open>Packet_Safety\<close>, the name search in \<open>Nic_Affinity\<close>), and
  that one does not (\<open>force_advance\<close> at a jitter depth of 32768, \<open>Rtp_Order\<close>). \<open>drain\<close> takes one storage argument per round and the queue holds fewer than \<open>kJobQueueSize\<close> jobs, so
  a list of that length is always enough (shown in \<open>Decoder\<close>). Only the marker loop of the main header has fuel:
  one more than the bytes of the chain, which is enough because each round reads at least one byte or
  stops (\<open>marker_loop_enough\<close>).

  \<^bold>\<open>Hypotheses.\<close> Properties of the receive path ask for a jitter depth between 1 and the ring size (the
  default is 64). \<open>Lossless\<close> asks for the slab and the queue entry of an arriving packet to be free. The delivery contract is stated for packet sequences without a main header split over packets (\<open>MH = 1\<close>), which the
  code does not support. \<open>Packet_Safety\<close> asks for HT-only code blocks and data appended ahead of
  the read position. \<open>Crp_Complete\<close> asks for a tile at the origin. Each such property is followed by a concrete instance.

  \<^bold>\<open>Not modelled.\<close> \<open>print_SIZ\<close>, the usage text and the numbers printed by
  the hook are output only; decode times and \<open>get_duration\<close> read the clock and nothing depends on them. The
  high-water mark \<open>max_offset_read_\<close> of instrumented builds is written and never read, and \<open>g_allocated_bytes\<close> counts allocations in debug
  builds only. The SOP and EPH markers behind \<open>USE_SOP_EPH\<close>, which no build defines, are left out. \<open>needs_termination\<close> is never called.
  The condition variable of the worker only bounds its sleep; a worker round on an empty queue does nothing. The test
  programs and the shell script are not part of the receiver.
\<close>

end
